(* ===== verification/Prelude.thy ===== *)
theory Prelude
  imports "HOL-Library.Word"
begin

unbundle bit_operations_syntax

section \<open>Shared vocabulary of the kernel model\<close>

text \<open>
  Machine integers, error numbers and physical memory, and the generic facts about lists,
  bits and alignment that the component theories share.
\<close>

type_synonym u8 = "8 word"
type_synonym u16 = "16 word"
type_synonym u32 = "32 word"
type_synonym u64 = "64 word"

text \<open>Byte-addressed memory. Addresses are naturals: the kernel's direct map is far below
  the end of the address space, so pointer arithmetic inside an object does not wrap.\<close>

type_synonym mem = "nat \<Rightarrow> u8"

text \<open>The error numbers of \<^verbatim>\<open>include/linux/errno.h\<close> that the modelled code returns; a system
  call that returns \<open>-E\<close> is modelled as \<open>Inl E\<close>.\<close>

datatype errno =
    EPERM | ENOENT | ESRCH | EINTR | EIO | ENXIO | E2BIG | EBADF | EAGAIN | ENOMEM | EACCES
  | EFAULT | EBUSY | EEXIST | EINVAL | EMFILE | EFBIG | ENOSPC | ENOMSG | EHOSTUNREACH
  | ENAMETOOLONG | EIDRM | ERANGE | ENODEV | ENOTDIR | EISDIR | ENOTEMPTY | EROFS | ENOTTY | EPIPE
  | ELOOP | ENOSYS | EDEADLK | ETIMEDOUT | ENOEXEC | EXDEV | ENOBUFS | ENETUNREACH

type_synonym 'a result = "errno + 'a"

named_theorems kernel_simps "defining equations unfolded by component proofs"
named_theorems kernel_inv "invariant preservation facts"

subsection \<open>Lists\<close>

lemma nth_list_update_if:
  "i < length xs \<Longrightarrow> xs[i := v] ! j = (if i = j then v else xs ! j)"
  by simp

lemma upt_shift_map: "map (\<lambda>i. p + i) [0..<n] = [p..<p + n]"
  by (simp add: map_add_upt add.commute)

lemma fold_max_mono: "m \<le> fold (\<lambda>d m. max m (g d)) xs (m::nat)"
proof (induction xs arbitrary: m)
  case (Cons x xs)
  have "m \<le> max m (g x)" by simp
  also note Cons
  finally show ?case by simp
qed simp

lemma fold_max_ge: "x \<in> set xs \<Longrightarrow> g x \<le> fold (\<lambda>d m. max m (g d)) xs (m::nat)"
proof (induction xs arbitrary: m)
  case (Cons y xs)
  have "g y \<le> max m (g y)" by simp
  also note fold_max_mono
  finally show ?case using Cons by auto
qed simp

lemma fold_max_le: "m \<le> b \<Longrightarrow> (\<And>x. g x \<le> b) \<Longrightarrow> fold (\<lambda>d m. max m (g d)) xs (m::nat) \<le> b"
  by (induction xs arbitrary: m) auto

subsection \<open>Alignment and single-bit flips on naturals\<close>

lemma list_all_update: "list_all P tab \<Longrightarrow> P x \<Longrightarrow> list_all P (tab[i := x])"
  using set_update_subset_insert [of tab i x] by (auto simp: list_all_iff)

lemma list_all_slot: "list_all P tab \<Longrightarrow> i < length tab \<Longrightarrow> P (tab ! i)"
  by (simp add: list_all_length)

lemma nat_unset_bit_eq:
  assumes "bit (a::nat) k" shows "unset_bit k a = a - 2 ^ k"
proof -
  have "set_bit k (unset_bit k a) = a"
    by (rule bit_eqI) (use assms in \<open>auto simp: bit_simps\<close>)
  then have "unset_bit k a + 2 ^ k = a"
    by (simp add: set_bit_eq bit_simps)
  then show ?thesis by linarith
qed

lemma nat_xor_power_of_two:
  "(a::nat) XOR 2 ^ k = (if bit a k then a - 2 ^ k else a + 2 ^ k)"
proof -
  have "a XOR 2 ^ k = flip_bit k a"
    by (simp add: flip_bit_eq_xor push_bit_eq_mult)
  also have "\<dots> = (if bit a k then unset_bit k a else set_bit k a)"
    by (simp add: flip_bit_eq_if)
  also have "\<dots> = (if bit a k then a - 2 ^ k else a + 2 ^ k)"
    by (simp add: set_bit_eq nat_unset_bit_eq)
  finally show ?thesis .
qed

lemma bit_nat_aligned_le:
  assumes "bit (a::nat) k" shows "2 ^ k \<le> a"
proof (rule ccontr)
  assume "\<not> 2 ^ k \<le> a"
  then have "a div 2 ^ k = 0" by simp
  with assms show False by (simp add: bit_iff_odd)
qed

end
