(* ===== verification/Bitmap.thy ===== *)
theory Bitmap
  imports Prelude
begin

unbundle bit_operations_syntax

section \<open>The page bitmap (\<^verbatim>\<open>src/kernel/mm/page_alloc.c\<close>, bitmap operations)\<close>

text \<open>
  One bit per page frame in an array of 64-bit words. The laws the buddy allocator uses are
  stated as a locale over test, set and clear and proved once for the word array.
\<close>

definition bm_set :: "u64 list \<Rightarrow> nat \<Rightarrow> u64 list" where
  "bm_set bm pfn = bm[pfn div 64 := bm ! (pfn div 64) OR push_bit (pfn mod 64) 1]"

definition bm_clear :: "u64 list \<Rightarrow> nat \<Rightarrow> u64 list" where
  "bm_clear bm pfn = bm[pfn div 64 := bm ! (pfn div 64) AND NOT (push_bit (pfn mod 64) 1)]"

definition bm_test :: "u64 list \<Rightarrow> nat \<Rightarrow> bool" where
  "bm_test bm pfn \<longleftrightarrow> drop_bit (pfn mod 64) (bm ! (pfn div 64)) AND 1 = 1"

definition bm_valid :: "u64 list \<Rightarrow> nat \<Rightarrow> bool" where
  "bm_valid bm pfn \<longleftrightarrow> pfn < 64 * length bm"

subsection \<open>The interface\<close>

locale bit_array =
  fixes test :: "'b \<Rightarrow> nat \<Rightarrow> bool"
    and set1 :: "'b \<Rightarrow> nat \<Rightarrow> 'b"
    and clear1 :: "'b \<Rightarrow> nat \<Rightarrow> 'b"
    and valid :: "'b \<Rightarrow> nat \<Rightarrow> bool"
  assumes test_set: "valid b i \<Longrightarrow> test (set1 b i) j = (i = j \<or> test b j)"
    and test_clear: "valid b i \<Longrightarrow> test (clear1 b i) j = (i \<noteq> j \<and> test b j)"
    and valid_set: "valid (set1 b i) j = valid b j"
    and valid_clear: "valid (clear1 b i) j = valid b j"
begin

lemma valid_fold_set: "valid (fold (\<lambda>i b. set1 b i) is b) j = valid b j"
  by (induction "is" arbitrary: b) (auto simp: valid_set)

lemma valid_fold_clear: "valid (fold (\<lambda>i b. clear1 b i) is b) j = valid b j"
  by (induction "is" arbitrary: b) (auto simp: valid_clear)

lemma test_fold_set:
  "(\<forall>i\<in>set is. valid b i) \<Longrightarrow> test (fold (\<lambda>i b. set1 b i) is b) j = (j \<in> set is \<or> test b j)"
  by (induction "is" arbitrary: b) (auto simp: valid_set test_set)

lemma test_fold_clear:
  "(\<forall>i\<in>set is. valid b i) \<Longrightarrow> test (fold (\<lambda>i b. clear1 b i) is b) j = (j \<notin> set is \<and> test b j)"
  by (induction "is" arbitrary: b) (auto simp: valid_clear test_clear)

lemma clear_undoes_set:
  "valid b i \<Longrightarrow> \<not> test b i \<Longrightarrow> test (clear1 (set1 b i) i) j = test b j"
  by (auto simp: test_set test_clear valid_set)

end

subsection \<open>The word array implements it\<close>

lemma bm_test_bit: "bm_test bm pfn \<longleftrightarrow> bit (bm ! (pfn div 64)) (pfn mod 64)"
proof -
  have "bm_test bm pfn \<longleftrightarrow> odd (drop_bit (pfn mod 64) (bm ! (pfn div 64)))"
    by (simp add: bm_test_def and_one_eq odd_iff_mod_2_eq_one)
  then show ?thesis by (simp add: bit_iff_odd_drop_bit)
qed

lemma index_split: "i = (j::nat) \<longleftrightarrow> i div 64 = j div 64 \<and> i mod 64 = j mod 64"
  by (metis div_mult_mod_eq)

lemma bit_word_update:
  fixes b :: "u64 list"
  assumes "q < length b" and "r < 64" and "r' < 64"
  shows "bit (b[q := b ! q OR push_bit r 1] ! q') r' \<longleftrightarrow> (q = q' \<and> r = r') \<or> bit (b ! q') r'"
    and "bit (b[q := b ! q AND NOT (push_bit r 1)] ! q') r' \<longleftrightarrow>
           \<not> (q = q' \<and> r = r') \<and> bit (b ! q') r'"
  using assms by (auto simp: nth_list_update bit_simps)

interpretation bm: bit_array bm_test bm_set bm_clear bm_valid
proof unfold_locales
  fix b :: "u64 list" and i j :: nat
  assume "bm_valid b i"
  then have i: "i div 64 < length b" by (auto simp: bm_valid_def)
  show "bm_test (bm_set b i) j = (i = j \<or> bm_test b j)"
    unfolding bm_test_bit bm_set_def index_split [of i j]
    by (rule bit_word_update(1) [OF i]) simp_all
  show "bm_test (bm_clear b i) j = (i \<noteq> j \<and> bm_test b j)"
    unfolding bm_test_bit bm_clear_def index_split [of i j]
    by (rule bit_word_update(2) [OF i]) simp_all
qed (simp_all add: bm_valid_def bm_set_def bm_clear_def)

lemma length_bm_set [simp]: "length (bm_set bm i) = length bm"
  by (simp add: bm_set_def)

lemma length_bm_clear [simp]: "length (bm_clear bm i) = length bm"
  by (simp add: bm_clear_def)

lemma length_fold_bm_set [simp]: "length (fold (\<lambda>i b. bm_set b i) is bm) = length bm"
  by (induction "is" arbitrary: bm) auto

lemma length_fold_bm_clear [simp]: "length (fold (\<lambda>i b. bm_clear b i) is bm) = length bm"
  by (induction "is" arbitrary: bm) auto

end
