(* ===== verification/Memops.thy ===== *)
theory Memops
  imports Prelude
begin

unbundle bit_operations_syntax

section \<open>Memory operations (\<^verbatim>\<open>src/kernel/mm/memops.c\<close>)\<close>

text \<open>
  The word-at-a-time fill and copy routines on byte-addressed memory, and the proof that they
  agree with byte-by-byte filling and copying.
\<close>

subsection \<open>64-bit loads and stores, little endian\<close>

definition store64 :: "mem \<Rightarrow> nat \<Rightarrow> u64 \<Rightarrow> mem" where
  "store64 m a w = (\<lambda>x. if a \<le> x \<and> x < a + 8 then ucast (drop_bit (8 * (x - a)) w) else m x)"

definition load64 :: "mem \<Rightarrow> nat \<Rightarrow> u64" where
  "load64 m a = fold (\<lambda>i w. w OR push_bit (8 * i) (ucast (m (a + i)))) [0..<8] 0"

subsection \<open>The routines\<close>

fun page_zero_loop :: "nat \<Rightarrow> mem \<Rightarrow> nat \<Rightarrow> mem" where
  "page_zero_loop 0 m p = m"
| "page_zero_loop (Suc n) m p = page_zero_loop n (store64 m p 0) (p + 8)"

definition page_zero :: "mem \<Rightarrow> nat \<Rightarrow> mem" where
  "page_zero m page = page_zero_loop (4096 div 8) m page"

fun pages_zero :: "mem \<Rightarrow> nat \<Rightarrow> nat \<Rightarrow> mem" where
  "pages_zero m p 0 = m"
| "pages_zero m p (Suc n) = pages_zero (page_zero m p) (p + 4096) n"

fun byte_copy :: "mem \<Rightarrow> nat \<Rightarrow> nat \<Rightarrow> nat \<Rightarrow> mem" where
  "byte_copy m d s 0 = m"
| "byte_copy m d s (Suc len) = byte_copy (m(d := m s)) (d + 1) (s + 1) len"

function copy_align :: "mem \<Rightarrow> nat \<Rightarrow> nat \<Rightarrow> nat \<Rightarrow> mem \<times> nat \<times> nat \<times> nat" where
  "copy_align m d s len =
     (if d mod 8 \<noteq> 0 then copy_align (m(d := m s)) (d + 1) (s + 1) (len - 1) else (m, d, s, len))"
  by pat_completeness auto
termination
  by (relation "measure (\<lambda>(m, d, s, len). (8 - d mod 8) mod 8)") (auto simp: mod_Suc)

fun copy_words :: "nat \<Rightarrow> mem \<Rightarrow> nat \<Rightarrow> nat \<Rightarrow> mem \<times> nat \<times> nat" where
  "copy_words 0 m d s = (m, d, s)"
| "copy_words (Suc n) m d s = copy_words n (store64 m d (load64 m s)) (d + 8) (s + 8)"

definition kmemcpy :: "mem \<Rightarrow> nat \<Rightarrow> nat \<Rightarrow> nat \<Rightarrow> mem" where
  "kmemcpy m d s len =
     (if 8 \<le> len \<and> d mod 8 = s mod 8 then
        let (m1, d1, s1, len1) = copy_align m d s len;
            (m2, d2, s2) = copy_words (len1 div 8) m1 d1 s1
        in byte_copy m2 d2 s2 (len1 mod 8)
      else byte_copy m d s len)"

fun byte_set :: "mem \<Rightarrow> nat \<Rightarrow> u8 \<Rightarrow> nat \<Rightarrow> mem" where
  "byte_set m d v 0 = m"
| "byte_set m d v (Suc len) = byte_set (m(d := v)) (d + 1) v len"

function set_align :: "mem \<Rightarrow> nat \<Rightarrow> u8 \<Rightarrow> nat \<Rightarrow> mem \<times> nat \<times> nat" where
  "set_align m d v len =
     (if d mod 8 \<noteq> 0 then set_align (m(d := v)) (d + 1) v (len - 1) else (m, d, len))"
  by pat_completeness auto
termination
  by (relation "measure (\<lambda>(m, d, v, len). (8 - d mod 8) mod 8)") (auto simp: mod_Suc)

fun set_words :: "nat \<Rightarrow> mem \<Rightarrow> nat \<Rightarrow> u64 \<Rightarrow> mem \<times> nat" where
  "set_words 0 m d vw = (m, d)"
| "set_words (Suc n) m d vw = set_words n (store64 m d vw) (d + 8) vw"

definition spread_byte :: "u8 \<Rightarrow> u64" where
  "spread_byte v =
     (let w0 = ucast v; w1 = w0 OR push_bit 8 w0; w2 = w1 OR push_bit 16 w1
      in w2 OR push_bit 32 w2)"

definition kmemset :: "mem \<Rightarrow> nat \<Rightarrow> u8 \<Rightarrow> nat \<Rightarrow> mem" where
  "kmemset m d v len =
     (if 8 \<le> len then
        let (m1, d1, len1) = set_align m d v len;
            (m2, d2) = set_words (len1 div 8) m1 d1 (spread_byte v)
        in byte_set m2 d2 v (len1 mod 8)
      else byte_set m d v len)"

declare copy_align.simps [simp del] set_align.simps [simp del]

subsection \<open>Byte-wise meaning\<close>

definition fill :: "mem \<Rightarrow> nat \<Rightarrow> u8 \<Rightarrow> nat \<Rightarrow> mem" where
  "fill m d v len = (\<lambda>x. if d \<le> x \<and> x < d + len then v else m x)"

definition copied :: "mem \<Rightarrow> nat \<Rightarrow> nat \<Rightarrow> nat \<Rightarrow> mem" where
  "copied m d s len = (\<lambda>x. if d \<le> x \<and> x < d + len then m (s + (x - d)) else m x)"

definition disjoint_ranges :: "nat \<Rightarrow> nat \<Rightarrow> nat \<Rightarrow> bool" where
  "disjoint_ranges d s len \<longleftrightarrow> d + len \<le> s \<or> s + len \<le> d"

lemma fill_fill: "fill (fill m d v a) (d + a) v b = fill m d v (a + b)"
  by (auto simp: fill_def fun_eq_iff)

lemma fill_0 [simp]: "fill m d v 0 = m"
  by (auto simp: fill_def fun_eq_iff)

lemma copied_0 [simp]: "copied m d s 0 = m"
  by (auto simp: copied_def fun_eq_iff)

lemma copied_copied:
  "disjoint_ranges d s (a + b) \<Longrightarrow> copied (copied m d s a) (d + a) (s + a) b = copied m d s (a + b)"
  by (auto simp: copied_def fun_eq_iff disjoint_ranges_def)

lemma fun_upd_fill: "m(d := v) = fill m d v 1"
  by (auto simp: fill_def fun_eq_iff)

lemma fun_upd_copied: "m(d := m s) = copied m d s 1"
  by (auto simp: copied_def fun_eq_iff)

lemma byte_set_fill: "byte_set m d v len = fill m d v len"
  by (induction m d v len rule: byte_set.induct)
     (use fill_fill [of _ _ _ 1] in \<open>auto simp: fun_upd_fill\<close>)

lemma disjoint_ranges_step:
  "disjoint_ranges d s (a + b) \<Longrightarrow> disjoint_ranges (d + a) (s + a) b"
  "disjoint_ranges d s (a + b) \<Longrightarrow> disjoint_ranges d s a"
  by (auto simp: disjoint_ranges_def)

lemma byte_copy_copied:
  "disjoint_ranges d s len \<Longrightarrow> byte_copy m d s len = copied m d s len"
proof (induction m d s len rule: byte_copy.induct)
  case (2 m d s len)
  from 2(2) have "disjoint_ranges d s (1 + len)" by simp
  note dj = this
  have "byte_copy m d s (Suc len) = copied (m(d := m s)) (d + 1) (s + 1) len"
    using 2(1) [OF disjoint_ranges_step(1) [OF dj]] by (simp only: byte_copy.simps)
  then show ?case using copied_copied [OF dj, of m] by (simp add: fun_upd_copied)
qed simp

lemma bit_byte_lt: "bit (b::u8) n \<Longrightarrow> n < 8"
  using bit_imp_le_length [of b n] by simp

lemma bit_spread_byte: "bit (spread_byte v) j \<longleftrightarrow> j < 64 \<and> bit v (j mod 8)"
proof -
  define w0 :: u64 where "w0 = ucast v"
  define w1 where "w1 = w0 OR push_bit 8 w0"
  define w2 where "w2 = w1 OR push_bit 16 w1"
  have 0: "bit w0 i \<longleftrightarrow> i < 8 \<and> bit v i" for i
    by (auto simp: w0_def bit_simps dest: bit_byte_lt)
  have m8: "8 \<le> i \<Longrightarrow> (i - 8) mod 8 = i mod 8" for i :: nat
    using mod_mult_self1 [of "i - 8" 1 8] by simp
  have m16: "16 \<le> i \<Longrightarrow> (i - 16) mod 8 = i mod 8" for i :: nat
    using mod_mult_self1 [of "i - 16" 2 8] by simp
  have m32: "32 \<le> i \<Longrightarrow> (i - 32) mod 8 = i mod 8" for i :: nat
    using mod_mult_self1 [of "i - 32" 4 8] by simp
  have 1: "bit w1 i \<longleftrightarrow> i < 16 \<and> bit v (i mod 8)" for i
    using m8 [of i] by (cases "i < 8") (auto simp: w1_def bit_simps 0)
  have 2: "bit w2 i \<longleftrightarrow> i < 32 \<and> bit v (i mod 8)" for i
    using m16 [of i] by (cases "i < 16") (auto simp: w2_def bit_simps 1)
  have 3: "spread_byte v = w2 OR push_bit 32 w2"
    by (simp add: spread_byte_def Let_def w2_def w1_def w0_def)
  show ?thesis
    using m32 [of j] by (cases "j < 32") (auto simp: 3 bit_simps 2)
qed

lemma bit_load_fold:
  "bit (fold (\<lambda>i w. w OR push_bit (8 * i) (ucast (f i :: u8))) [0..<k] (0::u64)) j
     \<longleftrightarrow> j < 64 \<and> j div 8 < k \<and> bit (f (j div 8)) (j mod 8)"
proof (induction k)
  case (Suc k)
  have *: "8 * k \<le> j \<and> bit (f k) (j - 8 * k) \<longleftrightarrow> j div 8 = k \<and> bit (f k) (j mod 8)"
  proof
    assume a: "8 * k \<le> j \<and> bit (f k) (j - 8 * k)"
    then have "j - 8 * k < 8" by (blast dest: bit_byte_lt)
    with a have k: "j div 8 = k" by (intro div_nat_eqI) auto
    have "j mod 8 = j - 8 * k"
      using minus_mult_div_eq_mod [of j 8] k by simp
    with a k show "j div 8 = k \<and> bit (f k) (j mod 8)" by simp
  next
    assume "j div 8 = k \<and> bit (f k) (j mod 8)"
    then show "8 * k \<le> j \<and> bit (f k) (j - 8 * k)"
      by (auto simp: minus_mult_div_eq_mod)
  qed
  show ?case using * by (auto simp: bit_simps Suc less_Suc_eq dest: bit_byte_lt)
qed simp

lemma store64_spread: "store64 m d (spread_byte v) = fill m d v 8"
  by (auto simp: store64_def fill_def fun_eq_iff bit_simps bit_spread_byte
      intro!: bit_eqI dest: bit_byte_lt)

lemma store64_zero: "store64 m d 0 = fill m d 0 8"
  by (auto simp: store64_def fill_def fun_eq_iff)

lemma store64_load64: "store64 m d (load64 m s) = copied m d s 8"
proof
  fix x
  show "store64 m d (load64 m s) x = copied m d s 8 x"
  proof (cases "d \<le> x \<and> x < d + 8")
    case True
    have "ucast (drop_bit (8 * (x - d)) (load64 m s)) = m (s + (x - d))"
    proof (rule bit_eqI)
      fix n assume "possible_bit TYPE(u8) n"
      then have n: "n < 8" by simp
      have lt: "8 * (x - d) + n < 64" using True n by linarith
      have "(8 * (x - d) + n) div 8 = x - d" "(8 * (x - d) + n) mod 8 = n"
        using n by simp_all
      then show "bit (ucast (drop_bit (8 * (x - d)) (load64 m s)) :: u8) n = bit (m (s + (x - d))) n"
        using True n lt by (simp add: load64_def bit_simps bit_load_fold)
    qed
    with True show ?thesis by (simp add: store64_def copied_def)
  qed (auto simp: store64_def copied_def)
qed

lemma set_words_fill:
  "set_words n m d (spread_byte v) = (fill m d v (8 * n), d + 8 * n)"
proof (induction n arbitrary: m d)
  case (Suc n)
  then show ?case using fill_fill [of m d v 8 "8 * n"] by (simp add: store64_spread add.commute)
qed simp

lemma copy_words_copied:
  "disjoint_ranges d s (8 * n) \<Longrightarrow>
     copy_words n m d s = (copied m d s (8 * n), d + 8 * n, s + 8 * n)"
proof (induction n arbitrary: m d s)
  case (Suc n)
  then have dj: "disjoint_ranges d s (8 + 8 * n)" by simp
  show ?case
    using Suc.IH [OF disjoint_ranges_step(1) [OF dj]] copied_copied [OF dj, of m]
    by (simp add: store64_load64)
qed simp

text \<open>The alignment prologue of both routines consumes the bytes up to the next multiple
  of eight, at most seven of them.\<close>

definition pad8 :: "nat \<Rightarrow> nat" where
  "pad8 d = (8 - d mod 8) mod 8"

lemma pad8_le: "pad8 d \<le> 7"
proof -
  have "pad8 d < 8" by (simp add: pad8_def)
  then show ?thesis by linarith
qed

lemma pad8_aligned: "d mod 8 = 0 \<Longrightarrow> pad8 d = 0"
  by (simp add: pad8_def)

lemma pad8_step: "d mod 8 \<noteq> 0 \<Longrightarrow> pad8 d = Suc (pad8 (d + 1))"
  by (auto simp: pad8_def mod_Suc)

lemma set_align_fill:
  "set_align m d v len = (fill m d v (pad8 d), d + pad8 d, len - pad8 d)"
proof (induction m d v len rule: set_align.induct)
  case (1 m d v len)
  then show ?case
    using fill_fill [of m d v 1 "pad8 (d + 1)"]
    by (subst set_align.simps) (auto simp: pad8_aligned pad8_step fun_upd_fill)
qed

lemma copy_align_copied:
  "disjoint_ranges d s (pad8 d) \<Longrightarrow>
     copy_align m d s len = (copied m d s (pad8 d), d + pad8 d, s + pad8 d, len - pad8 d)"
proof (induction m d s len rule: copy_align.induct)
  case (1 m d s len)
  show ?case
  proof (cases "d mod 8 = 0")
    case False
    with 1 have dj: "disjoint_ranges d s (1 + pad8 (d + 1))" by (simp add: pad8_step)
    show ?thesis
      using 1(1) [OF False disjoint_ranges_step(1) [OF dj]] copied_copied [OF dj, of m] False
      by (subst copy_align.simps) (auto simp: pad8_step fun_upd_copied)
  qed (simp add: copy_align.simps pad8_aligned)
qed

lemma kmemset_fill: "kmemset m d v len = fill m d v len"
proof (cases "8 \<le> len")
  case True
  define k where "k = pad8 d"
  define n where "n = (len - k) div 8"
  have len: "len = k + (8 * n + (len - k) mod 8)"
    using True pad8_le [of d] by (simp add: n_def k_def)
  have "kmemset m d v len = fill (fill (fill m d v k) (d + k) v (8 * n)) (d + k + 8 * n) v ((len - k) mod 8)"
    using True by (simp add: kmemset_def set_align_fill set_words_fill byte_set_fill k_def n_def)
  also have "\<dots> = fill m d v len"
    using len by (metis fill_fill add.assoc)
  finally show ?thesis .
qed (simp add: kmemset_def byte_set_fill)

lemma kmemcpy_copied:
  assumes "disjoint_ranges d s len"
  shows "kmemcpy m d s len = copied m d s len"
proof (cases "8 \<le> len \<and> d mod 8 = s mod 8")
  case True
  define k where "k = pad8 d"
  define n where "n = (len - k) div 8"
  define r where "r = (len - k) mod 8"
  have len: "len = k + (8 * n + r)"
    using True pad8_le [of d] by (simp add: n_def k_def r_def)
  have d1: "disjoint_ranges d s (k + (8 * n + r))" using assms len by simp
  note d2 = disjoint_ranges_step(1) [OF d1]
  note d3 = disjoint_ranges_step [OF d2]
  have "kmemcpy m d s len =
      copied (copied (copied m d s k) (d + k) (s + k) (8 * n)) (d + k + 8 * n) (s + k + 8 * n) r"
    using True copy_align_copied [of d s m len] copy_words_copied [OF d3(2), of "copied m d s k"]
      byte_copy_copied [OF d3(1)] disjoint_ranges_step(2) [OF d1]
    by (simp add: kmemcpy_def flip: k_def n_def r_def)
  also have "\<dots> = copied m d s len"
    using copied_copied [OF d2, of "copied m d s k"] copied_copied [OF d1] len by simp
  finally show ?thesis .
qed (auto simp: kmemcpy_def byte_copy_copied assms)

lemma page_zero_loop_fill: "page_zero_loop n m p = fill m p 0 (8 * n)"
proof (induction n arbitrary: m p)
  case (Suc n)
  then show ?case using fill_fill [of m p 0 8 "8 * n"] by (simp add: store64_zero)
qed simp

lemma page_zero_fill: "page_zero m p = fill m p 0 4096"
  by (simp add: page_zero_def page_zero_loop_fill)

lemma pages_zero_fill: "pages_zero m p n = fill m p 0 (4096 * n)"
proof (induction n arbitrary: m p)
  case (Suc n)
  then show ?case using fill_fill [of m p 0 4096 "4096 * n"] by (simp add: page_zero_fill)
qed simp

end
