(* ===== verification/Buddy.thy ===== *)
theory Buddy
  imports Bitmap Memops
begin

unbundle bit_operations_syntax

section \<open>The buddy allocator (\<^verbatim>\<open>src/kernel/mm/page_alloc.c\<close>)\<close>

text \<open>
  Free blocks of \<open>2 ^ k\<close> pages hang on \<open>free_lists ! k\<close>; a set bit of the bitmap says the
  page is allocated. The in-place linked lists are HOL lists of the physical addresses of the
  blocks, in link order; a kernel pointer into the direct map is the physical address it maps
  and NULL is \<open>None\<close>. Every section that holds \<^verbatim>\<open>buddy_lock\<close> is one step. An access outside the
  bitmap, the reference counts or the array of list heads is the result \<open>None\<close>.

  The reclaim hooks \<^verbatim>\<open>lazyfree_reclaim\<close>, \<^verbatim>\<open>out_of_memory\<close> and \<^verbatim>\<open>schedule\<close> walk page tables and
  run other threads: they are arguments of the model.
\<close>

definition PAGE_SHIFT :: nat where "PAGE_SHIFT = 12"
definition PAGE_SIZE :: nat where "PAGE_SIZE = 4096"
definition MAX_ORDER :: nat where "MAX_ORDER = 9"
definition DIRECT_MAP_MAX :: nat where "DIRECT_MAP_MAX = 2048 * 1024 * 1024 * 1024"
definition SMP_MAX_CORES :: int where "SMP_MAX_CORES = 1"

lemmas buddy_consts = PAGE_SHIFT_def PAGE_SIZE_def MAX_ORDER_def

record percpu =
  current_thread :: "nat option"
  core_id :: int
  in_preempt :: int

record buddy =
  free_lists :: "nat list list"
  buddy_bitmap :: "u64 list"
  max_pfn :: nat
  page_refcounts :: "u16 list"
  total_pages :: u64
  alloc_count :: u64
  oom_in_progress :: "int list"
  phys_mem :: mem

record reclaim_hooks =
  lazyfree_reclaim :: "int \<Rightarrow> buddy \<Rightarrow> int \<times> buddy"
  out_of_memory :: "buddy \<Rightarrow> int \<times> buddy"
  schedule :: "buddy \<Rightarrow> buddy"

definition pfn_of :: "nat \<Rightarrow> nat" where
  "pfn_of phys = drop_bit PAGE_SHIFT phys"

subsection \<open>The out-of-memory guard\<close>

definition oom_safe_context :: "buddy \<Rightarrow> percpu option \<Rightarrow> bool" where
  "oom_safe_context s cpu =
     (case cpu of None \<Rightarrow> False
      | Some c \<Rightarrow>
         if current_thread c = None then False
         else if in_preempt c \<noteq> 0 then False
         else if 0 \<le> core_id c \<and> core_id c < SMP_MAX_CORES \<and>
                 oom_in_progress s ! nat (core_id c) \<noteq> 0 then False
         else True)"

definition oom_mark :: "int \<Rightarrow> buddy \<Rightarrow> percpu option \<Rightarrow> buddy" where
  "oom_mark v s cpu =
     (case cpu of None \<Rightarrow> s
      | Some c \<Rightarrow>
         if 0 \<le> core_id c \<and> core_id c < SMP_MAX_CORES
         then s\<lparr>oom_in_progress := (oom_in_progress s)[nat (core_id c) := v]\<rparr>
         else s)"

definition oom_enter :: "buddy \<Rightarrow> percpu option \<Rightarrow> buddy" where
  "oom_enter = oom_mark 1"

definition oom_leave :: "buddy \<Rightarrow> percpu option \<Rightarrow> buddy" where
  "oom_leave = oom_mark 0"

definition try_oom_reclaim :: "reclaim_hooks \<Rightarrow> percpu option \<Rightarrow> buddy \<Rightarrow> bool \<times> buddy" where
  "try_oom_reclaim env cpu s =
     (if \<not> oom_safe_context s cpu then (False, s)
      else let s1 = oom_enter s cpu;
               (killed, s2) = out_of_memory env s1;
               s3 = oom_leave s2 cpu
           in if killed = 0 then (False, s3) else (True, schedule env s3))"

subsection \<open>Allocation and release of a block\<close>

fun buddy_split :: "nat list list \<Rightarrow> nat \<Rightarrow> nat \<Rightarrow> nat \<Rightarrow> nat list list" where
  "buddy_split fl phys order 0 = fl"
| "buddy_split fl phys order (Suc k) =
     (if order < Suc k
      then let buddy_phys = phys + push_bit (PAGE_SHIFT + k) 1
           in buddy_split (fl[k := buddy_phys # fl ! k]) phys order k
      else fl)"

fun buddy_alloc_from :: "buddy \<Rightarrow> nat \<Rightarrow> nat list \<Rightarrow> nat option \<times> buddy" where
  "buddy_alloc_from s order [] = (None, s)"
| "buddy_alloc_from s order (k # ks) =
     (case free_lists s ! k of
        [] \<Rightarrow> buddy_alloc_from s order ks
      | phys # rest \<Rightarrow>
          let fl = buddy_split ((free_lists s)[k := rest]) phys order k;
              pfn = pfn_of phys;
              npages = push_bit order 1
          in (Some phys,
              s\<lparr>free_lists := fl,
                buddy_bitmap := fold (\<lambda>i bm. bm_set bm i) [pfn..<pfn + npages] (buddy_bitmap s),
                alloc_count := alloc_count s + of_nat npages\<rparr>))"

definition buddy_alloc_order :: "buddy \<Rightarrow> nat \<Rightarrow> nat option \<times> buddy" where
  "buddy_alloc_order s order = buddy_alloc_from s order [order..<MAX_ORDER + 1]"

function buddy_merge ::
  "u64 list \<Rightarrow> nat \<Rightarrow> nat list list \<Rightarrow> nat \<Rightarrow> nat \<Rightarrow> nat list list \<times> nat \<times> nat" where
  "buddy_merge bm maxp fl phys order =
     (if order < MAX_ORDER then
        let buddy_phys = phys XOR push_bit (PAGE_SHIFT + order) 1;
            buddy_pfn = pfn_of buddy_phys;
            buddy_npages = push_bit order 1
        in if maxp < buddy_pfn + buddy_npages then (fl, phys, order)
           else if list_ex (bm_test bm) [buddy_pfn..<buddy_pfn + buddy_npages] then (fl, phys, order)
           else if buddy_phys \<notin> set (fl ! order) then (fl, phys, order)
           else buddy_merge bm maxp (fl[order := remove1 buddy_phys (fl ! order)])
                  (if buddy_phys < phys then buddy_phys else phys) (Suc order)
      else (fl, phys, order))"
  by pat_completeness auto
termination
  by (relation "measure (\<lambda>(bm, maxp, fl, phys, order). MAX_ORDER - order)") auto

declare buddy_merge.simps [simp del]

definition buddy_free_order :: "buddy \<Rightarrow> nat \<Rightarrow> nat \<Rightarrow> buddy option" where
  "buddy_free_order s phys order =
     (let pfn = pfn_of phys; npages = push_bit order 1 in
      if \<not> bm_valid (buddy_bitmap s) pfn then None
      else if \<not> bm_test (buddy_bitmap s) pfn then Some s
      else if \<not> bm_valid (buddy_bitmap s) (pfn + npages - 1) \<or> MAX_ORDER < order then None
      else
        let bm = fold (\<lambda>i bm. bm_clear bm i) [pfn..<pfn + npages] (buddy_bitmap s);
            (fl, phys', order') = buddy_merge bm (max_pfn s) (free_lists s) phys order
        in Some (s\<lparr>buddy_bitmap := bm,
                   alloc_count := alloc_count s - of_nat npages,
                   free_lists := fl[order' := phys' # fl ! order']\<rparr>))"

subsection \<open>Boot: registering the firmware's memory map\<close>

text \<open>\<^verbatim>\<open>x & ~(PAGE_SIZE - 1)\<close> on a 64-bit value.\<close>

definition page_down :: "nat \<Rightarrow> nat" where
  "page_down x = x - x mod PAGE_SIZE"

function region_order :: "nat \<Rightarrow> nat \<Rightarrow> nat \<Rightarrow> nat" where
  "region_order addr phys_end order =
     (if order < MAX_ORDER \<and> addr mod 2 ^ (PAGE_SHIFT + order + 1) = 0 \<and>
         addr + 2 ^ (PAGE_SHIFT + order + 1) \<le> phys_end
      then region_order addr phys_end (Suc order) else order)"
  by pat_completeness auto
termination
  by (relation "measure (\<lambda>(addr, phys_end, order). MAX_ORDER - order)") auto

declare region_order.simps [simp del]

function add_region_loop :: "buddy \<Rightarrow> nat \<Rightarrow> nat \<Rightarrow> buddy" where
  "add_region_loop s addr phys_end =
     (if addr < phys_end then
        let order = region_order addr phys_end 0; npages = 2 ^ order
        in add_region_loop
             (s\<lparr>free_lists := (free_lists s)[order := addr # free_lists s ! order],
                total_pages := total_pages s + of_nat npages\<rparr>)
             (addr + push_bit PAGE_SHIFT npages) phys_end
      else s)"
  by pat_completeness auto
termination
  by (relation "measure (\<lambda>(s, addr, phys_end). phys_end - addr)") (auto simp: push_bit_eq_mult intro!: diff_less_mono2)

declare add_region_loop.simps [simp del]

definition add_region :: "buddy \<Rightarrow> nat \<Rightarrow> nat \<Rightarrow> buddy" where
  "add_region s phys_start phys_end =
     (let start = page_down ((phys_start + PAGE_SIZE - 1) mod 2 ^ 64);
          end' = page_down phys_end
      in if end' \<le> start then s else add_region_loop s start end')"

record efi_desc =
  d_type :: nat
  d_phys :: nat
  d_pages :: nat

text \<open>An entry of the map: the type at offset 0, the start at 8, the page count at 24. Only the
  low four bytes of the first word are the type.\<close>

definition efi_desc_at :: "mem \<Rightarrow> nat \<Rightarrow> nat \<Rightarrow> nat \<Rightarrow> efi_desc" where
  "efi_desc_at m mmap desc_size i =
     \<lparr>d_type = unat (load64 m (mmap + i * desc_size)) mod 2 ^ 32,
      d_phys = unat (load64 m (mmap + i * desc_size + 8)),
      d_pages = unat (load64 m (mmap + i * desc_size + 24))\<rparr>"

definition usable_type :: "efi_desc \<Rightarrow> bool" where
  "usable_type d \<longleftrightarrow> d_type d = 7 \<or> d_type d = 3 \<or> d_type d = 4"

definition desc_end :: "efi_desc \<Rightarrow> nat" where
  "desc_end d =
     (let e = (d_phys d + d_pages d * PAGE_SIZE) mod 2 ^ 64
      in if DIRECT_MAP_MAX < e then DIRECT_MAP_MAX else e)"

definition uefi_max_pfn :: "efi_desc list \<Rightarrow> nat" where
  "uefi_max_pfn ds =
     fold (\<lambda>d m. if usable_type d then let pfn = pfn_of (desc_end d) in if m < pfn then pfn else m
                 else m) ds 0"

definition metadata_fits :: "nat \<Rightarrow> efi_desc \<Rightarrow> bool" where
  "metadata_fits metadata_bytes d \<longleftrightarrow>
     usable_type d \<and> \<not> d_phys d < 0x100000 \<and> \<not> desc_end d \<le> d_phys d \<and>
     metadata_bytes \<le> desc_end d - d_phys d"

definition clear_range :: "nat \<Rightarrow> nat \<Rightarrow> buddy \<Rightarrow> buddy" where
  "clear_range p q s = s\<lparr>buddy_bitmap := fold (\<lambda>i bm. bm_clear bm i) [p..<q] (buddy_bitmap s)\<rparr>"

definition add_desc :: "nat \<Rightarrow> nat \<Rightarrow> efi_desc \<Rightarrow> buddy \<Rightarrow> buddy" where
  "add_desc bitmap_phys bitmap_pages d s =
     (let phys = d_phys d; end' = desc_end d; bm_end = bitmap_phys + bitmap_pages * PAGE_SIZE in
      if \<not> usable_type d then s
      else if phys < 0x100000 then s
      else if end' \<le> phys then s
      else
        let (phys', s1) =
              (if bitmap_phys \<le> phys \<and> phys < bm_end then (bm_end, s)
               else if phys < bitmap_phys \<and> bitmap_phys < end' then
                 (bm_end, add_region (clear_range (pfn_of phys) (pfn_of bitmap_phys) s) phys bitmap_phys)
               else (phys, s))
        in if end' \<le> phys' then s1
           else add_region (clear_range (pfn_of phys') (pfn_of end') s1) phys' end')"

definition metadata_bytes_for :: "nat \<Rightarrow> nat" where
  "metadata_bytes_for maxp = (maxp + 63) div 64 * 8 + maxp * 2"

definition page_alloc_add_uefi_regions :: "efi_desc list \<Rightarrow> buddy \<Rightarrow> bool \<times> buddy" where
  "page_alloc_add_uefi_regions ds s =
     (let maxp = uefi_max_pfn ds; s0 = s\<lparr>max_pfn := maxp\<rparr> in
      if maxp = 0 then (False, s0)
      else
        let qwords = (maxp + 63) div 64;
            metadata_bytes = metadata_bytes_for maxp;
            bitmap_pages = pfn_of (metadata_bytes + PAGE_SIZE - 1)
        in case find (metadata_fits metadata_bytes) ds of
             None \<Rightarrow> (False, s0\<lparr>buddy_bitmap := []\<rparr>)
           | Some d0 \<Rightarrow>
               (True, fold (add_desc (d_phys d0) bitmap_pages) ds
                 (s0\<lparr>buddy_bitmap := replicate qwords (- 1),
                     page_refcounts := replicate maxp 0,
                     free_lists := replicate (MAX_ORDER + 1) [],
                     total_pages := 0, alloc_count := 0\<rparr>)))"

subsection \<open>Requests in pages\<close>

function order_loop :: "nat \<Rightarrow> nat \<Rightarrow> nat" where
  "order_loop n order = (if 2 ^ order < n then order_loop n (Suc order) else order)"
  by pat_completeness auto
termination
proof (relation "measure (\<lambda>(n, order). n - order)")
  fix n order :: nat
  assume "2 ^ order < n"
  then have "order < n" using less_exp [of order] by linarith
  then show "((n, Suc order), n, order) \<in> measure (\<lambda>(n, order). n - order)" by simp
qed simp

declare order_loop.simps [simp del]

definition order_for_pages :: "int \<Rightarrow> nat" where
  "order_for_pages n = order_loop (nat n) 0"

definition alloc_retry ::
  "reclaim_hooks \<Rightarrow> percpu option \<Rightarrow> nat \<Rightarrow> int \<Rightarrow> buddy \<Rightarrow> nat option \<times> buddy" where
  "alloc_retry env cpu order count s =
     (let (p1, s1) = buddy_alloc_order s order;
          (p2, s2) =
            (if p1 = None then
               let (reclaimed, s') = lazyfree_reclaim env count s1
               in if 0 < reclaimed then buddy_alloc_order s' order else (None, s')
             else (p1, s1))
      in if p2 = None then
           let (retry, s3) = try_oom_reclaim env cpu s2
           in if retry then buddy_alloc_order s3 order else (None, s3)
         else (p2, s2))"

definition set_refcounts :: "u16 \<Rightarrow> nat \<Rightarrow> nat \<Rightarrow> buddy \<Rightarrow> buddy" where
  "set_refcounts v pfn n s =
     s\<lparr>page_refcounts :=
         fold (\<lambda>i r. r[i := v]) (takeWhile (\<lambda>i. i < max_pfn s) [pfn..<pfn + n]) (page_refcounts s)\<rparr>"

definition page_alloc :: "reclaim_hooks \<Rightarrow> percpu option \<Rightarrow> buddy \<Rightarrow> nat option \<times> buddy" where
  "page_alloc env cpu s =
     (case alloc_retry env cpu 0 16 s of
        (None, s') \<Rightarrow> (None, s')
      | (Some p, s') \<Rightarrow>
          let s1 = s'\<lparr>phys_mem := page_zero (phys_mem s') p\<rparr>;
              pfn = pfn_of p
          in (Some p, if pfn < max_pfn s1
                      then s1\<lparr>page_refcounts := (page_refcounts s1)[pfn := 1]\<rparr> else s1))"

definition page_free_count :: "buddy \<Rightarrow> u64" where
  "page_free_count s =
     (if alloc_count s < total_pages s then total_pages s - alloc_count s else 0)"

definition page_total_count :: "buddy \<Rightarrow> u64" where
  "page_total_count s = total_pages s"

definition page_free :: "buddy \<Rightarrow> nat option \<Rightarrow> buddy option" where
  "page_free s page =
     (case page of None \<Rightarrow> Some s
      | Some phys \<Rightarrow>
         let pfn = pfn_of phys in
         if max_pfn s \<le> pfn then Some s
         else let old = page_refcounts s ! pfn in
              if 1 < old then Some (s\<lparr>page_refcounts := (page_refcounts s)[pfn := old - 1]\<rparr>)
              else buddy_free_order (s\<lparr>page_refcounts := (page_refcounts s)[pfn := 0]\<rparr>) phys 0)"

definition pages_alloc :: "reclaim_hooks \<Rightarrow> percpu option \<Rightarrow> int \<Rightarrow> buddy \<Rightarrow> nat option \<times> buddy" where
  "pages_alloc env cpu n s =
     (if n \<le> 0 then (None, s)
      else let order = order_for_pages n in
        if MAX_ORDER < order then (None, s)
        else case alloc_retry env cpu order (2 ^ order) s of
               (None, s') \<Rightarrow> (None, s')
             | (Some p, s') \<Rightarrow>
                 (Some p, set_refcounts 1 (pfn_of p) (2 ^ order)
                            (s'\<lparr>phys_mem := pages_zero (phys_mem s') p (2 ^ order)\<rparr>)))"

definition pages_free :: "buddy \<Rightarrow> nat option \<Rightarrow> int \<Rightarrow> buddy option" where
  "pages_free s base n =
     (case base of None \<Rightarrow> Some s
      | Some phys \<Rightarrow>
         if n \<le> 0 then Some s
         else let order = order_for_pages n
              in buddy_free_order (set_refcounts 0 (pfn_of phys) (2 ^ order) s) phys order)"

definition huge_page_alloc :: "reclaim_hooks \<Rightarrow> percpu option \<Rightarrow> buddy \<Rightarrow> nat option \<times> buddy" where
  "huge_page_alloc env cpu s =
     (case alloc_retry env cpu 9 512 s of
        (None, s') \<Rightarrow> (None, s')
      | (Some p, s') \<Rightarrow>
          (Some p, set_refcounts 1 (pfn_of p) 512
                     (s'\<lparr>phys_mem := pages_zero (phys_mem s') p 512\<rparr>)))"

definition decref_range :: "nat \<Rightarrow> nat \<Rightarrow> buddy \<Rightarrow> buddy" where
  "decref_range pfn n s =
     s\<lparr>page_refcounts :=
         fold (\<lambda>i r. r[i := r ! i - 1]) (takeWhile (\<lambda>i. i < max_pfn s) [pfn..<pfn + n])
           (page_refcounts s)\<rparr>"

definition huge_page_free :: "buddy \<Rightarrow> nat option \<Rightarrow> buddy option" where
  "huge_page_free s page =
     (case page of None \<Rightarrow> Some s
      | Some phys \<Rightarrow>
         let pfn = pfn_of phys in
         if length (page_refcounts s) \<le> pfn then None
         else if 1 < page_refcounts s ! pfn then Some (decref_range pfn 512 s)
         else buddy_free_order (set_refcounts 0 pfn 512 s) phys 9)"

definition page_alloc_total :: "buddy \<Rightarrow> int" where
  "page_alloc_total s = sint (ucast (total_pages s) :: u32)"

definition page_alloc_free :: "buddy \<Rightarrow> int" where
  "page_alloc_free s = sint (ucast (total_pages s - alloc_count s) :: u32)"

definition page_alloc_max_pfn :: "buddy \<Rightarrow> nat" where
  "page_alloc_max_pfn s = max_pfn s"

subsection \<open>Reference counts\<close>

definition page_incref :: "buddy \<Rightarrow> nat \<Rightarrow> buddy" where
  "page_incref s phys =
     (let pfn = pfn_of phys in
      if max_pfn s \<le> pfn then s
      else s\<lparr>page_refcounts := (page_refcounts s)[pfn := page_refcounts s ! pfn + 1]\<rparr>)"

definition page_decref :: "buddy \<Rightarrow> nat \<Rightarrow> int \<times> buddy" where
  "page_decref s phys =
     (let pfn = pfn_of phys in
      if max_pfn s \<le> pfn then (0, s)
      else let old = page_refcounts s ! pfn
           in (uint old - 1, s\<lparr>page_refcounts := (page_refcounts s)[pfn := old - 1]\<rparr>))"

definition page_refcount :: "buddy \<Rightarrow> nat \<Rightarrow> int" where
  "page_refcount s phys =
     (let pfn = pfn_of phys in
      if max_pfn s \<le> pfn then 0 else uint (page_refcounts s ! pfn))"

end
