(* ===== verification/Buddy_Inv.thy ===== *)
theory Buddy_Inv
  imports Buddy
begin

unbundle bit_operations_syntax

section \<open>Correctness of the buddy allocator\<close>

text \<open>
  The invariant counts, for every page frame, the free blocks that contain it: one if the
  bitmap says the page is free, none otherwise. Disjointness of the blocks, the absence of
  duplicates and the agreement of lists and bitmap are this one equation. Allocation and release
  are then set operations on the free pages.
\<close>

definition blk_pages :: "nat \<Rightarrow> nat \<Rightarrow> nat set" where
  "blk_pages k a = {pfn_of a..<pfn_of a + 2 ^ k}"

definition cover :: "nat list list \<Rightarrow> nat \<Rightarrow> nat" where
  "cover fl p = (\<Sum>k<10. length (filter (\<lambda>a. p \<in> blk_pages k a) (fl ! k)))"

definition free_total :: "nat list list \<Rightarrow> nat" where
  "free_total fl = (\<Sum>k<10. 2 ^ k * length (fl ! k))"

definition blocks_ok :: "nat \<Rightarrow> nat list list \<Rightarrow> bool" where
  "blocks_ok maxp fl \<longleftrightarrow>
     (\<forall>k<10. \<forall>a\<in>set (fl ! k). 2 ^ (12 + k) dvd a \<and> pfn_of a + 2 ^ k \<le> maxp)"

definition free_pages :: "buddy \<Rightarrow> nat set" where
  "free_pages s = {p. p < max_pfn s \<and> \<not> bm_test (buddy_bitmap s) p}"

definition buddy_inv :: "buddy \<Rightarrow> bool" where
  "buddy_inv s \<longleftrightarrow>
     length (free_lists s) = 10 \<and>
     max_pfn s \<le> 64 * length (buddy_bitmap s) \<and>
     length (page_refcounts s) = max_pfn s \<and>
     max_pfn s < 2 ^ 52 \<and>
     blocks_ok (max_pfn s) (free_lists s) \<and>
     (\<forall>p. cover (free_lists s) p = of_bool (p \<in> free_pages s)) \<and>
     total_pages s = alloc_count s + of_nat (free_total (free_lists s))"

subsection \<open>Counting covers\<close>

lemma sum_update_list:
  fixes f :: "nat \<Rightarrow> 'a list \<Rightarrow> nat"
  assumes "k < n" and "n = length fl"
  shows "(\<Sum>j<n. f j (fl[k := xs] ! j)) + f k (fl ! k) = (\<Sum>j<n. f j (fl ! j)) + f k xs"
proof -
  have "(\<Sum>j<n. f j (fl[k := xs] ! j)) = f k xs + (\<Sum>j\<in>{..<n} - {k}. f j (fl ! j))"
    using assms by (subst sum.remove [of _ k]) auto
  moreover have "(\<Sum>j<n. f j (fl ! j)) = f k (fl ! k) + (\<Sum>j\<in>{..<n} - {k}. f j (fl ! j))"
    using assms by (subst sum.remove [of _ k]) auto
  ultimately show ?thesis by simp
qed

lemma cover_update:
  assumes "k < 10" and "length fl = 10"
  shows "cover (fl[k := xs]) p + length (filter (\<lambda>a. p \<in> blk_pages k a) (fl ! k)) =
         cover fl p + length (filter (\<lambda>a. p \<in> blk_pages k a) xs)"
  unfolding cover_def
  by (rule sum_update_list [where f = "\<lambda>j xs. length (filter (\<lambda>a. p \<in> blk_pages j a) xs)"])
     (use assms in simp_all)

lemma free_total_update:
  assumes "k < 10" and "length fl = 10"
  shows "free_total (fl[k := xs]) + 2 ^ k * length (fl ! k) = free_total fl + 2 ^ k * length xs"
  unfolding free_total_def
  by (rule sum_update_list [where f = "\<lambda>j xs. 2 ^ j * length xs"]) (use assms in simp_all)

lemma cover_push:
  assumes "k < 10" and "length fl = 10"
  shows "cover (fl[k := a # fl ! k]) p = cover fl p + of_bool (p \<in> blk_pages k a)"
  using cover_update [OF assms, of "a # fl ! k" p] by (simp split: if_splits)

lemma cover_pop:
  assumes "k < 10" and "length fl = 10" and "fl ! k = a # rest"
  shows "cover fl p = cover (fl[k := rest]) p + of_bool (p \<in> blk_pages k a)"
  using cover_update [OF assms(1,2), of rest p] assms(3) by (simp split: if_splits)

lemma length_filter_remove1:
  "a \<in> set xs \<Longrightarrow> length (filter P xs) = length (filter P (remove1 a xs)) + of_bool (P a)"
  by (induction xs) auto

lemma cover_remove1:
  assumes "k < 10" and "length fl = 10" and "a \<in> set (fl ! k)"
  shows "cover fl p = cover (fl[k := remove1 a (fl ! k)]) p + of_bool (p \<in> blk_pages k a)"
  using cover_update [OF assms(1,2), of "remove1 a (fl ! k)" p]
    length_filter_remove1 [OF assms(3), of "\<lambda>a. p \<in> blk_pages k a"] by simp

lemma free_total_push:
  assumes "k < 10" and "length fl = 10"
  shows "free_total (fl[k := a # fl ! k]) = free_total fl + 2 ^ k"
  using free_total_update [OF assms, of "a # fl ! k"] by simp

lemma free_total_pop:
  assumes "k < 10" and "length fl = 10" and "fl ! k = a # rest"
  shows "free_total fl = free_total (fl[k := rest]) + 2 ^ k"
  using free_total_update [OF assms(1,2), of rest] assms(3) by simp

lemma free_total_remove1:
  assumes "k < 10" and "length fl = 10" and "a \<in> set (fl ! k)"
  shows "free_total fl = free_total (fl[k := remove1 a (fl ! k)]) + 2 ^ k"
proof -
  have "length (fl ! k) = Suc (length (remove1 a (fl ! k)))"
    using assms(3) by (simp add: length_remove1) (metis Suc_pred length_pos_if_in_set)
  then show ?thesis using free_total_update [OF assms(1,2), of "remove1 a (fl ! k)"] by simp
qed

lemma blocks_ok_push:
  assumes "blocks_ok m fl" and "k < 10" and "length fl = 10"
    and "2 ^ (12 + k) dvd a" and "pfn_of a + 2 ^ k \<le> m"
  shows "blocks_ok m (fl[k := a # fl ! k])"
  using assms by (auto simp: blocks_ok_def nth_list_update)

lemma blocks_ok_subset:
  assumes "blocks_ok m fl" and "length fl = 10" and "k < 10" and "set xs \<subseteq> set (fl ! k)"
  shows "blocks_ok m (fl[k := xs])"
  using assms by (auto simp: blocks_ok_def nth_list_update subset_iff)

subsection \<open>Alignment\<close>

lemma pfn_of_div: "pfn_of a = a div 4096"
  by (simp add: pfn_of_def PAGE_SHIFT_def drop_bit_eq_div)

lemma page_shift_power: "(2::nat) ^ (12 + k) = 4096 * 2 ^ k"
  by (simp add: power_add)

lemma pfn_of_add_block: "4096 dvd a \<Longrightarrow> pfn_of (a + 2 ^ (12 + k)) = pfn_of a + 2 ^ k"
  unfolding pfn_of_div page_shift_power by (auto simp flip: distrib_left elim!: dvdE)

lemma blk_pages_split:
  assumes "4096 dvd a"
  shows "of_bool (p \<in> blk_pages (Suc k) a) =
         (of_bool (p \<in> blk_pages k a) + of_bool (p \<in> blk_pages k (a + 2 ^ (12 + k))) :: nat)"
  unfolding blk_pages_def pfn_of_add_block [OF assms] by auto

lemma dvd_page: "2 ^ (12 + k) dvd (a::nat) \<Longrightarrow> 4096 dvd a"
  unfolding page_shift_power by (rule dvd_mult_left)

lemma aligned_mono: "2 ^ (12 + k) dvd (a::nat) \<Longrightarrow> j \<le> k \<Longrightarrow> 2 ^ (12 + j) dvd a"
  by (meson add_left_mono dvd_trans le_imp_power_dvd)

lemma buddy_address:
  fixes a :: nat
  assumes "2 ^ (12 + k) dvd a"
  defines "b \<equiv> a XOR push_bit (PAGE_SHIFT + k) 1"
  shows "2 ^ (12 + k) dvd b" and "2 ^ (12 + Suc k) dvd min a b"
    and "max a b = min a b + 2 ^ (12 + k)"
proof -
  let ?q = "2 ^ (12 + k) :: nat"
  obtain c where c: "a = ?q * c" using assms(1) by (auto elim: dvdE)
  have "bit a (12 + k) \<longleftrightarrow> odd c"
    by (simp add: c bit_iff_odd)
  then have b: "b = (if odd c then a - ?q else a + ?q)"
    by (simp add: b_def PAGE_SHIFT_def push_bit_eq_mult nat_xor_power_of_two)
  have double: "(2::nat) ^ (12 + Suc k) = ?q * 2" by (simp add: power_add)
  show "?q dvd b" using c b by (auto simp: dvd_diff_nat)
  show "2 ^ (12 + Suc k) dvd min a b"
  proof (cases "odd c")
    case True
    then obtain e where "c = 2 * e + 1" by (elim oddE)
    then have "min a b = ?q * 2 * e" using b c True by (simp add: algebra_simps)
    then show ?thesis unfolding double by simp
  next
    case False
    then obtain e where "c = 2 * e" by (auto elim: evenE)
    then have "min a b = ?q * 2 * e" using b c False by (simp add: algebra_simps)
    then show ?thesis unfolding double by simp
  qed
  have "odd c \<Longrightarrow> ?q \<le> a" using c by (cases c) auto
  then show "max a b = min a b + ?q" using b by auto
qed

subsection \<open>Splitting\<close>

lemma buddy_split_ok:
  assumes "order \<le> k" and "k < 10" and "length fl = 10" and "blocks_ok m fl"
    and "2 ^ (12 + k) dvd phys" and "pfn_of phys + 2 ^ k \<le> m"
  shows "length (buddy_split fl phys order k) = 10
    \<and> blocks_ok m (buddy_split fl phys order k)
    \<and> cover (buddy_split fl phys order k) p + of_bool (p \<in> blk_pages order phys) =
        cover fl p + of_bool (p \<in> blk_pages k phys)
    \<and> free_total (buddy_split fl phys order k) + 2 ^ order = free_total fl + 2 ^ k"
  using assms
proof (induction fl phys order k rule: buddy_split.induct)
  case (2 fl phys order k)
  show ?case
  proof (cases "order < Suc k")
    case True
    define b where "b = phys + 2 ^ (12 + k)"
    define fl' where "fl' = fl[k := b # fl ! k]"
    have eq: "buddy_split fl phys order (Suc k) = buddy_split fl' phys order k"
      using True by (simp add: fl'_def b_def PAGE_SHIFT_def push_bit_eq_mult)
    have al: "2 ^ (12 + k) dvd phys" and pg: "4096 dvd phys"
      using "2.prems"(5) by (auto intro: aligned_mono [of "Suc k"] dvd_page [of "Suc k"])
    have alb: "2 ^ (12 + k) dvd b" using al by (simp add: b_def)
    have bb: "pfn_of b + 2 ^ k \<le> m" "pfn_of phys + 2 ^ k \<le> m"
      using "2.prems"(6) by (simp_all add: b_def pfn_of_add_block [OF pg])
    have fl': "length fl' = 10" "blocks_ok m fl'"
      using "2.prems"(2-4) alb bb by (auto simp: fl'_def intro: blocks_ok_push)
    have c: "cover fl' p = cover fl p + of_bool (p \<in> blk_pages k b)"
      "free_total fl' = free_total fl + 2 ^ k"
      using "2.prems"(2,3) by (simp_all add: fl'_def cover_push free_total_push)
    have IH: "length (buddy_split fl' phys order k) = 10
      \<and> blocks_ok m (buddy_split fl' phys order k)
      \<and> cover (buddy_split fl' phys order k) p + of_bool (p \<in> blk_pages order phys) =
          cover fl' p + of_bool (p \<in> blk_pages k phys)
      \<and> free_total (buddy_split fl' phys order k) + 2 ^ order = free_total fl' + 2 ^ k"
      using "2.IH" [OF True refl] True "2.prems"(2) fl' al bb
      by (simp add: fl'_def b_def PAGE_SHIFT_def push_bit_eq_mult)
    show ?thesis
      unfolding eq using IH c blk_pages_split [OF pg, of p k] by (simp add: b_def)
  next
    case False
    with "2.prems" have "order = Suc k" by simp
    with "2.prems" show ?thesis by simp
  qed
qed simp

subsection \<open>Allocation\<close>

lemma buddy_invD:
  assumes "buddy_inv s"
  shows "length (free_lists s) = 10" "max_pfn s \<le> 64 * length (buddy_bitmap s)"
    "length (page_refcounts s) = max_pfn s" "max_pfn s < 2 ^ 52"
    "blocks_ok (max_pfn s) (free_lists s)"
    "cover (free_lists s) p = of_bool (p \<in> free_pages s)"
    "total_pages s = alloc_count s + of_nat (free_total (free_lists s))"
  using assms by (auto simp: buddy_inv_def)

lemma bm_valid_below: "buddy_inv s \<Longrightarrow> p < max_pfn s \<Longrightarrow> bm_valid (buddy_bitmap s) p"
  using buddy_invD(2) [of s] by (auto simp: bm_valid_def)

lemma test_set_range:
  assumes "buddy_inv s" and "q \<le> max_pfn s"
  shows "bm_test (fold (\<lambda>i bm. bm_set bm i) [p..<q] (buddy_bitmap s)) j \<longleftrightarrow>
           (p \<le> j \<and> j < q) \<or> bm_test (buddy_bitmap s) j"
  using assms by (subst bm.test_fold_set) (auto intro: bm_valid_below)

lemma test_clear_range:
  assumes "buddy_inv s" and "q \<le> max_pfn s"
  shows "bm_test (fold (\<lambda>i bm. bm_clear bm i) [p..<q] (buddy_bitmap s)) j \<longleftrightarrow>
           \<not> (p \<le> j \<and> j < q) \<and> bm_test (buddy_bitmap s) j"
  using assms by (subst bm.test_fold_clear) (auto intro: bm_valid_below)

definition same_frame :: "buddy \<Rightarrow> buddy \<Rightarrow> bool" where
  "same_frame s s' \<longleftrightarrow>
     max_pfn s' = max_pfn s \<and> page_refcounts s' = page_refcounts s \<and>
     total_pages s' = total_pages s \<and> oom_in_progress s' = oom_in_progress s \<and>
     phys_mem s' = phys_mem s"

lemma buddy_alloc_from_ok:
  assumes "buddy_inv s" and "\<forall>k\<in>set ks. order \<le> k \<and> k < 10"
    and "buddy_alloc_from s order ks = (Some a, s')"
  shows "buddy_inv s' \<and> same_frame s s' \<and> 2 ^ (12 + order) dvd a
    \<and> pfn_of a + 2 ^ order \<le> max_pfn s
    \<and> blk_pages order a \<subseteq> free_pages s
    \<and> free_pages s' = free_pages s - blk_pages order a
    \<and> alloc_count s' = alloc_count s + 2 ^ order"
  using assms
proof (induction s order ks rule: buddy_alloc_from.induct)
  case (2 s order k ks)
  show ?case
  proof (cases "free_lists s ! k")
    case Nil
    with 2 show ?thesis by simp
  next
    case (Cons phys rest)
    note inv = buddy_invD [OF "2.prems"(1)]
    have k: "order \<le> k" "k < 10" using "2.prems"(2) by auto
    have al: "2 ^ (12 + k) dvd phys" and bd: "pfn_of phys + 2 ^ k \<le> max_pfn s"
      using inv(5) k Cons by (auto simp: blocks_ok_def)
    define fl0 where "fl0 = (free_lists s)[k := rest]"
    define fl where "fl = buddy_split fl0 phys order k"
    define bm where "bm = fold (\<lambda>i bm. bm_set bm i) [pfn_of phys..<pfn_of phys + 2 ^ order]
      (buddy_bitmap s)"
    have a: "a = phys" and s': "s' = s\<lparr>free_lists := fl, buddy_bitmap := bm,
        alloc_count := alloc_count s + of_nat (2 ^ order)\<rparr>"
      using "2.prems"(3) Cons by (auto simp: fl_def fl0_def bm_def push_bit_eq_mult Let_def)
    have le: "(2::nat) ^ order \<le> 2 ^ k" using k by simp
    have fl0: "length fl0 = 10" "blocks_ok (max_pfn s) fl0"
      using inv(1,5) k Cons by (auto simp: fl0_def intro!: blocks_ok_subset)
    note sp = buddy_split_ok [OF k fl0 al bd, folded fl_def]
    have c0: "cover (free_lists s) p = cover fl0 p + of_bool (p \<in> blk_pages k phys)" for p
      unfolding fl0_def by (rule cover_pop [OF k(2) inv(1) Cons])
    have t0: "free_total (free_lists s) = free_total fl0 + 2 ^ k"
      unfolding fl0_def by (rule free_total_pop [OF k(2) inv(1) Cons])
    have c: "of_bool (p \<in> free_pages s) = cover fl p + of_bool (p \<in> blk_pages order phys)" for p
      using sp [of p] c0 [of p] inv(6) [of p] by simp
    have sub: "blk_pages order phys \<subseteq> free_pages s"
    proof
      fix p assume "p \<in> blk_pages order phys"
      then show "p \<in> free_pages s" using c [of p] by (cases "p \<in> free_pages s") simp_all
    qed
    have bt: "bm_test bm p \<longleftrightarrow> p \<in> blk_pages order phys \<or> bm_test (buddy_bitmap s) p" for p
      using test_set_range [OF "2.prems"(1), of "pfn_of phys + 2 ^ order"] bd le
      by (auto simp: bm_def blk_pages_def)
    have fp: "free_pages s' = free_pages s - blk_pages order phys"
      by (auto simp: s' free_pages_def bt)
    have cov: "cover fl p = of_bool (p \<in> free_pages s')" for p
      using c [of p] sub by (auto simp: fp of_bool_def split: if_splits)
    have tot: "free_total fl + 2 ^ order = free_total (free_lists s)"
      using sp [of 0] t0 by simp
    have "total_pages s = alloc_count s + of_nat (2 ^ order) + of_nat (free_total fl)"
      using inv(7) by (simp flip: tot)
    then have "buddy_inv s'"
      using inv(2-4) sp cov by (auto simp: buddy_inv_def s' bm_def)
    moreover have "2 ^ (12 + order) dvd phys" using al k(1) by (rule aligned_mono)
    moreover have "pfn_of phys + 2 ^ order \<le> max_pfn s" using bd le by linarith
    ultimately show ?thesis using sub fp by (simp add: a s' same_frame_def)
  qed
qed simp

lemma buddy_alloc_from_None:
  "buddy_alloc_from s order ks = (None, s') \<Longrightarrow> s' = s \<and> (\<forall>k\<in>set ks. free_lists s ! k = [])"
  by (induction s order ks rule: buddy_alloc_from.induct)
     (auto simp: Let_def split: list.splits)

lemma buddy_alloc_order_ok:
  assumes "buddy_inv s" and "buddy_alloc_order s order = (Some a, s')"
  shows "buddy_inv s'" "same_frame s s'" "2 ^ (12 + order) dvd a" "pfn_of a + 2 ^ order \<le> max_pfn s"
    "blk_pages order a \<subseteq> free_pages s" "free_pages s' = free_pages s - blk_pages order a"
    "alloc_count s' = alloc_count s + 2 ^ order"
  using buddy_alloc_from_ok [OF assms(1) _ assms(2) [unfolded buddy_alloc_order_def]]
  by (auto simp: MAX_ORDER_def)

lemma buddy_alloc_order_None:
  assumes "buddy_alloc_order s order = (None, s')"
  shows "s' = s" and "order \<le> k \<Longrightarrow> k \<le> MAX_ORDER \<Longrightarrow> free_lists s ! k = []"
  using buddy_alloc_from_None [OF assms [unfolded buddy_alloc_order_def]] by auto

lemma buddy_alloc_order_inv:
  assumes "buddy_inv s" and "buddy_alloc_order s order = (p, s')"
  shows "buddy_inv s'"
  using assms buddy_alloc_order_ok(1) buddy_alloc_order_None(1) by (cases p) blast+

subsection \<open>Release\<close>

lemma buddy_merge_ok:
  assumes "buddy_merge bm m fl phys order = (fl', phys', order')"
    and "order \<le> 9" and "length fl = 10" and "blocks_ok m fl"
    and "2 ^ (12 + order) dvd phys" and "pfn_of phys + 2 ^ order \<le> m"
  shows "order' \<le> 9 \<and> length fl' = 10 \<and> blocks_ok m fl' \<and> 2 ^ (12 + order') dvd phys'
    \<and> pfn_of phys' + 2 ^ order' \<le> m
    \<and> cover fl' p + of_bool (p \<in> blk_pages order' phys') =
        cover fl p + of_bool (p \<in> blk_pages order phys)
    \<and> free_total fl' + 2 ^ order' = free_total fl + 2 ^ order"
  using assms
proof (induction bm m fl phys order rule: buddy_merge.induct)
  case (1 bm m fl phys order)
  define b where "b = phys XOR push_bit (PAGE_SHIFT + order) 1"
  define fl1 where "fl1 = fl[order := remove1 b (fl ! order)]"
  define q where "q = (if b < phys then b else phys)"
  let ?go = "order < MAX_ORDER \<and> \<not> m < pfn_of b + push_bit order 1 \<and>
    \<not> list_ex (bm_test bm) [pfn_of b..<pfn_of b + push_bit order 1] \<and> b \<in> set (fl ! order)"
  show ?case
  proof (cases ?go)
    case False
    then have "(fl', phys', order') = (fl, phys, order)"
      using "1.prems"(1) by (subst (asm) buddy_merge.simps) (auto simp: b_def Let_def split: if_splits)
    with "1.prems" show ?thesis by simp
  next
    case True
    have lt: "order < 10" using True by (simp add: MAX_ORDER_def)
    have step: "buddy_merge bm m fl1 q (Suc order) = (fl', phys', order')"
      using "1.prems"(1) True
      by (subst (asm) buddy_merge.simps) (simp add: b_def fl1_def q_def Let_def split: if_splits)
    note ad = buddy_address [OF "1.prems"(5), folded b_def]
    have q: "q = min phys b" by (simp add: q_def min_def)
    have pg: "4096 dvd q" using ad(2) dvd_page q by metis
    have bin: "b \<in> set (fl ! order)" using True by simp
    have bb: "pfn_of b + 2 ^ order \<le> m" using "1.prems"(4) lt bin by (auto simp: blocks_ok_def)
    have hi: "max phys b = q + 2 ^ (12 + order)" using ad(3) q by simp
    have bound: "pfn_of q + 2 ^ Suc order \<le> m"
    proof -
      have "pfn_of (max phys b) + 2 ^ order \<le> m"
        using bb "1.prems"(6) by (auto simp: max_def)
      then show ?thesis unfolding hi pfn_of_add_block [OF pg] by simp
    qed
    have fl1: "length fl1 = 10" "blocks_ok m fl1"
      using "1.prems"(3,4) lt
      by (auto simp: fl1_def intro!: blocks_ok_subset dest: set_remove1_subset [THEN subsetD])
    have c1: "cover fl p = cover fl1 p + of_bool (p \<in> blk_pages order b)"
      unfolding fl1_def by (rule cover_remove1 [OF lt "1.prems"(3) bin])
    have t1: "free_total fl = free_total fl1 + 2 ^ order"
      unfolding fl1_def by (rule free_total_remove1 [OF lt "1.prems"(3) bin])
    have "of_bool (p \<in> blk_pages (Suc order) q) =
        (of_bool (p \<in> blk_pages order phys) + of_bool (p \<in> blk_pages order b) :: nat)"
      using blk_pages_split [OF pg, of p order] hi q by (auto simp: min_def max_def split: if_splits)
    moreover have "order' \<le> 9 \<and> length fl' = 10 \<and> blocks_ok m fl' \<and> 2 ^ (12 + order') dvd phys'
      \<and> pfn_of phys' + 2 ^ order' \<le> m
      \<and> cover fl' p + of_bool (p \<in> blk_pages order' phys') =
          cover fl1 p + of_bool (p \<in> blk_pages (Suc order) q)
      \<and> free_total fl' + 2 ^ order' = free_total fl1 + 2 ^ Suc order"
      using "1.IH" [OF _ b_def refl refl, folded fl1_def q_def] True step fl1 ad(2) q bound
      by (simp add: MAX_ORDER_def)
    ultimately show ?thesis using c1 t1 by simp
  qed
qed

lemma buddy_free_order_ok:
  assumes inv: "buddy_inv s" and "order \<le> 9" and "2 ^ (12 + order) dvd a"
    and bd: "pfn_of a + 2 ^ order \<le> max_pfn s" and alloc: "blk_pages order a \<inter> free_pages s = {}"
  obtains s' where "buddy_free_order s a order = Some s'" "buddy_inv s'" "same_frame s s'"
    "free_pages s' = free_pages s \<union> blk_pages order a"
    "alloc_count s' = alloc_count s - 2 ^ order"
proof -
  note I = buddy_invD [OF inv]
  define bm where "bm = fold (\<lambda>i bm. bm_clear bm i) [pfn_of a..<pfn_of a + 2 ^ order] (buddy_bitmap s)"
  obtain fl phys' order' where mg: "buddy_merge bm (max_pfn s) (free_lists s) a order = (fl, phys', order')"
    by (cases "buddy_merge bm (max_pfn s) (free_lists s) a order") auto
  define s' where "s' = s\<lparr>buddy_bitmap := bm, alloc_count := alloc_count s - 2 ^ order,
    free_lists := fl[order' := phys' # fl ! order']\<rparr>"
  have pos: "(0::nat) < 2 ^ order" by simp
  have in0: "pfn_of a \<in> blk_pages order a" by (simp add: blk_pages_def)
  have v: "bm_valid (buddy_bitmap s) (pfn_of a)" "bm_valid (buddy_bitmap s) (pfn_of a + 2 ^ order - 1)"
    by (rule bm_valid_below [OF inv]; use bd pos in linarith)+
  have "pfn_of a < max_pfn s" using bd pos by linarith
  then have t: "bm_test (buddy_bitmap s) (pfn_of a)"
    using alloc in0 by (auto simp: free_pages_def)
  have eq: "buddy_free_order s a order = Some s'"
    using v t assms(2) mg
    by (simp add: buddy_free_order_def Let_def push_bit_eq_mult MAX_ORDER_def bm_def s'_def)
  note M = buddy_merge_ok [OF mg assms(2) I(1) I(5) assms(3) bd]
  have bt: "bm_test bm p \<longleftrightarrow> p \<notin> blk_pages order a \<and> bm_test (buddy_bitmap s) p" for p
    using test_clear_range [OF inv bd] by (auto simp: bm_def blk_pages_def)
  have fp: "free_pages s' = free_pages s \<union> blk_pages order a"
    using bd by (auto simp: free_pages_def s'_def bt blk_pages_def)
  have o10: "order' < 10" and len: "length fl = 10" using M [of 0] by auto
  have cov: "cover (free_lists s') p = of_bool (p \<in> free_pages s')" for p
  proof -
    have "cover (free_lists s') p = cover (free_lists s) p + of_bool (p \<in> blk_pages order a)"
      using M [of p] cover_push [OF o10 len, of phys' p] by (simp add: s'_def)
    also have "\<dots> = of_bool (p \<in> free_pages s')"
      using I(6) [of p] alloc by (auto simp: fp)
    finally show ?thesis .
  qed
  have "blocks_ok (max_pfn s) (free_lists s')"
    using M [of 0] blocks_ok_push [OF _ o10 len] by (simp add: s'_def)
  moreover have "free_total (free_lists s') = free_total (free_lists s) + 2 ^ order"
    using M [of 0] free_total_push [OF o10 len, of phys'] by (simp add: s'_def)
  ultimately have "buddy_inv s'"
    using I(1-4,7) cov len by (simp add: buddy_inv_def s'_def bm_def)
  with eq fp show thesis by (intro that) (auto simp: s'_def same_frame_def)
qed

lemma buddy_free_order_double:
  assumes "buddy_inv s" and "pfn_of a \<in> free_pages s"
  shows "buddy_free_order s a order = Some s"
  using assms by (simp add: buddy_free_order_def Let_def free_pages_def bm_valid_below)

text \<open>The number of free pages is the number of clear bits.\<close>

lemma sum_block_pages:
  "pfn_of a + 2 ^ k \<le> m \<Longrightarrow> (\<Sum>p<m. of_bool (p \<in> blk_pages k a)) = (2 ^ k :: nat)"
proof -
  assume "pfn_of a + 2 ^ k \<le> m"
  then have "{..<m} \<inter> {p. p \<in> blk_pages k a} = blk_pages k a"
    by (auto simp: blk_pages_def)
  then show ?thesis by (simp add: sum_of_bool_eq blk_pages_def)
qed

lemma sum_cover_list:
  "\<forall>a\<in>set xs. pfn_of a + 2 ^ k \<le> m \<Longrightarrow>
     (\<Sum>p<m. length (filter (\<lambda>a. p \<in> blk_pages k a) xs)) = 2 ^ k * length xs"
proof (induction xs)
  case (Cons a xs)
  have "(\<Sum>p<m. length (filter (\<lambda>a. p \<in> blk_pages k a) (a # xs))) =
      (\<Sum>p<m. of_bool (p \<in> blk_pages k a) + length (filter (\<lambda>a. p \<in> blk_pages k a) xs))"
    by (rule sum.cong) auto
  then show ?case using Cons sum_block_pages [of a k m] by (simp add: sum.distrib)
qed simp

lemma free_total_card:
  assumes "buddy_inv s"
  shows "free_total (free_lists s) = card (free_pages s)"
proof -
  note I = buddy_invD [OF assms]
  let ?m = "max_pfn s"
  have "free_total (free_lists s) =
      (\<Sum>k<10. \<Sum>p<?m. length (filter (\<lambda>a. p \<in> blk_pages k a) (free_lists s ! k)))"
    unfolding free_total_def
    by (rule sum.cong [OF refl], rule sum_cover_list [symmetric]) (use I(5) in \<open>auto simp: blocks_ok_def\<close>)
  also have "\<dots> = (\<Sum>p<?m. cover (free_lists s) p)"
    unfolding cover_def by (rule sum.swap)
  also have "\<dots> = (\<Sum>p<?m. of_bool (p \<in> free_pages s))"
    by (simp add: I(6))
  also have "\<dots> = card ({..<?m} \<inter> {p. p \<in> free_pages s})"
    by (simp add: sum_of_bool_eq)
  also have "{..<?m} \<inter> {p. p \<in> free_pages s} = free_pages s"
    by (auto simp: free_pages_def)
  finally show ?thesis .
qed

end
