(* ===== verification/Buddy_Boot.thy ===== *)
theory Buddy_Boot
  imports Buddy_Inv
begin

unbundle bit_operations_syntax

section \<open>Booting the buddy allocator\<close>

text \<open>
  Registering a memory map of page-aligned, pairwise disjoint regions establishes the allocator's
  invariant, and the free pages are the usable pages above 1 MB that do not hold the allocator's
  own bitmap and reference counts.
\<close>

lemma page_down_word: "page_down (unat (w :: u64)) = unat (w AND NOT 0xFFF)"
proof -
  have m: "(0xFFF :: u64) = mask 12" by (simp add: mask_eq_exp_minus_1)
  have "w AND NOT 0xFFF = w AND NOT (take_bit 12 w)"
    unfolding m by (rule bit_eqI) (auto simp: bit_simps)
  also have "\<dots> = w - take_bit 12 w"
    by (rule disjunctive_diff_eq_and_not [symmetric], rule bit_eqI) (auto simp: bit_simps)
  finally have "unat (w AND NOT 0xFFF) = unat w - unat (take_bit 12 w)"
    by (simp only: unat_sub [OF word_le_nat_alt [THEN iffD2]] unsigned_take_bit_eq
        take_bit_nat_less_eq_self)
  then show ?thesis
    by (simp add: page_down_def PAGE_SIZE_def take_bit_eq_mod unat_mod_distrib)
qed

lemma region_order_ok:
  assumes "2 ^ (12 + order) dvd addr" and "addr + 2 ^ (12 + order) \<le> e" and "order \<le> 9"
  shows "2 ^ (12 + region_order addr e order) dvd addr
    \<and> addr + 2 ^ (12 + region_order addr e order) \<le> e \<and> region_order addr e order \<le> 9"
  using assms
proof (induction addr e order rule: region_order.induct)
  case (1 addr e order)
  show ?case
  proof (cases "order < MAX_ORDER \<and> addr mod 2 ^ (PAGE_SHIFT + order + 1) = 0 \<and>
         addr + 2 ^ (PAGE_SHIFT + order + 1) \<le> e")
    case True
    then have "region_order addr e order = region_order addr e (Suc order)"
      by (subst region_order.simps) simp
    moreover have "2 ^ (12 + Suc order) dvd addr" "addr + 2 ^ (12 + Suc order) \<le> e" "Suc order \<le> 9"
      using True by (auto simp: PAGE_SHIFT_def MAX_ORDER_def dvd_eq_mod_eq_0)
    ultimately show ?thesis using "1.IH" [OF True] by simp
  next
    case False
    then have "region_order addr e order = order" by (subst region_order.simps) auto
    with "1.prems" show ?thesis by simp
  qed
qed

lemma add_region_loop_frame: "\<exists>fl t. add_region_loop s addr e = s\<lparr>free_lists := fl, total_pages := t\<rparr>"
proof (induction s addr e rule: add_region_loop.induct)
  case (1 s addr e)
  show ?case
  proof (cases "addr < e")
    case True
    then show ?thesis
      using 1 [OF True refl refl] by (subst add_region_loop.simps) (auto simp: Let_def)
  next
    case False
    then have "add_region_loop s addr e = s\<lparr>free_lists := free_lists s, total_pages := total_pages s\<rparr>"
      by (simp add: add_region_loop.simps)
    then show ?thesis by blast
  qed
qed

definition adds_pages :: "nat \<Rightarrow> nat \<Rightarrow> nat \<Rightarrow> buddy \<Rightarrow> buddy \<Rightarrow> bool" where
  "adds_pages m p q s s' \<longleftrightarrow>
     length (free_lists s') = 10 \<and> blocks_ok m (free_lists s')
    \<and> (\<forall>x. cover (free_lists s') x = cover (free_lists s) x + of_bool (p \<le> x \<and> x < q))
    \<and> free_total (free_lists s') = free_total (free_lists s) + (q - p)
    \<and> total_pages s' = total_pages s + of_nat (q - p)"

lemma adds_pages_trans:
  "adds_pages m p q s s1 \<Longrightarrow> adds_pages m q r s1 s2 \<Longrightarrow> p \<le> q \<Longrightarrow> q \<le> r \<Longrightarrow> adds_pages m p r s s2"
  by (auto simp: adds_pages_def of_nat_diff)

lemma adds_pages_push:
  assumes "length (free_lists s) = 10" "blocks_ok m (free_lists s)" "k \<le> 9"
    "2 ^ (12 + k) dvd a" "pfn_of a + 2 ^ k \<le> m"
  shows "adds_pages m (pfn_of a) (pfn_of a + 2 ^ k) s
    (s\<lparr>free_lists := (free_lists s)[k := a # free_lists s ! k], total_pages := total_pages s + 2 ^ k\<rparr>)"
  using assms
  by (auto simp: adds_pages_def cover_push free_total_push blk_pages_def intro!: blocks_ok_push)

lemma add_region_loop_ok:
  assumes "length (free_lists s) = 10" and "blocks_ok m (free_lists s)"
    and "4096 dvd addr" and "4096 dvd e" and "addr \<le> e" and "pfn_of e \<le> m"
  shows "adds_pages m (pfn_of addr) (pfn_of e) s (add_region_loop s addr e)"
  using assms
proof (induction s addr e rule: add_region_loop.induct)
  case (1 s addr e)
  show ?case
  proof (cases "addr < e")
    case False
    with "1.prems" have "addr = e" by simp
    then show ?thesis using "1.prems" by (simp add: add_region_loop.simps adds_pages_def)
  next
    case True
    define k where "k = region_order addr e 0"
    define s1 where "s1 = s\<lparr>free_lists := (free_lists s)[k := addr # free_lists s ! k],
      total_pages := total_pages s + of_nat (2 ^ k)\<rparr>"
    define a1 where "a1 = addr + push_bit PAGE_SHIFT (2 ^ k)"
    have a1: "a1 = addr + 2 ^ (12 + k)"
      by (simp add: a1_def push_bit_eq_mult PAGE_SHIFT_def page_shift_power mult.commute)
    have "addr + 4096 \<le> e"
      using True "1.prems"(3,4) by (auto elim!: dvdE)
    then have k: "2 ^ (12 + k) dvd addr" "a1 \<le> e" "k \<le> 9"
      using region_order_ok [of 0 addr e] "1.prems"(3) by (simp_all add: k_def a1)
    have eq: "add_region_loop s addr e = add_region_loop s1 a1 e"
      using True by (subst add_region_loop.simps) (simp add: k_def s1_def a1_def Let_def)
    have pa: "pfn_of a1 = pfn_of addr + 2 ^ k"
      unfolding a1 by (rule pfn_of_add_block) (rule "1.prems"(3))
    have pe: "pfn_of a1 \<le> pfn_of e" using k(2) by (simp add: pfn_of_div div_le_mono)
    have al: "4096 dvd a1" using "1.prems"(3) by (simp add: a1 page_shift_power)
    have st: "adds_pages m (pfn_of addr) (pfn_of a1) s s1"
      unfolding pa using adds_pages_push [OF "1.prems"(1,2) k(3,1)] pa pe "1.prems"(6)
      by (simp add: s1_def)
    have "adds_pages m (pfn_of a1) (pfn_of e) s1 (add_region_loop s1 a1 e)"
      using "1.IH" [OF True k_def refl, folded s1_def a1_def] st al "1.prems"(4,6) k(2)
      by (simp add: adds_pages_def)
    then show ?thesis unfolding eq using adds_pages_trans [OF st] pa pe by simp
  qed
qed

lemma page_down_aligned:
  assumes "4096 dvd a" shows "page_down a = a" and "page_down (a + PAGE_SIZE - 1) = a"
proof -
  obtain c where c: "a = 4096 * c" using assms by (auto elim: dvdE)
  show "page_down a = a" by (simp add: page_down_def PAGE_SIZE_def c)
  have "a + PAGE_SIZE - 1 = 4095 + 4096 * c" by (simp add: c PAGE_SIZE_def)
  then show "page_down (a + PAGE_SIZE - 1) = a"
    by (simp add: page_down_def PAGE_SIZE_def c)
qed

lemma add_region_free:
  assumes inv: "buddy_inv s" and al: "4096 dvd a" "4096 dvd b" and ab: "a < b" "b \<le> DIRECT_MAP_MAX"
    and bd: "pfn_of b \<le> max_pfn s" and dj: "{pfn_of a..<pfn_of b} \<inter> free_pages s = {}"
  defines "s' \<equiv> add_region (clear_range (pfn_of a) (pfn_of b) s) a b"
  shows "buddy_inv s'" and "free_pages s' = free_pages s \<union> {pfn_of a..<pfn_of b}"
    and "max_pfn s' = max_pfn s" and "alloc_count s' = alloc_count s"
proof -
  note I = buddy_invD [OF inv]
  define s0 where "s0 = clear_range (pfn_of a) (pfn_of b) s"
  have nw: "(a + PAGE_SIZE - 1) mod 2 ^ 64 = a + PAGE_SIZE - 1"
    using ab by (simp add: DIRECT_MAP_MAX_def PAGE_SIZE_def)
  have s': "s' = add_region_loop s0 a b"
    using ab unfolding s'_def add_region_def Let_def nw page_down_aligned [OF al(1)]
      page_down_aligned [OF al(2)] by (simp add: s0_def)
  have A: "adds_pages (max_pfn s) (pfn_of a) (pfn_of b) s0 s'"
    unfolding s' by (rule add_region_loop_ok) (use I al ab bd in \<open>auto simp: s0_def clear_range_def\<close>)
  have F: "max_pfn s' = max_pfn s" "buddy_bitmap s' = buddy_bitmap s0" "alloc_count s' = alloc_count s"
    "page_refcounts s' = page_refcounts s"
    using add_region_loop_frame [of s0 a b] by (auto simp: s' s0_def clear_range_def)
  have bt: "bm_test (buddy_bitmap s0) p \<longleftrightarrow> \<not> (pfn_of a \<le> p \<and> p < pfn_of b) \<and> bm_test (buddy_bitmap s) p"
    for p using test_clear_range [OF inv bd] by (simp add: s0_def clear_range_def)
  show fp: "free_pages s' = free_pages s \<union> {pfn_of a..<pfn_of b}"
    using bd by (auto simp: free_pages_def bt F)
  have "cover (free_lists s') p = of_bool (p \<in> free_pages s')" for p
    using A I(6) [of p] dj by (auto simp: adds_pages_def fp s0_def clear_range_def)
  then show "buddy_inv s'"
    using A I(2-4,7) by (auto simp: buddy_inv_def F adds_pages_def s0_def clear_range_def)
  show "max_pfn s' = max_pfn s" and "alloc_count s' = alloc_count s" by (rule F)+
qed

subsection \<open>The whole map\<close>

definition map_ok :: "efi_desc list \<Rightarrow> bool" where
  "map_ok ds \<longleftrightarrow>
     (\<forall>d\<in>set ds. usable_type d \<longrightarrow>
        4096 dvd d_phys d \<and> d_phys d + d_pages d * PAGE_SIZE < 2 ^ 64)"

definition desc_pages :: "efi_desc \<Rightarrow> nat set" where
  "desc_pages d =
     (if usable_type d \<and> 0x100000 \<le> d_phys d then {pfn_of (d_phys d)..<pfn_of (desc_end d)} else {})"

lemma desc_end_aligned: "map_ok ds \<Longrightarrow> d \<in> set ds \<Longrightarrow> usable_type d \<Longrightarrow> 4096 dvd desc_end d"
  by (auto simp: map_ok_def desc_end_def Let_def DIRECT_MAP_MAX_def PAGE_SIZE_def)

lemma desc_end_le: "desc_end d \<le> DIRECT_MAP_MAX"
  by (auto simp: desc_end_def Let_def)

lemma uefi_max_pfn_fold:
  "uefi_max_pfn ds = fold (\<lambda>d m. max m (if usable_type d then pfn_of (desc_end d) else 0)) ds 0"
  unfolding uefi_max_pfn_def by (rule arg_cong [where f = "\<lambda>f. fold f ds 0"]) (auto simp: fun_eq_iff Let_def)

lemma uefi_max_pfn_ge: "d \<in> set ds \<Longrightarrow> usable_type d \<Longrightarrow> pfn_of (desc_end d) \<le> uefi_max_pfn ds"
  using fold_max_ge [of d ds "\<lambda>d. if usable_type d then pfn_of (desc_end d) else 0" 0]
  by (simp add: uefi_max_pfn_fold)

lemma uefi_max_pfn_bound: "uefi_max_pfn ds \<le> 2 ^ 29"
proof -
  have e: "pfn_of (desc_end d) \<le> 2 ^ 29" for d
    using div_le_mono [OF desc_end_le [of d], of 4096] by (simp add: pfn_of_div DIRECT_MAP_MAX_def)
  show ?thesis unfolding uefi_max_pfn_fold by (rule fold_max_le) (use e in auto)
qed

lemma add_desc_ok:
  fixes n bp :: nat
  assumes inv: "buddy_inv s" and mo: "map_ok ds" and d: "d \<in> set ds" and mp: "max_pfn s = uefi_max_pfn ds"
    and bp: "4096 dvd bp" and dj: "desc_pages d \<inter> free_pages s = {}"
  defines "meta \<equiv> {pfn_of bp..<pfn_of bp + n}" and "s' \<equiv> add_desc bp n d s"
  shows "buddy_inv s' \<and> free_pages s' = free_pages s \<union> (desc_pages d - meta)
    \<and> max_pfn s' = max_pfn s \<and> alloc_count s' = alloc_count s"
proof (cases "usable_type d \<and> 0x100000 \<le> d_phys d \<and> d_phys d < desc_end d")
  case False
  then have "desc_pages d = {}"
    by (auto simp: desc_pages_def pfn_of_div intro!: div_le_mono)
  with False inv show ?thesis by (auto simp: s'_def add_desc_def Let_def)
next
  case True
  define a where "a = d_phys d"
  define e where "e = desc_end d"
  define be where "be = bp + n * PAGE_SIZE"
  have al: "4096 dvd a" "4096 dvd e" "4096 dvd be" and e: "e \<le> DIRECT_MAP_MAX" "pfn_of e \<le> max_pfn s"
    using True mo d desc_end_aligned [OF mo d] desc_end_le uefi_max_pfn_ge [OF d] bp
    by (auto simp: map_ok_def a_def e_def be_def mp PAGE_SIZE_def)
  have dp: "desc_pages d = {pfn_of a..<pfn_of e}" using True by (simp add: desc_pages_def a_def e_def)
  have pbe: "pfn_of be = pfn_of bp + n" by (simp add: be_def PAGE_SIZE_def pfn_of_div)
  have mono: "x \<le> y \<Longrightarrow> pfn_of x \<le> pfn_of y" for x y by (simp add: pfn_of_div div_le_mono)
  show ?thesis
  proof (cases "a < bp \<and> bp < e")
    case split: True
    define s1 where "s1 = add_region (clear_range (pfn_of a) (pfn_of bp) s) a bp"
    have 1: "buddy_inv s1" "free_pages s1 = free_pages s \<union> {pfn_of a..<pfn_of bp}"
      "max_pfn s1 = max_pfn s" "alloc_count s1 = alloc_count s"
      unfolding s1_def
      by (rule add_region_free [OF inv al(1) bp];
          use split e dj mono [of bp e] in \<open>fastforce simp: dp\<close>)+
    have s': "s' = (if e \<le> be then s1 else add_region (clear_range (pfn_of be) (pfn_of e) s1) be e)"
      using True split by (auto simp: s'_def add_desc_def Let_def a_def e_def be_def s1_def)
    show ?thesis
    proof (cases "e \<le> be")
      case True
      then have "{pfn_of a..<pfn_of e} - meta = {pfn_of a..<pfn_of bp}"
        using mono [of e be] mono [of bp e] split by (auto simp: meta_def pbe)
      with 1 True show ?thesis by (simp add: s' dp)
    next
      case False
      have "{pfn_of a..<pfn_of e} - meta = {pfn_of a..<pfn_of bp} \<union> {pfn_of be..<pfn_of e}"
        using mono [of be e] mono [of a bp] mono [of bp e] split False pbe by (auto simp: meta_def)
      moreover have "{pfn_of be..<pfn_of e} \<inter> free_pages s1 = {}"
        using dj mono [of a bp] split pbe by (fastforce simp: 1 dp disjoint_iff)
      ultimately show ?thesis
        using add_region_free [OF 1(1) al(3,2)] False e 1 by (simp add: s' dp Un_assoc)
    qed
  next
    case nosplit: False
    define b where "b = (if bp \<le> a \<and> a < be then be else a)"
    have s': "s' = (if e \<le> b then s else add_region (clear_range (pfn_of b) (pfn_of e) s) b e)"
      using True nosplit by (auto simp: s'_def add_desc_def Let_def a_def e_def be_def b_def)
    have alb: "4096 dvd b" using al by (simp add: b_def)
    have pg: "x < y \<longleftrightarrow> pfn_of x < pfn_of y" if "4096 dvd x" "4096 dvd y" for x y
      using that by (auto simp: pfn_of_div elim!: dvdE)
    have eq: "{pfn_of a..<pfn_of e} - meta = {pfn_of b..<pfn_of e}"
      using nosplit pg [OF al(1) bp] pg [OF bp al(2)] pg [OF al(1) al(3)] pbe
      by (auto simp: meta_def b_def not_less)
    show ?thesis
    proof (cases "e \<le> b")
      case True
      then show ?thesis using inv eq mono [OF True] by (auto simp: s' dp)
    next
      case False
      have "{pfn_of b..<pfn_of e} \<inter> free_pages s = {}" using dj eq dp by auto
      then show ?thesis
        using add_region_free [OF inv alb al(2)] False e by (simp add: s' dp eq)
    qed
  qed
qed

lemma fold_add_desc_ok:
  assumes "buddy_inv s" and "map_ok ds" and "set es \<subseteq> set ds" and "max_pfn s = uefi_max_pfn ds"
    and "4096 dvd bp" and "sorted_wrt (\<lambda>d e. desc_pages d \<inter> desc_pages e = {}) es"
    and "\<forall>d\<in>set es. desc_pages d \<inter> free_pages s = {}"
  shows "buddy_inv (fold (add_desc bp n) es s)
    \<and> free_pages (fold (add_desc bp n) es s) =
        free_pages s \<union> ((\<Union>d\<in>set es. desc_pages d) - {pfn_of bp..<pfn_of bp + n})
    \<and> max_pfn (fold (add_desc bp n) es s) = max_pfn s
    \<and> alloc_count (fold (add_desc bp n) es s) = alloc_count s"
  using assms
proof (induction es arbitrary: s)
  case (Cons d es)
  note st = add_desc_ok [OF Cons.prems(1,2) _ Cons.prems(4,5), of d n]
  have *: "buddy_inv (add_desc bp n d s)"
    "free_pages (add_desc bp n d s) = free_pages s \<union> (desc_pages d - {pfn_of bp..<pfn_of bp + n})"
    "max_pfn (add_desc bp n d s) = max_pfn s" "alloc_count (add_desc bp n d s) = alloc_count s"
    using st Cons.prems by auto
  have "\<forall>e\<in>set es. desc_pages e \<inter> free_pages (add_desc bp n d s) = {}"
    using Cons.prems(6,7) * by fastforce
  then show ?case using Cons.IH [of "add_desc bp n d s"] Cons.prems * by auto
qed simp

lemma buddy_inv_empty:
  assumes "m \<le> 2 ^ 29" and "max_pfn s = m" and "buddy_bitmap s = replicate ((m + 63) div 64) (- 1)"
    and "page_refcounts s = replicate m 0" and "free_lists s = replicate 10 []"
    and "total_pages s = 0" and "alloc_count s = 0"
  shows "buddy_inv s" and "free_pages s = {}"
proof -
  have q: "p < m \<Longrightarrow> p div 64 < (m + 63) div 64" for p by simp
  have "bm_test (buddy_bitmap s) p" if "p < m" for p
    using q [OF that] by (simp add: bm_test_bit assms)
  then show fp: "free_pages s = {}" by (auto simp: free_pages_def assms)
  have z: "k < 10 \<Longrightarrow> free_lists s ! k = []" for k by (simp add: assms)
  then have "cover (free_lists s) p = 0" "free_total (free_lists s) = 0" for p
    by (simp_all add: cover_def free_total_def)
  then show "buddy_inv s"
    using assms z by (auto simp: buddy_inv_def fp blocks_ok_def)
qed

end
