(* ===== verification/Buddy_Api.thy ===== *)
theory Buddy_Api
  imports Buddy_Inv
begin

unbundle bit_operations_syntax

section \<open>The page allocator's interface\<close>

text \<open>
  What the rest of the kernel relies on: page frames it holds are never handed out a second time,
  keep their contents while other frames are allocated, and a fresh block is zeroed with every
  reference count one. The reclaim hooks may free memory of user processes but respect the frames
  \<open>K\<close> that the kernel component holds; the contract is the locale \<open>page_source\<close>.
\<close>

definition held :: "nat set \<Rightarrow> buddy \<Rightarrow> bool" where
  "held K s \<longleftrightarrow> buddy_inv s \<and> K \<inter> free_pages s = {} \<and> (\<forall>p\<in>K. p < max_pfn s)"

definition keeps :: "nat set \<Rightarrow> buddy \<Rightarrow> buddy \<Rightarrow> bool" where
  "keeps K s s' \<longleftrightarrow>
     held K s \<longrightarrow> held K s' \<and> max_pfn s' = max_pfn s \<and>
                  (\<forall>x. pfn_of x \<in> K \<longrightarrow> phys_mem s' x = phys_mem s x)"

definition hooks_respect :: "reclaim_hooks \<Rightarrow> nat set \<Rightarrow> bool" where
  "hooks_respect env K \<longleftrightarrow>
     (\<forall>c s. keeps K s (snd (lazyfree_reclaim env c s))) \<and>
     (\<forall>s. keeps K s (snd (out_of_memory env s))) \<and>
     (\<forall>s. keeps K s (schedule env s))"

lemma keeps_refl [simp]: "keeps K s s"
  by (simp add: keeps_def)

lemma keeps_trans: "keeps K s t \<Longrightarrow> keeps K t u \<Longrightarrow> keeps K s u"
  by (auto simp: keeps_def)

lemma keeps_held: "keeps K s t \<Longrightarrow> held K s \<Longrightarrow> held K t"
  by (simp add: keeps_def)

lemma buddy_inv_oom_mark [simp]: "buddy_inv (oom_mark v s cpu) = buddy_inv s"
  by (auto simp: oom_mark_def buddy_inv_def free_pages_def split: option.splits)

lemma keeps_oom_mark [simp]: "keeps K s (oom_mark v s cpu)"
proof -
  have "free_pages (oom_mark v s cpu) = free_pages s" "max_pfn (oom_mark v s cpu) = max_pfn s"
    "phys_mem (oom_mark v s cpu) = phys_mem s"
    by (auto simp: oom_mark_def free_pages_def split: option.splits)
  then show ?thesis by (simp add: keeps_def held_def)
qed

lemma keeps_oom:
  assumes "hooks_respect env K" and "try_oom_reclaim env cpu s = (r, s')"
  shows "keeps K s s'"
proof (cases "oom_safe_context s cpu")
  case True
  obtain k s2 where k: "out_of_memory env (oom_enter s cpu) = (k, s2)" by fastforce
  have 2: "keeps K s s2"
    using assms(1) k unfolding hooks_respect_def
    by (metis keeps_oom_mark keeps_trans oom_enter_def snd_conv)
  have "keeps K s (oom_leave s2 cpu)"
    using 2 by (auto simp: oom_leave_def intro: keeps_trans)
  moreover from this have "keeps K s (schedule env (oom_leave s2 cpu))"
    using assms(1) by (auto simp: hooks_respect_def intro: keeps_trans)
  ultimately show ?thesis
    using assms(2) True k by (auto simp: try_oom_reclaim_def Let_def split: if_splits)
qed (use assms in \<open>auto simp: try_oom_reclaim_def\<close>)

lemma alloc_order_keeps:
  assumes "buddy_alloc_order s order = (p, s')"
  shows "keeps K s s'"
proof (cases p)
  case (Some a)
  then show ?thesis
    using buddy_alloc_order_ok [of s order a s'] assms by (auto simp: keeps_def held_def same_frame_def)
qed (use buddy_alloc_order_None(1) assms in fastforce)

text \<open>A block handed out to the caller of an allocation: aligned, inside memory, disjoint from
  what is held, and no longer free.\<close>

definition new_block :: "nat set \<Rightarrow> nat \<Rightarrow> nat \<Rightarrow> buddy \<Rightarrow> bool" where
  "new_block K order a s' \<longleftrightarrow>
     2 ^ (12 + order) dvd a \<and> blk_pages order a \<inter> K = {} \<and> held (K \<union> blk_pages order a) s'"

lemma alloc_order_new:
  assumes "held K s" and "buddy_alloc_order s order = (Some a, s')"
  shows "new_block K order a s'"
  using buddy_alloc_order_ok [of s order a s'] assms
  by (auto simp: new_block_def held_def same_frame_def blk_pages_def)

lemma alloc_retry_ok:
  assumes "hooks_respect env K" and "held K s" and "alloc_retry env cpu order count s = (p, s')"
  shows "keeps K s s'" and "p = Some a \<Longrightarrow> new_block K order a s'"
proof -
  obtain p1 s1 where 1: "buddy_alloc_order s order = (p1, s1)" by fastforce
  define r2 where "r2 = (if p1 = None then
               let (reclaimed, s') = lazyfree_reclaim env count s1
               in if 0 < reclaimed then buddy_alloc_order s' order else (None, s')
             else (p1, s1))"
  obtain p2 s2 where 2: "r2 = (p2, s2)" by fastforce
  have k1: "keeps K s s1" using 1 by (rule alloc_order_keeps)
  have k2: "keeps K s s2 \<and> (p2 = Some a \<longrightarrow> new_block K order a s2)"
  proof (cases p1)
    case None
    obtain c t where c: "lazyfree_reclaim env count s1 = (c, t)" by fastforce
    have kt: "keeps K s t"
      using assms(1) c k1 unfolding hooks_respect_def by (metis keeps_trans snd_conv)
    show ?thesis
      using 2 None c kt alloc_order_keeps [of t order p2 s2 K]
        alloc_order_new [OF keeps_held [OF kt assms(2)], of order a s2]
      by (auto simp: r2_def intro: keeps_trans split: if_splits)
  next
    case (Some b)
    then show ?thesis using 1 2 k1 alloc_order_new [OF assms(2), of order a s1] by (auto simp: r2_def)
  qed
  have eq: "(p, s') = (if p2 = None then
           let (retry, s3) = try_oom_reclaim env cpu s2
           in if retry then buddy_alloc_order s3 order else (None, s3)
         else (p2, s2))"
    using assms(3) 1 2 by (simp add: alloc_retry_def r2_def)
  obtain q t where q: "try_oom_reclaim env cpu s2 = (q, t)" by fastforce
  have kt: "keeps K s t" using keeps_trans keeps_oom [OF assms(1) q] k2 by blast
  show "keeps K s s'"
    using eq q kt k2 alloc_order_keeps [of t order p s' K]
    by (auto intro: keeps_trans split: if_splits)
  show "p = Some a \<Longrightarrow> new_block K order a s'"
    using eq q k2 alloc_order_new [OF keeps_held [OF kt assms(2)], of order a s']
    by (auto split: if_splits)
qed

subsection \<open>Initialising a fresh block\<close>

lemma takeWhile_upt: "takeWhile (\<lambda>i. i < m) [p..<q] = [p..<min q m]"
proof (cases "p \<le> m \<and> m \<le> q")
  case True
  then have "[p..<q] = [p..<m] @ [m..<q]" by (metis le_add_diff_inverse upt_add_eq_append)
  moreover have "takeWhile (\<lambda>i. i < m) [m..<q] = []" by (cases "m < q") (simp_all add: upt_conv_Cons)
  moreover have "takeWhile (\<lambda>i. i < m) ([p..<m] @ [m..<q]) = [p..<m] @ takeWhile (\<lambda>i. i < m) [m..<q]"
    by (rule takeWhile_append2) simp
  ultimately show ?thesis using True by (simp add: min_def)
next
  case False
  then consider "m < p" | "q < m" by linarith
  then show ?thesis
  proof cases
    case 1
    then show ?thesis by (cases "p < q") (simp_all add: upt_conv_Cons)
  next
    case 2
    then show ?thesis by (simp add: min_def takeWhile_eq_all_conv)
  qed
qed

lemma length_set_refcounts [simp]: "length (page_refcounts (set_refcounts v p n s)) = length (page_refcounts s)"
proof -
  have "length (fold (\<lambda>i r. r[i := v]) xs r) = length r" for xs r
    by (induction xs arbitrary: r) auto
  then show ?thesis by (simp add: set_refcounts_def)
qed

lemma fold_list_update_nth:
  "(\<forall>i\<in>set xs. i < length r) \<Longrightarrow>
     fold (\<lambda>i r. r[i := v]) xs r ! j = (if j \<in> set xs then v else r ! j)"
  by (induction xs arbitrary: r) (auto simp: nth_list_update)

lemma set_refcounts_nth:
  assumes "length (page_refcounts s) = max_pfn s"
  shows "page_refcounts (set_refcounts v p n s) ! j =
    (if p \<le> j \<and> j < p + n \<and> j < max_pfn s then v else page_refcounts s ! j)"
  using assms by (simp add: set_refcounts_def takeWhile_upt fold_list_update_nth)

lemma set_refcounts_frame [simp]:
  "free_lists (set_refcounts v p n s) = free_lists s"
  "buddy_bitmap (set_refcounts v p n s) = buddy_bitmap s"
  "max_pfn (set_refcounts v p n s) = max_pfn s"
  "total_pages (set_refcounts v p n s) = total_pages s"
  "alloc_count (set_refcounts v p n s) = alloc_count s"
  "phys_mem (set_refcounts v p n s) = phys_mem s"
  "free_pages (set_refcounts v p n s) = free_pages s"
  by (simp_all add: set_refcounts_def free_pages_def)

lemma buddy_inv_frame:
  assumes "buddy_inv s" and "free_lists t = free_lists s" "buddy_bitmap t = buddy_bitmap s"
    "max_pfn t = max_pfn s" "total_pages t = total_pages s" "alloc_count t = alloc_count s"
    "length (page_refcounts t) = length (page_refcounts s)"
  shows "buddy_inv t"
  using assms by (simp add: buddy_inv_def free_pages_def)

lemma free_pages_update [simp]:
  "free_pages (s\<lparr>phys_mem := m\<rparr>) = free_pages s" "free_pages (s\<lparr>page_refcounts := r\<rparr>) = free_pages s"
  by (simp_all add: free_pages_def)

lemma held_frame:
  assumes "held K s" and "free_lists t = free_lists s" "buddy_bitmap t = buddy_bitmap s"
    "max_pfn t = max_pfn s" "total_pages t = total_pages s" "alloc_count t = alloc_count s"
    "length (page_refcounts t) = length (page_refcounts s)"
  shows "held K t"
  using assms buddy_inv_frame [of s t] by (simp add: held_def free_pages_def)

text \<open>The three allocation entry points differ in the order and in how they write the reference
  counts; each finishes a raw block the same way.\<close>

definition fresh_block :: "nat set \<Rightarrow> nat \<Rightarrow> nat \<Rightarrow> buddy \<Rightarrow> bool" where
  "fresh_block K order a s' \<longleftrightarrow>
     new_block K order a s' \<and>
     (\<forall>x. pfn_of x \<in> blk_pages order a \<longrightarrow> phys_mem s' x = 0) \<and>
     (\<forall>p\<in>blk_pages order a. page_refcounts s' ! p = 1)"

lemma in_block_bytes:
  assumes "4096 dvd a"
  shows "pfn_of x \<in> blk_pages order a \<longleftrightarrow> a \<le> x \<and> x < a + 4096 * 2 ^ order"
proof -
  obtain c where c: "a = 4096 * c" using assms by (auto elim: dvdE)
  have "c \<le> x div 4096 \<longleftrightarrow> 4096 * c \<le> x"
    by (simp add: less_eq_div_iff_mult_less_eq mult.commute)
  moreover have "x div 4096 < c + 2 ^ order \<longleftrightarrow> x < 4096 * (c + 2 ^ order)"
    by (simp add: div_less_iff_less_mult mult.commute)
  ultimately show ?thesis
    by (simp add: blk_pages_def pfn_of_div c distrib_left)
qed

lemma finish_block:
  assumes "new_block K order a t" and "keeps K s t"
    and "phys_mem s' = fill (phys_mem t) a 0 (4096 * 2 ^ order)"
    and "free_lists s' = free_lists t" "buddy_bitmap s' = buddy_bitmap t" "max_pfn s' = max_pfn t"
      "total_pages s' = total_pages t" "alloc_count s' = alloc_count t"
      "length (page_refcounts s') = length (page_refcounts t)"
    and "\<forall>p\<in>blk_pages order a. page_refcounts s' ! p = 1"
  shows "keeps K s s' \<and> fresh_block K order a s'"
proof -
  have pg: "4096 dvd a" using assms(1) dvd_page by (auto simp: new_block_def)
  have dj: "blk_pages order a \<inter> K = {}" using assms(1) by (simp add: new_block_def)
  have h: "held L s'" if "held L t" for L
    using that by (rule held_frame) (use assms in auto)
  have m: "phys_mem s' x = (if pfn_of x \<in> blk_pages order a then 0 else phys_mem t x)" for x
    using in_block_bytes [OF pg, of x order] by (simp add: assms(3) fill_def)
  have "keeps K s s'"
    using assms(2,6) h dj m by (auto simp: keeps_def disjoint_iff)
  moreover have "fresh_block K order a s'"
    using assms(1,10) h m by (simp add: fresh_block_def new_block_def)
  ultimately show ?thesis ..
qed

lemma new_block_below: "new_block K order a t \<Longrightarrow> p \<in> blk_pages order a \<Longrightarrow> p < max_pfn t"
  by (auto simp: new_block_def held_def)

lemma new_block_refcounts: "new_block K order a t \<Longrightarrow> length (page_refcounts t) = max_pfn t"
  by (auto simp: new_block_def held_def dest: buddy_invD(3))

lemma set_refcounts_block:
  "new_block K order a t \<Longrightarrow> p \<in> blk_pages order a \<Longrightarrow>
     page_refcounts (set_refcounts v (pfn_of a) (2 ^ order) (t\<lparr>phys_mem := m\<rparr>)) ! p = v"
  using new_block_refcounts new_block_below
  by (subst set_refcounts_nth) (auto simp: blk_pages_def)

lemma page_alloc_ok:
  assumes "hooks_respect env K" and "held K s" and "page_alloc env cpu s = (p, s')"
  shows "keeps K s s' \<and> (p = Some a \<longrightarrow> fresh_block K 0 a s')"
proof -
  obtain q t where q: "alloc_retry env cpu 0 16 s = (q, t)" by fastforce
  note R = alloc_retry_ok [OF assms(1,2) q]
  show ?thesis
  proof (cases q)
    case None
    with assms(3) q R show ?thesis by (simp add: page_alloc_def)
  next
    case (Some b)
    have nb: "new_block K 0 b t" using R(2) Some by simp
    have b0: "pfn_of b \<in> blk_pages 0 b" by (simp add: blk_pages_def)
    have lt: "pfn_of b < max_pfn t" using new_block_below [OF nb b0] .
    have p: "p = Some b" and s': "s' = t\<lparr>phys_mem := page_zero (phys_mem t) b,
        page_refcounts := (page_refcounts t)[pfn_of b := 1]\<rparr>"
      using assms(3) q Some lt by (auto simp: page_alloc_def Let_def)
    have "keeps K s s' \<and> fresh_block K 0 b s'"
      by (rule finish_block [OF nb R(1)])
         (use lt new_block_refcounts [OF nb] in \<open>auto simp: s' page_zero_fill blk_pages_def\<close>)
    with p show ?thesis by auto
  qed
qed

lemma order_loop_ok:
  assumes "order = 0 \<or> 2 ^ (order - 1) < n"
  shows "n \<le> 2 ^ order_loop n order \<and> (order_loop n order = 0 \<or> 2 ^ (order_loop n order - 1) < n)"
  using assms
proof (induction n order rule: order_loop.induct)
  case (1 n order)
  show ?case
  proof (cases "2 ^ order < n")
    case True
    then have "order_loop n order = order_loop n (Suc order)" by (subst order_loop.simps) simp
    with 1(1) [OF True] True show ?thesis by simp
  next
    case False
    then have "order_loop n order = order" by (subst order_loop.simps) simp
    with 1(2) False show ?thesis by simp
  qed
qed

lemma order_for_pages_ok:
  assumes "0 < n"
  shows "nat n \<le> 2 ^ order_for_pages n"
    and "order_for_pages n = 0 \<or> 2 ^ (order_for_pages n - 1) < nat n"
  using order_loop_ok [of 0 "nat n"] by (simp_all add: order_for_pages_def)

lemma pages_alloc_ok:
  assumes "hooks_respect env K" and "held K s" and "pages_alloc env cpu n s = (p, s')"
  shows "keeps K s s' \<and> (p = Some a \<longrightarrow> 0 < n \<and> fresh_block K (order_for_pages n) a s')"
proof (cases "n \<le> 0 \<or> MAX_ORDER < order_for_pages n")
  case True
  with assms show ?thesis by (auto simp: pages_alloc_def Let_def split: if_splits)
next
  case False
  define k where "k = order_for_pages n"
  obtain q t where q: "alloc_retry env cpu k (2 ^ k) s = (q, t)" by fastforce
  note R = alloc_retry_ok [OF assms(1,2) q]
  show ?thesis
  proof (cases q)
    case None
    with assms(3) q R False show ?thesis by (simp add: pages_alloc_def k_def)
  next
    case (Some b)
    have nb: "new_block K k b t" using R(2) Some by simp
    have p: "p = Some b" and s': "s' = set_refcounts 1 (pfn_of b) (2 ^ k)
        (t\<lparr>phys_mem := pages_zero (phys_mem t) b (2 ^ k)\<rparr>)"
      using assms(3) q Some False by (auto simp: pages_alloc_def k_def Let_def)
    have "keeps K s s' \<and> fresh_block K k b s'"
      by (rule finish_block [OF nb R(1)]) (use set_refcounts_block [OF nb] in \<open>auto simp: s' pages_zero_fill\<close>)
    with p False show ?thesis by (auto simp: k_def)
  qed
qed

lemma huge_page_alloc_ok:
  assumes "hooks_respect env K" and "held K s" and "huge_page_alloc env cpu s = (p, s')"
  shows "keeps K s s' \<and> (p = Some a \<longrightarrow> fresh_block K 9 a s')"
proof -
  obtain q t where q: "alloc_retry env cpu 9 512 s = (q, t)" by fastforce
  note R = alloc_retry_ok [OF assms(1,2) q]
  show ?thesis
  proof (cases q)
    case None
    with assms(3) q R show ?thesis by (simp add: huge_page_alloc_def)
  next
    case (Some b)
    have nb: "new_block K 9 b t" using R(2) Some by simp
    have p: "p = Some b" and s': "s' = set_refcounts 1 (pfn_of b) (2 ^ 9)
        (t\<lparr>phys_mem := pages_zero (phys_mem t) b (2 ^ 9)\<rparr>)"
      using assms(3) q Some by (auto simp: huge_page_alloc_def)
    have "keeps K s s' \<and> fresh_block K 9 b s'"
      by (rule finish_block [OF nb R(1)]) (use set_refcounts_block [OF nb] in \<open>auto simp: s' pages_zero_fill\<close>)
    with p show ?thesis by auto
  qed
qed

subsection \<open>The contract for clients\<close>

locale page_source =
  fixes get :: "int \<Rightarrow> buddy \<Rightarrow> nat option \<times> buddy"
    and ok :: "nat set \<Rightarrow> buddy \<Rightarrow> bool"
  assumes ok_held: "ok K s \<Longrightarrow> held K s"
    and get_keeps: "ok K s \<Longrightarrow> get n s = (p, s') \<Longrightarrow> ok K s' \<and> keeps K s s'"
    and get_new: "ok K s \<Longrightarrow> get n s = (Some a, s') \<Longrightarrow>
          0 < n \<and> 4096 dvd a \<and> {pfn_of a..<pfn_of a + nat n} \<inter> K = {}
          \<and> held (K \<union> {pfn_of a..<pfn_of a + nat n}) s'
          \<and> (\<forall>x. pfn_of x \<in> {pfn_of a..<pfn_of a + nat n} \<longrightarrow> phys_mem s' x = 0)"
begin

text \<open>Two blocks obtained one after the other, the first held when the second is requested, do
  not overlap.\<close>

lemma get_get_disjoint:
  assumes "ok K s" and "get n s = (Some a, s1)"
    and "ok (K \<union> {pfn_of a..<pfn_of a + nat n}) s1" and "get m s1 = (Some b, s2)"
  shows "{pfn_of a..<pfn_of a + nat n} \<inter> {pfn_of b..<pfn_of b + nat m} = {}"
  using get_new [OF assms(3,4)] by blast

lemma get_preserves_memory:
  assumes "ok K s" and "get n s = (p, s')" and "pfn_of x \<in> K"
  shows "phys_mem s' x = phys_mem s x"
  using get_keeps [OF assms(1,2)] ok_held [OF assms(1)] assms(3) by (simp add: keeps_def)

end

lemma held_subset: "held K s \<Longrightarrow> L \<subseteq> K \<Longrightarrow> held L s"
  by (auto simp: held_def)

lemma fresh_block_prefix:
  assumes "fresh_block K k a s'" and "n \<le> 2 ^ k"
  shows "4096 dvd a" "{pfn_of a..<pfn_of a + n} \<inter> K = {}" "held (K \<union> {pfn_of a..<pfn_of a + n}) s'"
    "\<forall>x. pfn_of x \<in> {pfn_of a..<pfn_of a + n} \<longrightarrow> phys_mem s' x = 0"
proof -
  have sub: "{pfn_of a..<pfn_of a + n} \<subseteq> blk_pages k a"
    using assms(2) by (auto simp: blk_pages_def)
  have f: "2 ^ (12 + k) dvd a" "blk_pages k a \<inter> K = {}" "held (K \<union> blk_pages k a) s'"
    "\<forall>x. pfn_of x \<in> blk_pages k a \<longrightarrow> phys_mem s' x = 0"
    using assms(1) by (auto simp: fresh_block_def new_block_def)
  show "4096 dvd a" using f(1) by (rule dvd_page)
  show "{pfn_of a..<pfn_of a + n} \<inter> K = {}" using f(2) sub by blast
  show "held (K \<union> {pfn_of a..<pfn_of a + n}) s'" by (rule held_subset [OF f(3)]) (use sub in blast)
  show "\<forall>x. pfn_of x \<in> {pfn_of a..<pfn_of a + n} \<longrightarrow> phys_mem s' x = 0" using f(4) sub by blast
qed

interpretation pages: page_source "pages_alloc env cpu" "\<lambda>K s. hooks_respect env K \<and> held K s"
  for env cpu
proof (unfold_locales, goal_cases)
  case (2 K s n p s')
  then show ?case using pages_alloc_ok [of env K s cpu n p s'] keeps_held by blast
next
  case (3 K s n a s')
  then have f: "0 < n" "fresh_block K (order_for_pages n) a s'"
    using pages_alloc_ok [of env K s cpu n "Some a" s' a] by auto
  show ?case using f(1) fresh_block_prefix [OF f(2) order_for_pages_ok(1) [OF f(1)]] by blast
qed simp

interpretation page: page_source "\<lambda>n. if n = 1 then page_alloc env cpu else Pair None"
  "\<lambda>K s. hooks_respect env K \<and> held K s" for env cpu
proof (unfold_locales, goal_cases)
  case (2 K s n p s')
  then show ?case
    using page_alloc_ok [of env K s cpu p s'] keeps_held by (cases "n = 1") auto
next
  case (3 K s n a s')
  then have f: "n = 1" "fresh_block K 0 a s'"
    using page_alloc_ok [of env K s cpu "Some a" s' a] by (auto split: if_splits)
  show ?case using f(1) fresh_block_prefix [OF f(2), of 1] by simp
qed simp

end
