(* ===== verification/Slab.thy ===== *)
theory Slab
  imports Buddy_Api
begin

unbundle bit_operations_syntax

section \<open>The slab allocator (\<^verbatim>\<open>src/kernel/mm/slab.c\<close>)\<close>

text \<open>
  Fixed-size object pools. A static pool slices caller-provided memory; a dynamic pool grows by
  regions from the page allocator and gives up the first slot of a region to its header. The free
  list threaded through the free slots is the HOL list of their addresses; the region list keeps
  base and size of each header. The page allocator is an argument, so that the pool is proved
  against its contract. \<open>None\<close> is undefined behaviour: a fault of \<^verbatim>\<open>pages_free\<close>, or the read of the
  region header after its pages were released.
\<close>

record slab =
  free_list :: "nat list"
  slab_base :: nat
  obj_size :: nat
  capacity :: int
  used :: int
  dynamic :: bool
  regions :: "(nat \<times> nat) list"

definition SLAB_GROW_TARGET_OBJS :: nat where "SLAB_GROW_TARGET_OBJS = 16"
definition PAGES_ALLOC_MAX :: nat where "PAGES_ALLOC_MAX = 512"
definition SLAB_REGION_SIZE :: nat where "SLAB_REGION_SIZE = 24"

definition build_free_list :: "slab \<Rightarrow> nat \<Rightarrow> int \<Rightarrow> slab" where
  "build_free_list s base count =
     s\<lparr>free_list := fold (\<lambda>i fl. (base + i * obj_size s) # fl) (rev [0..<nat count]) (free_list s),
       capacity := capacity s + count\<rparr>"

definition slab_init :: "nat \<Rightarrow> int \<Rightarrow> int \<Rightarrow> slab" where
  "slab_init pool osize count =
     build_free_list
       \<lparr>free_list = [], slab_base = pool, obj_size = nat (if osize < 8 then 8 else osize),
        capacity = 0, used = 0, dynamic = False, regions = []\<rparr> pool count"

function double_pages :: "nat \<Rightarrow> nat \<Rightarrow> nat" where
  "double_pages n p = (if p < n \<and> 0 < p then double_pages n (2 * p) else p)"
  by pat_completeness auto
termination
  by (relation "measure (\<lambda>(n, p). n - p)") auto

declare double_pages.simps [simp del]

definition grow_pages :: "nat \<Rightarrow> nat" where
  "grow_pages osize =
     (let objs_per_page = (if 4096 div osize < 1 then 1 else 4096 div osize);
          batch = (if objs_per_page * 4 < SLAB_GROW_TARGET_OBJS then SLAB_GROW_TARGET_OBJS
                   else objs_per_page * 4);
          bytes = batch * osize;
          npages = (bytes + 4095) div 4096;
          npages1 = (if npages < 1 then 1 else npages);
          npages2 = (if PAGES_ALLOC_MAX < npages1 then PAGES_ALLOC_MAX else npages1)
      in double_pages npages2 1)"

definition slab_grow_locked ::
  "(int \<Rightarrow> buddy \<Rightarrow> nat option \<times> buddy) \<Rightarrow> slab \<Rightarrow> buddy \<Rightarrow> (nat \<times> slab \<times> buddy) option" where
  "slab_grow_locked get s b =
     (let alloc_pages = grow_pages (obj_size s) in
      case get (int alloc_pages) b of
        (None, b1) \<Rightarrow> Some (0, s, b1)
      | (Some mem, b1) \<Rightarrow>
          let region_bytes = alloc_pages * 4096;
              actual_count = region_bytes div obj_size s
          in if actual_count < 1 then
               (case pages_free b1 (Some mem) (int alloc_pages) of
                  None \<Rightarrow> None | Some b2 \<Rightarrow> Some (0, s, b2))
             else
               let s1 = s\<lparr>regions := (mem, region_bytes) # regions s\<rparr>;
                   usable = actual_count - 1
               in if usable = 0 then None
                  else Some (usable, build_free_list s1 (mem + obj_size s) (int usable), b1))"

definition slab_init_dynamic ::
  "(int \<Rightarrow> buddy \<Rightarrow> nat option \<times> buddy) \<Rightarrow> int \<Rightarrow> int \<Rightarrow> buddy \<Rightarrow> (slab \<times> buddy) option" where
  "slab_init_dynamic get osize initial_count b =
     (let size1 = (if osize < 8 then 8 else osize);
          size2 = (if size1 < int SLAB_REGION_SIZE then int SLAB_REGION_SIZE else size1);
          s = \<lparr>free_list = [], slab_base = 0, obj_size = nat size2, capacity = 0, used = 0,
               dynamic = True, regions = []\<rparr>
      in if 0 < initial_count
         then map_option (\<lambda>(n, s', b'). (s', b')) (slab_grow_locked get s b)
         else Some (s, b))"

definition slab_take :: "slab \<Rightarrow> buddy \<Rightarrow> nat option \<times> slab \<times> buddy" where
  "slab_take s b =
     (case free_list s of
        [] \<Rightarrow> (None, s, b)
      | obj # rest \<Rightarrow>
          (Some obj, s\<lparr>free_list := rest, used := used s + 1\<rparr>,
           b\<lparr>phys_mem := kmemset (phys_mem b) obj 0 (obj_size s)\<rparr>))"

definition slab_alloc ::
  "(int \<Rightarrow> buddy \<Rightarrow> nat option \<times> buddy) \<Rightarrow> slab \<Rightarrow> buddy \<Rightarrow> (nat option \<times> slab \<times> buddy) option" where
  "slab_alloc get s b =
     (if free_list s = [] \<and> dynamic s then
        (case slab_grow_locked get s b of
           None \<Rightarrow> None
         | Some (n, s1, b1) \<Rightarrow> if n = 0 then Some (None, s1, b1) else Some (slab_take s1 b1))
      else Some (slab_take s b))"

definition slab_valid :: "slab \<Rightarrow> nat \<Rightarrow> bool" where
  "slab_valid s obj =
     (if dynamic s then
        list_ex (\<lambda>(base, size).
          let first = base + obj_size s; end' = base + size
          in first \<le> obj \<and> obj < end' \<and> (obj - first) mod obj_size s = 0) (regions s)
      else
        let pool_size = nat ((capacity s * int (obj_size s)) mod 2 ^ 64)
        in slab_base s \<le> obj \<and> obj < slab_base s + pool_size \<and>
           (obj - slab_base s) mod obj_size s = 0)"

definition slab_free :: "slab \<Rightarrow> nat option \<Rightarrow> slab" where
  "slab_free s obj =
     (case obj of None \<Rightarrow> s
      | Some p \<Rightarrow>
          if \<not> slab_valid s p then s
          else s\<lparr>free_list := p # free_list s, used := used s - 1\<rparr>)"

subsection \<open>Slots, live objects and the invariant\<close>

definition region_slots :: "nat \<Rightarrow> nat \<times> nat \<Rightarrow> nat list" where
  "region_slots osize r = map (\<lambda>i. fst r + i * osize) [1..<snd r div osize]"

definition slots :: "slab \<Rightarrow> nat list" where
  "slots s = (if dynamic s then concat (map (region_slots (obj_size s)) (regions s))
              else map (\<lambda>i. slab_base s + i * obj_size s) [0..<nat (capacity s)])"

definition live :: "slab \<Rightarrow> nat set" where
  "live s = set (slots s) - set (free_list s)"

definition region_frames :: "nat \<times> nat \<Rightarrow> nat set" where
  "region_frames r = {pfn_of (fst r)..<pfn_of (fst r) + snd r div 4096}"

definition slab_frames :: "slab \<Rightarrow> nat set" where
  "slab_frames s = (\<Union>r\<in>set (regions s). region_frames r)"

definition slab_inv :: "slab \<Rightarrow> bool" where
  "slab_inv s \<longleftrightarrow>
     8 \<le> obj_size s \<and> distinct (slots s) \<and> distinct (free_list s) \<and>
     set (free_list s) \<subseteq> set (slots s) \<and> capacity s = int (length (slots s)) \<and>
     used s = int (card (live s)) \<and>
     (\<not> dynamic s \<longrightarrow> capacity s * int (obj_size s) < 2 ^ 64) \<and>
     (dynamic s \<longrightarrow> (\<forall>r\<in>set (regions s). 4096 dvd fst r \<and> 4096 dvd snd r)) \<and>
     sorted_wrt (\<lambda>r q. region_frames r \<inter> region_frames q = {}) (regions s)"

lemma build_free_list_eq:
  "build_free_list s base count =
     s\<lparr>free_list := map (\<lambda>i. base + i * obj_size s) [0..<nat count] @ free_list s,
       capacity := capacity s + count\<rparr>"
proof -
  have "fold (\<lambda>i fl. f i # fl) (rev xs) ys = map f xs @ ys" for f :: "nat \<Rightarrow> nat" and xs ys
    by (induction xs) auto
  then show ?thesis by (simp add: build_free_list_def)
qed

lemma slot_bytes_in_region:
  assumes "x \<in> set (region_slots osize r)" and "0 < osize"
  shows "fst r + osize \<le> x" and "x + osize \<le> fst r + snd r"
proof -
  obtain i where i: "x = fst r + i * osize" "1 \<le> i" "i < snd r div osize"
    using assms(1) unfolding region_slots_def by force
  have "1 * osize \<le> i * osize" using i(2) by (rule mult_le_mono1)
  then show "fst r + osize \<le> x" by (simp add: i)
  have "(i + 1) * osize \<le> snd r div osize * osize" using i(3) by (intro mult_le_mono1) simp
  also have "\<dots> \<le> snd r" by simp
  finally show "x + osize \<le> fst r + snd r" by (simp add: i)
qed

text \<open>A region is the set of bytes of its frames, so slots of different regions share no byte.\<close>

lemma in_region_frames:
  assumes "4096 dvd fst r" and "4096 dvd snd r"
  shows "pfn_of x \<in> region_frames r \<longleftrightarrow> fst r \<le> x \<and> x < fst r + snd r"
proof -
  obtain c d where cd: "fst r = 4096 * c" "snd r = 4096 * d" using assms by (auto elim!: dvdE)
  have "c \<le> x div 4096 \<longleftrightarrow> 4096 * c \<le> x"
    by (simp add: less_eq_div_iff_mult_less_eq mult.commute)
  moreover have "x div 4096 < c + d \<longleftrightarrow> x < 4096 * (c + d)"
    by (simp add: div_less_iff_less_mult mult.commute)
  ultimately show ?thesis by (simp add: region_frames_def pfn_of_div cd distrib_left)
qed

lemma slot_frames:
  assumes "x \<in> set (region_slots osize r)" and "0 < osize" and "4096 dvd fst r" "4096 dvd snd r"
    and "j < osize"
  shows "pfn_of (x + j) \<in> region_frames r"
  using slot_bytes_in_region [OF assms(1,2)] assms(5) in_region_frames [OF assms(3,4), of "x + j"]
  by linarith

definition apart :: "nat \<Rightarrow> nat \<Rightarrow> nat \<Rightarrow> bool" where
  "apart n x y \<longleftrightarrow> x + n \<le> y \<or> y + n \<le> x"

lemma apart_multiples:
  assumes "i \<noteq> (k::nat)" shows "apart n (a + i * n) (a + k * n)"
proof (cases "i < k")
  case True
  then have "(i + 1) * n \<le> k * n" by (intro mult_le_mono1) simp
  then show ?thesis by (simp add: apart_def)
next
  case False
  then have "(k + 1) * n \<le> i * n" using assms by (intro mult_le_mono1) simp
  then show ?thesis by (simp add: apart_def)
qed

lemma apart_bytes: "apart n x y \<Longrightarrow> j < n \<Longrightarrow> k < n \<Longrightarrow> x + j \<noteq> y + k"
  by (auto simp: apart_def)

lemma bytes_apart:
  assumes "\<And>j k. j < n \<Longrightarrow> k < n \<Longrightarrow> x + j \<noteq> y + k" and "0 < n"
  shows "apart n x y"
proof (rule ccontr)
  assume "\<not> apart n x y"
  then have "x + (y - x) = y + (x - y)" "y - x < n" "x - y < n" by (auto simp: apart_def)
  with assms(1) show False by blast
qed

lemma sorted_wrt_pair:
  assumes "sorted_wrt P xs" and "x \<in> set xs" "y \<in> set xs" "x \<noteq> y" and "\<And>a b. P a b \<Longrightarrow> P b a"
  shows "P x y"
  using assms by (induction xs) auto

lemma slots_apart:
  assumes inv: "slab_inv s" and "x \<in> set (slots s)" "y \<in> set (slots s)" "x \<noteq> y"
  shows "apart (obj_size s) x y"
proof (cases "dynamic s")
  case False
  then obtain i k where "x = slab_base s + i * obj_size s" "y = slab_base s + k * obj_size s"
    using assms(2,3) by (auto simp: slots_def)
  with assms(4) show ?thesis by (metis apart_multiples)
next
  case True
  have pos: "0 < obj_size s" using inv by (simp add: slab_inv_def)
  obtain r q where r: "r \<in> set (regions s)" "x \<in> set (region_slots (obj_size s) r)"
    and q: "q \<in> set (regions s)" "y \<in> set (region_slots (obj_size s) q)"
    using True assms(2,3) by (auto simp: slots_def)
  show ?thesis
  proof (cases "r = q")
    case True
    then obtain i k where "x = fst r + i * obj_size s" "y = fst r + k * obj_size s"
      using r q unfolding region_slots_def by fastforce
    with assms(4) show ?thesis by (metis apart_multiples)
  next
    case False
    have dj: "region_frames r \<inter> region_frames q = {}"
      by (rule sorted_wrt_pair [of "\<lambda>r q. region_frames r \<inter> region_frames q = {}"])
         (use inv r q False in \<open>auto simp: slab_inv_def\<close>)
    have al: "4096 dvd fst r" "4096 dvd snd r" "4096 dvd fst q" "4096 dvd snd q"
      using inv True r(1) q(1) by (auto simp: slab_inv_def)
    show ?thesis
      by (rule bytes_apart [OF _ pos])
         (metis dj disjoint_iff slot_frames [OF r(2) pos al(1,2)] slot_frames [OF q(2) pos al(3,4)])
  qed
qed

lemma live_frames:
  assumes "slab_inv s" and "dynamic s" and "y \<in> live s" and "j < obj_size s"
  shows "pfn_of (y + j) \<in> slab_frames s"
proof -
  obtain r where r: "r \<in> set (regions s)" "y \<in> set (region_slots (obj_size s) r)"
    using assms(2,3) by (auto simp: live_def slots_def)
  moreover have "4096 dvd fst r" "4096 dvd snd r" "0 < obj_size s"
    using assms(1,2) r(1) by (auto simp: slab_inv_def)
  ultimately show ?thesis
    using slot_frames [OF r(2)] assms(4) by (auto simp: slab_frames_def)
qed

subsection \<open>Static pools\<close>

lemma slab_init_ok:
  assumes "0 \<le> count" and "count * (if osize < 8 then 8 else osize) < 2 ^ 64"
  shows "slab_inv (slab_init pool osize count)" and "live (slab_init pool osize count) = {}"
proof -
  let ?z = "nat (if osize < 8 then 8 else osize)"
  have inj: "inj_on (\<lambda>i. pool + i * ?z) A" for A by (auto simp: inj_on_def)
  show "live (slab_init pool osize count) = {}"
    by (simp add: slab_init_def build_free_list_eq live_def slots_def)
  then show "slab_inv (slab_init pool osize count)"
    using assms inj
    by (auto simp: slab_inv_def slab_init_def build_free_list_eq slots_def distinct_map)
qed

subsection \<open>Taking an object and giving it back\<close>

lemma slab_take_ok:
  assumes inv: "slab_inv s" and fl: "free_list s = x # rest"
    and eq: "slab_take s b = (p, s', b')"
  shows "p = Some x" "slab_inv s'" "x \<notin> live s" "live s' = insert x (live s)"
    and "regions s' = regions s" "dynamic s' = dynamic s" "obj_size s' = obj_size s"
    and "phys_mem b' = fill (phys_mem b) x 0 (obj_size s)"
    and "b' = b\<lparr>phys_mem := phys_mem b'\<rparr>"
proof -
  have s': "s' = s\<lparr>free_list := rest, used := used s + 1\<rparr>" and p: "p = Some x"
    and b': "b' = b\<lparr>phys_mem := fill (phys_mem b) x 0 (obj_size s)\<rparr>"
    using eq fl by (auto simp: slab_take_def kmemset_fill)
  have sl: "slots s' = slots s" by (simp add: s' slots_def)
  have x: "x \<in> set (slots s)" "x \<notin> set rest" using inv fl by (auto simp: slab_inv_def)
  show lv: "live s' = insert x (live s)" using x fl sl by (auto simp: live_def s')
  show nl: "x \<notin> live s" using fl by (simp add: live_def)
  have "finite (live s)" by (simp add: live_def)
  then have "card (live s') = card (live s) + 1" using nl by (simp add: lv)
  then show "slab_inv s'"
    using inv fl sl by (auto simp: slab_inv_def s')
  show "p = Some x" "regions s' = regions s" "dynamic s' = dynamic s" "obj_size s' = obj_size s"
    "phys_mem b' = fill (phys_mem b) x 0 (obj_size s)" "b' = b\<lparr>phys_mem := phys_mem b'\<rparr>"
    by (simp_all add: p s' b')
qed

lemma slab_valid_slot:
  assumes inv: "slab_inv s" and x: "x \<in> set (slots s)"
  shows "slab_valid s x"
proof (cases "dynamic s")
  case True
  have pos: "0 < obj_size s" using inv by (simp add: slab_inv_def)
  obtain r where r: "r \<in> set (regions s)" "x \<in> set (region_slots (obj_size s) r)"
    using True x by (auto simp: slots_def)
  then obtain i where "x = fst r + i * obj_size s" "1 \<le> i"
    unfolding region_slots_def by fastforce
  then have "x - (fst r + obj_size s) = (i - 1) * obj_size s" by (simp add: diff_mult_distrib)
  then have "(x - (fst r + obj_size s)) mod obj_size s = 0" by simp
  with True r slot_bytes_in_region [OF r(2) pos] pos show ?thesis
    by (auto simp: slab_valid_def list_ex_iff split_beta Let_def intro!: bexI [of _ r])
next
  case False
  have cap: "capacity s = int (length (slots s))" "capacity s * int (obj_size s) < 2 ^ 64"
    "0 < obj_size s" using inv False by (auto simp: slab_inv_def)
  obtain i where i: "x = slab_base s + i * obj_size s" "i < nat (capacity s)"
    using False x unfolding slots_def by fastforce
  have "nat ((capacity s * int (obj_size s)) mod 2 ^ 64) = nat (capacity s) * obj_size s"
    using cap by (simp add: nat_mult_distrib)
  with False i cap(3) show ?thesis by (simp add: slab_valid_def)
qed

lemma slab_free_ok:
  assumes inv: "slab_inv s" and x: "x \<in> live s"
  shows "slab_inv (slab_free s (Some x))" and "live (slab_free s (Some x)) = live s - {x}"
    and "slots (slab_free s (Some x)) = slots s"
    and "free_list (slab_free s (Some x)) = x # free_list s"
    and "regions (slab_free s (Some x)) = regions s"
proof -
  have sl: "x \<in> set (slots s)" "x \<notin> set (free_list s)" using x by (auto simp: live_def)
  have eq: "slab_free s (Some x) = s\<lparr>free_list := x # free_list s, used := used s - 1\<rparr>"
    using slab_valid_slot [OF inv sl(1)] by (simp add: slab_free_def)
  show slots: "slots (slab_free s (Some x)) = slots s" by (simp add: eq slots_def)
  show lv: "live (slab_free s (Some x)) = live s - {x}" using slots by (auto simp: live_def eq)
  have "card (live s) = card (live s - {x}) + 1"
    using card_Suc_Diff1 [OF _ x] by (simp add: live_def)
  then show "slab_inv (slab_free s (Some x))"
    using inv sl slots lv by (auto simp: slab_inv_def eq)
  show "free_list (slab_free s (Some x)) = x # free_list s" "regions (slab_free s (Some x)) = regions s"
    by (simp_all add: eq)
qed

subsection \<open>Growing a dynamic pool\<close>

lemma double_pages_ok:
  assumes "0 < p"
  shows "n \<le> double_pages n p" and "p \<le> double_pages n p" and "double_pages n p < 2 * n \<or> double_pages n p = p"
  using assms
proof (induction n p rule: double_pages.induct)
  case (1 n p)
  { case 1 then show ?case using "1.IH"(1) by (subst double_pages.simps) auto }
  { case 2 then show ?case using "1.IH"(2) by (subst double_pages.simps) (auto intro: order_trans [of p "2 * p"]) }
  { case 3 then show ?case using "1.IH"(3) by (subst (1 2) double_pages.simps) auto }
qed

lemma grow_pages_fits:
  assumes "8 \<le> osize" and "osize \<le> 2 ^ 20"
  shows "0 < grow_pages osize" and "2 * osize \<le> grow_pages osize * 4096"
proof -
  define batch where "batch = (let objs = if 4096 div osize < 1 then 1 else 4096 div osize in
    if objs * 4 < SLAB_GROW_TARGET_OBJS then SLAB_GROW_TARGET_OBJS else objs * 4)"
  define np where "np = (batch * osize + 4095) div 4096"
  define n where "n = (let n1 = if np < 1 then 1 else np in if PAGES_ALLOC_MAX < n1 then PAGES_ALLOC_MAX else n1)"
  have g: "grow_pages osize = double_pages n 1"
    by (simp add: grow_pages_def batch_def np_def n_def Let_def)
  have ge: "n \<le> grow_pages osize" "1 \<le> grow_pages osize"
    using double_pages_ok(1,2) [of 1 n] by (simp_all add: g)
  then show "0 < grow_pages osize" by simp
  have b16: "16 \<le> batch" by (auto simp: batch_def SLAB_GROW_TARGET_OBJS_def Let_def)
  have "batch * osize \<le> np * 4096" unfolding np_def by simp
  moreover have "16 * osize \<le> batch * osize" using b16 by (rule mult_le_mono1)
  ultimately have "16 * osize \<le> np * 4096" by linarith
  moreover have "n = 512 \<or> np \<le> n" by (auto simp: n_def PAGES_ALLOC_MAX_def Let_def)
  ultimately have "2 * osize \<le> n * 4096" using assms(2) by auto
  then show "2 * osize \<le> grow_pages osize * 4096" using ge(1) by linarith
qed

text \<open>What \<open>slab_grow_locked\<close> leaves: a new region in front whose slots are all free.\<close>

definition grown :: "nat \<Rightarrow> nat \<Rightarrow> slab \<Rightarrow> slab" where
  "grown mem bytes s =
     s\<lparr>regions := (mem, bytes) # regions s,
       free_list := region_slots (obj_size s) (mem, bytes) @ free_list s,
       capacity := capacity s + int (bytes div obj_size s - 1)\<rparr>"

lemma grown_inv:
  assumes inv: "slab_inv s" and dy: "dynamic s" and al: "4096 dvd mem" "4096 dvd bytes"
    and dj: "region_frames (mem, bytes) \<inter> slab_frames s = {}"
  shows "slab_inv (grown mem bytes s)" and "live (grown mem bytes s) = live s"
    and "slab_frames (grown mem bytes s) = region_frames (mem, bytes) \<union> slab_frames s"
proof -
  let ?n = "region_slots (obj_size s) (mem, bytes)"
  have pos: "0 < obj_size s" using inv by (simp add: slab_inv_def)
  have sl: "slots (grown mem bytes s) = ?n @ slots s"
    using dy by (simp add: grown_def slots_def)
  have new: "set ?n \<inter> set (slots s) = {}"
  proof (rule ccontr)
    assume "set ?n \<inter> set (slots s) \<noteq> {}"
    then obtain x r where x: "x \<in> set ?n" "r \<in> set (regions s)" "x \<in> set (region_slots (obj_size s) r)"
      using dy by (auto simp: slots_def)
    have "pfn_of (x + 0) \<in> region_frames (mem, bytes)"
      by (rule slot_frames [OF x(1) pos]) (use al pos in auto)
    moreover have "pfn_of (x + 0) \<in> region_frames r"
      by (rule slot_frames [OF x(3) pos]) (use inv dy x(2) pos in \<open>auto simp: slab_inv_def\<close>)
    ultimately show False using dj x(2) by (auto simp: slab_frames_def)
  qed
  have dn: "distinct ?n" using pos by (auto simp: region_slots_def distinct_map inj_on_def)
  have ln: "length ?n = bytes div obj_size s - 1" by (simp add: region_slots_def)
  have fl: "free_list (grown mem bytes s) = ?n @ free_list s" by (simp add: grown_def)
  show lv: "live (grown mem bytes s) = live s"
    using new by (auto simp: live_def sl fl)
  show "slab_frames (grown mem bytes s) = region_frames (mem, bytes) \<union> slab_frames s"
    by (simp add: slab_frames_def grown_def)
  have sw: "sorted_wrt (\<lambda>r q. region_frames r \<inter> region_frames q = {}) (regions (grown mem bytes s))"
    using inv dj by (auto simp: slab_inv_def grown_def slab_frames_def)
  have "distinct (slots (grown mem bytes s))" "distinct (free_list (grown mem bytes s))"
    "set (free_list (grown mem bytes s)) \<subseteq> set (slots (grown mem bytes s))"
    using inv new dn by (auto simp: slab_inv_def sl fl)
  moreover have "capacity (grown mem bytes s) = int (length (slots (grown mem bytes s)))"
    using inv by (simp add: slab_inv_def sl ln) (simp add: grown_def)
  moreover have "obj_size (grown mem bytes s) = obj_size s" "dynamic (grown mem bytes s)"
    "used (grown mem bytes s) = used s" "set (regions (grown mem bytes s)) = insert (mem, bytes) (set (regions s))"
    using dy by (simp_all add: grown_def)
  ultimately show "slab_inv (grown mem bytes s)"
    using inv dy sw lv al unfolding slab_inv_def by simp
qed

lemma slab_grow_locked_eq:
  assumes "8 \<le> obj_size s" and "obj_size s \<le> 2 ^ 20"
    and "get (int (grow_pages (obj_size s))) b = (Some mem, b1)"
  shows "slab_grow_locked get s b =
     Some (grow_pages (obj_size s) * 4096 div obj_size s - 1,
           grown mem (grow_pages (obj_size s) * 4096) s, b1)"
    and "0 < grow_pages (obj_size s) * 4096 div obj_size s - 1"
proof -
  let ?n = "grow_pages (obj_size s) * 4096 div obj_size s"
  have "2 * obj_size s div obj_size s \<le> ?n"
    by (rule div_le_mono) (rule grow_pages_fits(2) [OF assms(1,2)])
  then have n: "2 \<le> ?n" using assms(1) by simp
  then show "0 < ?n - 1" by simp
  have "map (\<lambda>i. mem + obj_size s + i * obj_size s) [0..<?n - 1] =
        map (\<lambda>i. mem + i * obj_size s) [1..<?n]"
    using n by (intro nth_equalityI) (auto simp: algebra_simps)
  then show "slab_grow_locked get s b =
     Some (?n - 1, grown mem (grow_pages (obj_size s) * 4096) s, b1)"
    using n assms(3)
    by (auto simp: slab_grow_locked_def Let_def build_free_list_eq grown_def region_slots_def
             simp del: of_nat_diff)
qed

subsection \<open>Allocation over any page source\<close>

definition zeroed :: "buddy \<Rightarrow> nat \<Rightarrow> nat \<Rightarrow> bool" where
  "zeroed b x n \<longleftrightarrow> (\<forall>j<n. phys_mem b (x + j) = 0)"

definition same_bytes :: "buddy \<Rightarrow> buddy \<Rightarrow> nat set \<Rightarrow> nat \<Rightarrow> bool" where
  "same_bytes b b' A n \<longleftrightarrow> (\<forall>y\<in>A. \<forall>j<n. phys_mem b' (y + j) = phys_mem b (y + j))"

definition took :: "nat option \<Rightarrow> slab \<times> buddy \<Rightarrow> slab \<times> buddy \<Rightarrow> bool" where
  "took p st st' \<longleftrightarrow>
     (case p of None \<Rightarrow> live (fst st') = live (fst st)
      | Some x \<Rightarrow> x \<notin> live (fst st) \<and> live (fst st') = insert x (live (fst st)) \<and>
                  zeroed (snd st') x (obj_size (fst st))) \<and>
     same_bytes (snd st) (snd st') (live (fst st)) (obj_size (fst st)) \<and>
     obj_size (fst st') = obj_size (fst st)"

definition pool_ok :: "slab \<times> buddy \<Rightarrow> bool" where
  "pool_ok st \<longleftrightarrow>
     slab_inv (fst st) \<and> obj_size (fst st) \<le> 2 ^ 20 \<and> held (slab_frames (fst st)) (snd st)"

lemma held_phys_mem [simp]: "held K (b\<lparr>phys_mem := m\<rparr>) = held K b"
  using held_frame [of K b "b\<lparr>phys_mem := m\<rparr>"] held_frame [of K "b\<lparr>phys_mem := m\<rparr>" b] by auto

lemma slab_take_took:
  assumes ok: "pool_ok (s, b)" and "free_list s = x # rest"
    and eq: "slab_take s b = (p, s', b')"
  shows "pool_ok (s', b') \<and> took p (s, b) (s', b')"
proof -
  have inv: "slab_inv s" using ok by (simp add: pool_ok_def)
  note T = slab_take_ok [OF inv assms(2) eq]
  have fr: "slab_frames s' = slab_frames s" using T(5) by (simp add: slab_frames_def)
  have "held (slab_frames s) (b\<lparr>phys_mem := phys_mem b'\<rparr>)" using ok by (simp add: pool_ok_def)
  then have "pool_ok (s', b')" using ok T(2,7,9) fr by (simp add: pool_ok_def)
  moreover have "same_bytes b b' (live s) (obj_size s)"
  proof -
    have "phys_mem b' (y + j) = phys_mem b (y + j)" if y: "y \<in> live s" "j < obj_size s" for y j
    proof -
      have "apart (obj_size s) x y"
        by (rule slots_apart [OF inv]) (use T(3) y assms(2) inv in \<open>auto simp: live_def slab_inv_def\<close>)
      then show ?thesis using y(2) by (auto simp: T(8) fill_def apart_def)
    qed
    then show ?thesis by (simp add: same_bytes_def)
  qed
  moreover have "zeroed b' x (obj_size s)" by (simp add: zeroed_def T(8) fill_def)
  ultimately show ?thesis using T by (simp add: took_def)
qed

lemma slab_take_empty:
  "pool_ok (s, b) \<Longrightarrow> free_list s = [] \<Longrightarrow>
     slab_take s b = (None, s, b) \<and> took None (s, b) (s, b)"
  by (simp add: slab_take_def took_def same_bytes_def)

context page_source
begin

lemma slab_grow_locked_ok:
  assumes ok: "pool_ok (s, b)" and dy: "dynamic s" and rely: "ok (slab_frames s) b"
  shows "\<exists>n s' b'. slab_grow_locked get s b = Some (n, s', b') \<and> pool_ok (s', b') \<and>
           live s' = live s \<and> obj_size s' = obj_size s \<and>
           same_bytes b b' (live s) (obj_size s) \<and> (n = 0 \<longrightarrow> s' = s) \<and> (0 < n \<longrightarrow> free_list s' \<noteq> [])"
proof -
  let ?g = "grow_pages (obj_size s)"
  have sz: "8 \<le> obj_size s" "obj_size s \<le> 2 ^ 20" and inv: "slab_inv s"
    using ok by (auto simp: pool_ok_def slab_inv_def)
  obtain p b1 where g: "get (int ?g) b = (p, b1)" by fastforce
  note K = get_keeps [OF rely g]
  have same: "same_bytes b b1 (live s) (obj_size s)"
    unfolding same_bytes_def using get_preserves_memory [OF rely g] live_frames [OF inv dy] by blast
  show ?thesis
  proof (cases p)
    case None
    have "slab_grow_locked get s b = Some (0, s, b1)"
      using g None by (simp add: slab_grow_locked_def)
    moreover have "pool_ok (s, b1)" using ok K ok_held by (simp add: pool_ok_def)
    ultimately show ?thesis using same by simp
  next
    case (Some mem)
    note N = get_new [OF rely g [unfolded Some]]
    note E = slab_grow_locked_eq [of s get b mem b1, OF sz g [unfolded Some]]
    have fr: "region_frames (mem, ?g * 4096) = {pfn_of mem..<pfn_of mem + nat (int ?g)}"
      by (simp add: region_frames_def)
    have dj: "region_frames (mem, ?g * 4096) \<inter> slab_frames s = {}"
      and hd: "held (slab_frames s \<union> region_frames (mem, ?g * 4096)) b1"
      using N unfolding fr by auto
    note G = grown_inv [OF inv dy _ _ dj]
    have al: "4096 dvd mem" "4096 dvd ?g * 4096" using N by auto
    have "pool_ok (grown mem (?g * 4096) s, b1)"
      using G [OF al] sz(2) hd by (simp add: pool_ok_def Un_commute) (simp add: grown_def)
    moreover have "free_list (grown mem (?g * 4096) s) \<noteq> []"
      using E(2) by (simp add: grown_def region_slots_def)
    moreover have "obj_size (grown mem (?g * 4096) s) = obj_size s" by (simp add: grown_def)
    ultimately show ?thesis
      using E G(2) [OF al] same by simp
  qed
qed

lemma slab_alloc_ok:
  assumes ok: "pool_ok (s, b)" and rely: "ok (slab_frames s) b"
  shows "\<exists>p s' b'. slab_alloc get s b = Some (p, s', b') \<and> pool_ok (s', b') \<and> took p (s, b) (s', b')"
proof (cases "free_list s = [] \<and> dynamic s")
  case False
  then show ?thesis
  proof (cases "free_list s")
    case Nil
    then show ?thesis using slab_take_empty [OF ok Nil] ok False by (auto simp: slab_alloc_def)
  next
    case (Cons x rest)
    obtain p s' b' where "slab_take s b = (p, s', b')" using prod_cases3 by blast
    with slab_take_took [OF ok Cons] Cons show ?thesis by (simp add: slab_alloc_def)
  qed
next
  case True
  obtain n s1 b1 where g: "slab_grow_locked get s b = Some (n, s1, b1)" "pool_ok (s1, b1)"
    "live s1 = live s" "obj_size s1 = obj_size s" "same_bytes b b1 (live s) (obj_size s)"
    "n = 0 \<longrightarrow> s1 = s" "0 < n \<longrightarrow> free_list s1 \<noteq> []"
    using slab_grow_locked_ok [OF ok _ rely] True by blast
  show ?thesis
  proof (cases "n = 0")
    case True
    with g \<open>free_list s = [] \<and> dynamic s\<close> show ?thesis by (simp add: slab_alloc_def took_def)
  next
    case False
    then obtain x rest where x: "free_list s1 = x # rest" using g(7) by (cases "free_list s1") auto
    obtain p s' b' where t: "slab_take s1 b1 = (p, s', b')" using prod_cases3 by blast
    have "pool_ok (s', b') \<and> took p (s1, b1) (s', b')" by (rule slab_take_took [OF g(2) x t])
    moreover have "took p (s1, b1) (s', b') \<Longrightarrow> took p (s, b) (s', b')"
      using g(3-5) by (auto simp: took_def same_bytes_def split: option.splits)
    ultimately show ?thesis
      using g(1) t False True by (simp add: slab_alloc_def)
  qed
qed

end

subsection \<open>The object-pool interface\<close>

text \<open>What clients of a pool see: the trace of objects handed out and returned. A trace is legal
  when no object is handed out while it is live and only live objects are returned.\<close>

datatype pool_event = Got nat | Exhausted | Gave nat

fun legal :: "nat set \<Rightarrow> pool_event list \<Rightarrow> bool" where
  "legal A [] = True"
| "legal A (Got x # es) = (x \<notin> A \<and> legal (insert x A) es)"
| "legal A (Exhausted # es) = legal A es"
| "legal A (Gave x # es) = (x \<in> A \<and> legal (A - {x}) es)"

fun outstanding :: "nat set \<Rightarrow> pool_event list \<Rightarrow> nat set" where
  "outstanding A [] = A"
| "outstanding A (Got x # es) = outstanding (insert x A) es"
| "outstanding A (Exhausted # es) = outstanding A es"
| "outstanding A (Gave x # es) = outstanding (A - {x}) es"

inductive pool_run ::
  "('s \<Rightarrow> (nat option \<times> 's) option) \<Rightarrow> (nat \<Rightarrow> 's \<Rightarrow> 's) \<Rightarrow> ('s \<Rightarrow> nat set) \<Rightarrow> ('s \<Rightarrow> bool)
     \<Rightarrow> 's \<Rightarrow> pool_event list \<Rightarrow> 's \<Rightarrow> bool"
  for acquire release objs rely where
  finish: "pool_run acquire release objs rely st [] st"
| got: "rely st \<Longrightarrow> acquire st = Some (Some x, st1) \<Longrightarrow> pool_run acquire release objs rely st1 es st' \<Longrightarrow>
          pool_run acquire release objs rely st (Got x # es) st'"
| exhausted: "rely st \<Longrightarrow> acquire st = Some (None, st1) \<Longrightarrow>
          pool_run acquire release objs rely st1 es st' \<Longrightarrow>
          pool_run acquire release objs rely st (Exhausted # es) st'"
| gave: "x \<in> objs st \<Longrightarrow> pool_run acquire release objs rely (release x st) es st' \<Longrightarrow>
          pool_run acquire release objs rely st (Gave x # es) st'"

locale object_pool =
  fixes acquire :: "'s \<Rightarrow> (nat option \<times> 's) option"
    and release :: "nat \<Rightarrow> 's \<Rightarrow> 's"
    and objs :: "'s \<Rightarrow> nat set"
    and rely :: "'s \<Rightarrow> bool"
    and inv :: "'s \<Rightarrow> bool"
  assumes acquire_total: "inv st \<Longrightarrow> rely st \<Longrightarrow> acquire st \<noteq> None"
    and acquire_inv: "inv st \<Longrightarrow> rely st \<Longrightarrow> acquire st = Some (p, st') \<Longrightarrow> inv st'"
    and acquire_new: "inv st \<Longrightarrow> rely st \<Longrightarrow> acquire st = Some (Some x, st') \<Longrightarrow>
          x \<notin> objs st \<and> objs st' = insert x (objs st)"
    and acquire_none: "inv st \<Longrightarrow> rely st \<Longrightarrow> acquire st = Some (None, st') \<Longrightarrow> objs st' = objs st"
    and release_ok: "inv st \<Longrightarrow> x \<in> objs st \<Longrightarrow> inv (release x st) \<and> objs (release x st) = objs st - {x}"
begin

lemma run_legal:
  assumes "pool_run acquire release objs rely st es st'" and "inv st"
  shows "inv st' \<and> legal (objs st) es \<and> objs st' = outstanding (objs st) es"
  using assms
proof (induction rule: pool_run.induct)
  case (got st x st1 es st')
  then show ?case using acquire_inv acquire_new by (metis legal.simps(2) outstanding.simps(2))
next
  case (exhausted st st1 es st')
  then show ?case using acquire_inv acquire_none by (metis legal.simps(3) outstanding.simps(3))
next
  case (gave x st es st')
  then show ?case using release_ok by (metis legal.simps(4) outstanding.simps(4))
qed simp_all

end

definition slab_acquire :: "reclaim_hooks \<Rightarrow> percpu option \<Rightarrow> slab \<times> buddy \<Rightarrow> (nat option \<times> slab \<times> buddy) option" where
  "slab_acquire env cpu st = slab_alloc (pages_alloc env cpu) (fst st) (snd st)"

definition slab_release :: "nat \<Rightarrow> slab \<times> buddy \<Rightarrow> slab \<times> buddy" where
  "slab_release x st = (slab_free (fst st) (Some x), snd st)"

lemma slab_acquire_ok:
  assumes "pool_ok st" and "hooks_respect env (slab_frames (fst st))"
  shows "\<exists>p st'. slab_acquire env cpu st = Some (p, st') \<and> pool_ok st' \<and> took p st st'"
proof -
  have "hooks_respect env (slab_frames (fst st)) \<and> held (slab_frames (fst st)) (snd st)"
    using assms by (simp add: pool_ok_def)
  then show ?thesis
    using pages.slab_alloc_ok [of "fst st" "snd st" env cpu] assms(1) by (fastforce simp: slab_acquire_def)
qed

lemma slab_release_ok:
  assumes "pool_ok st" and "x \<in> live (fst st)"
  shows "pool_ok (slab_release x st) \<and> live (fst (slab_release x st)) = live (fst st) - {x}"
proof -
  have "slab_inv (fst st)" using assms by (simp add: pool_ok_def)
  note F = slab_free_ok [OF this assms(2)]
  have "slab_frames (slab_free (fst st) (Some x)) = slab_frames (fst st)"
    using F(5) by (simp add: slab_frames_def)
  moreover have "obj_size (slab_free (fst st) (Some x)) = obj_size (fst st)" by (simp add: slab_free_def)
  ultimately show ?thesis using F assms(1) by (simp add: slab_release_def pool_ok_def)
qed

interpretation slab_pool: object_pool "slab_acquire env cpu" slab_release "\<lambda>st. live (fst st)"
  "\<lambda>st. hooks_respect env (slab_frames (fst st))" pool_ok for env cpu
proof (unfold_locales, goal_cases)
  case (1 st)
  then show ?case using slab_acquire_ok by fastforce
next
  case (2 st p st')
  then show ?case using slab_acquire_ok [of st env cpu] by auto
next
  case (3 st x st')
  then show ?case using slab_acquire_ok [of st env cpu] by (auto simp: took_def)
next
  case (4 st st')
  then show ?case using slab_acquire_ok [of st env cpu] by (auto simp: took_def)
next
  case (5 st x)
  then show ?case using slab_release_ok by blast
qed

end
