(* ===== verification/Mm_Props.thy ===== *)
theory Mm_Props
  imports Buddy_Boot Slab
begin

unbundle bit_operations_syntax

section \<open>Properties of the memory allocators\<close>

text \<open>
  The statements about the byte routines, the buddy allocator, its public interface and the slab
  pools, each with the concrete machine state at which it is applied.
\<close>

subsection \<open>A small machine\<close>

text \<open>Eight frames, the upper four one free block of order two, and hooks that reclaim nothing.\<close>

definition small_buddy :: buddy where
  "small_buddy = \<lparr>free_lists = (replicate 10 [])[2 := [0x4000]], buddy_bitmap = [0xFFFFFFFFFFFFFF0F],
     max_pfn = 8, page_refcounts = [1, 1, 1, 1, 0, 0, 0, 0], total_pages = 8, alloc_count = 4,
     oom_in_progress = [0], phys_mem = (\<lambda>_. 7)\<rparr>"

definition idle_hooks :: reclaim_hooks where
  "idle_hooks = \<lparr>lazyfree_reclaim = (\<lambda>_ s. (0, s)), out_of_memory = (\<lambda>s. (0, s)), schedule = (\<lambda>s. s)\<rparr>"

lemma idle_hooks_respect [simp]: "hooks_respect idle_hooks K"
  by (simp add: hooks_respect_def idle_hooks_def)

lemma below_8: "p < (8::nat) \<longleftrightarrow> p \<in> {0, 1, 2, 3, 4, 5, 6, 7}"
  by auto

lemma small_free_pages: "free_pages small_buddy = {4, 5, 6, 7}"
proof -
  have "p \<in> free_pages small_buddy \<longleftrightarrow> p \<in> {4, 5, 6, 7}" for p
    by (cases "p < 8") (auto simp: below_8 free_pages_def small_buddy_def bm_test_bit)
  then show ?thesis by blast
qed

lemma small_blk: "blk_pages 2 0x4000 = {4, 5, 6, 7}"
  by (auto simp: blk_pages_def pfn_of_div)

lemma small_inv [simp]: "buddy_inv small_buddy"
proof -
  let ?e = "replicate 10 [] :: nat list list"
  have z: "cover ?e p = 0" "free_total ?e = 0" for p by (simp_all add: cover_def free_total_def)
  have fl: "free_lists small_buddy = ?e[2 := 0x4000 # ?e ! 2]" by (simp add: small_buddy_def)
  have "cover (free_lists small_buddy) p = of_bool (p \<in> free_pages small_buddy)" for p
    unfolding fl small_free_pages by (subst cover_push) (simp_all add: z small_blk)
  moreover have "free_total (free_lists small_buddy) = 4"
    unfolding fl by (subst free_total_push) (simp_all add: z)
  moreover have "blocks_ok 8 (free_lists small_buddy)"
    unfolding fl by (rule blocks_ok_push) (simp_all add: blocks_ok_def pfn_of_div)
  ultimately show ?thesis by (simp add: buddy_inv_def) (simp add: small_buddy_def)
qed

subsection \<open>The buddy allocator\<close>

text \<open>C1: the raw allocation keeps the invariant. A block it returns is aligned to its size, lies
  below the last frame and was entirely free; afterwards exactly its frames stopped being free and
  the allocation counter grew by their number. It fails only when every free list of the requested
  order and above is empty, and then leaves the state unchanged.\<close>

theorem buddy_alloc_correct:
  assumes "buddy_inv s"
  shows "case buddy_alloc_order s order of
           (Some a, s') \<Rightarrow> buddy_inv s' \<and> 2 ^ (12 + order) dvd a \<and> pfn_of a + 2 ^ order \<le> max_pfn s \<and>
             blk_pages order a \<subseteq> free_pages s \<and> free_pages s' = free_pages s - blk_pages order a \<and>
             alloc_count s' = alloc_count s + 2 ^ order
         | (None, s') \<Rightarrow> s' = s \<and> (\<forall>k. order \<le> k \<longrightarrow> k \<le> MAX_ORDER \<longrightarrow> free_lists s ! k = [])"
  using buddy_alloc_order_ok [OF assms] buddy_alloc_order_None [of s order]
  by (auto split: prod.splits option.splits)

theorem buddy_alloc_correct_witness:
  "case buddy_alloc_order small_buddy 1 of
     (Some a, s') \<Rightarrow> buddy_inv s' \<and> free_pages s' = {4, 5, 6, 7} - blk_pages 1 a
   | (None, s') \<Rightarrow> s' = small_buddy"
  using buddy_alloc_correct [of small_buddy 1] by (auto simp: small_free_pages split: prod.splits option.splits)

text \<open>C2: freeing a block that is aligned, inside memory and has no free frame succeeds, keeps the
  invariant through the merging of buddies, and makes exactly the frames of the block free.\<close>

theorem buddy_free_correct:
  assumes "buddy_inv s" and "order \<le> MAX_ORDER" and "2 ^ (12 + order) dvd a"
    and "pfn_of a + 2 ^ order \<le> max_pfn s" and "blk_pages order a \<inter> free_pages s = {}"
  shows "\<exists>s'. buddy_free_order s a order = Some s' \<and> buddy_inv s' \<and>
           free_pages s' = free_pages s \<union> blk_pages order a \<and>
           alloc_count s' = alloc_count s - 2 ^ order \<and> phys_mem s' = phys_mem s"
proof -
  obtain t where "buddy_free_order s a order = Some t" "buddy_inv t" "same_frame s t"
    "free_pages t = free_pages s \<union> blk_pages order a" "alloc_count t = alloc_count s - 2 ^ order"
    using buddy_free_order_ok [OF assms(1) _ assms(3-5)] assms(2) unfolding MAX_ORDER_def by blast
  then show ?thesis by (simp add: same_frame_def)
qed

theorem buddy_free_correct_witness:
  "\<exists>s'. buddy_free_order small_buddy 0x2000 1 = Some s' \<and> buddy_inv s' \<and> free_pages s' = {2, 3, 4, 5, 6, 7}"
proof -
  have blk: "blk_pages 1 0x2000 = {2, 3}" by (auto simp: blk_pages_def pfn_of_div)
  then show ?thesis
    using buddy_free_correct [of small_buddy 1 "0x2000"]
    by (auto simp: small_free_pages MAX_ORDER_def pfn_of_div) (auto simp: small_buddy_def)
qed

text \<open>returning what an allocation handed out restores the set of free frames and the
  allocation counter, whatever splits and merges happened in between.\<close>

theorem buddy_alloc_free_roundtrip:
  assumes "buddy_inv s" and "order \<le> MAX_ORDER" and "buddy_alloc_order s order = (Some a, s')"
  shows "\<exists>s''. buddy_free_order s' a order = Some s'' \<and> buddy_inv s'' \<and>
           free_pages s'' = free_pages s \<and> alloc_count s'' = alloc_count s"
proof -
  note A = buddy_alloc_order_ok [OF assms(1,3)]
  have bd: "pfn_of a + 2 ^ order \<le> max_pfn s'" using A(2,4) by (simp add: same_frame_def)
  have dj: "blk_pages order a \<inter> free_pages s' = {}" using A(6) by blast
  obtain t where t: "buddy_free_order s' a order = Some t" "buddy_inv t"
    "free_pages t = free_pages s' \<union> blk_pages order a" "alloc_count t = alloc_count s' - 2 ^ order"
    using buddy_free_order_ok [OF A(1) _ A(3) bd dj] assms(2) unfolding MAX_ORDER_def by blast
  have "free_pages s' \<union> blk_pages order a = free_pages s" using A(5,6) by blast
  with t A(7) show ?thesis by simp
qed

lemma small_alloc: "fst (buddy_alloc_order small_buddy 2) = Some 0x4000"
  by (simp add: buddy_alloc_order_def small_buddy_def MAX_ORDER_def upt_conv_Cons Let_def)

theorem buddy_alloc_free_roundtrip_witness:
  "\<exists>s''. buddy_free_order (snd (buddy_alloc_order small_buddy 2)) 0x4000 2 = Some s'' \<and>
     free_pages s'' = {4, 5, 6, 7} \<and> alloc_count s'' = alloc_count small_buddy"
proof -
  have "buddy_alloc_order small_buddy 2 = (Some 0x4000, snd (buddy_alloc_order small_buddy 2))"
    using small_alloc by (metis prod.collapse)
  from buddy_alloc_free_roundtrip [OF small_inv _ this] show ?thesis
    by (auto simp: small_free_pages MAX_ORDER_def)
qed

text \<open>a second free of a frame that is already free changes nothing.\<close>

theorem buddy_double_free:
  assumes "buddy_inv s" and "pfn_of a \<in> free_pages s"
  shows "buddy_free_order s a order = Some s"
  by (rule buddy_free_order_double [OF assms])

theorem buddy_double_free_witness: "buddy_free_order small_buddy 0x5000 0 = Some small_buddy"
  by (rule buddy_double_free) (simp_all add: small_free_pages pfn_of_div)

text \<open>the number of free pages the kernel reports is the number of frames whose bitmap bit is
  clear.\<close>

theorem page_free_count_correct:
  assumes "buddy_inv s" and "unat (alloc_count s) + card (free_pages s) < 2 ^ 64"
  shows "unat (page_free_count s) = card (free_pages s)"
proof -
  have t: "total_pages s = alloc_count s + of_nat (card (free_pages s))"
    using buddy_invD(7) [OF assms(1)] free_total_card [OF assms(1)] by simp
  have c: "unat (of_nat (card (free_pages s)) :: u64) = card (free_pages s)"
    using assms(2) by (simp add: unat_of_nat)
  have "unat (total_pages s) = unat (alloc_count s) + card (free_pages s)"
    using assms(2) c unfolding t by (simp add: unat_word_ariths)
  then show ?thesis
    using c by (auto simp: page_free_count_def t word_less_nat_alt)
qed

theorem page_free_count_correct_witness: "unat (page_free_count small_buddy) = 4"
  using page_free_count_correct [of small_buddy]
  by (simp add: small_free_pages) (simp add: small_buddy_def)

text \<open>C5: the boot-time scan of the firmware memory map. When every usable descriptor is page
  aligned and does not wrap and no two describe the same frame, initialisation establishes the
  invariant, and the free frames are exactly those of the usable descriptors above the first
  megabyte without the frames taken for the bitmap and the reference counts.\<close>

theorem uefi_init_ok:
  assumes "map_ok ds" and "sorted_wrt (\<lambda>d e. desc_pages d \<inter> desc_pages e = {}) ds"
    and "page_alloc_add_uefi_regions ds s = (True, s')"
  shows "\<exists>d\<in>set ds. metadata_fits (metadata_bytes_for (max_pfn s')) d
     \<and> buddy_inv s' \<and> alloc_count s' = 0
     \<and> free_pages s' = (\<Union>d\<in>set ds. desc_pages d) -
         {pfn_of (d_phys d)..<pfn_of (d_phys d) + pfn_of (metadata_bytes_for (max_pfn s') + PAGE_SIZE - 1)}"
proof -
  define m where "m = uefi_max_pfn ds"
  obtain d0 where d0: "find (metadata_fits (metadata_bytes_for m)) ds = Some d0"
    and s': "s' = fold (add_desc (d_phys d0) (pfn_of (metadata_bytes_for m + PAGE_SIZE - 1))) ds
                 (s\<lparr>max_pfn := m, buddy_bitmap := replicate ((m + 63) div 64) (- 1),
                    page_refcounts := replicate m 0, free_lists := replicate (MAX_ORDER + 1) [],
                    total_pages := 0, alloc_count := 0\<rparr>)"
    using assms(3)
    by (auto simp: page_alloc_add_uefi_regions_def Let_def m_def split: if_splits option.splits)
  define s0 where "s0 = s\<lparr>max_pfn := m, buddy_bitmap := replicate ((m + 63) div 64) (- 1),
    page_refcounts := replicate m 0, free_lists := replicate (MAX_ORDER + 1) [],
    total_pages := 0, alloc_count := 0\<rparr>"
  have in0: "d0 \<in> set ds" "metadata_fits (metadata_bytes_for m) d0"
    using d0 by (auto simp: find_Some_iff)
  have al: "4096 dvd d_phys d0" using in0 assms(1) by (auto simp: metadata_fits_def map_ok_def)
  have i0: "buddy_inv s0" "free_pages s0 = {}"
    by (rule buddy_inv_empty [OF uefi_max_pfn_bound [of ds]];
        simp add: s0_def m_def MAX_ORDER_def)+
  have "max_pfn s0 = uefi_max_pfn ds" by (simp add: s0_def m_def)
  note F = fold_add_desc_ok [OF i0(1) assms(1) subset_refl this al assms(2),
    of "pfn_of (metadata_bytes_for m + PAGE_SIZE - 1)"]
  show ?thesis
    using F i0(2) in0 unfolding s' s0_def [symmetric] by (intro bexI [of _ d0]) (auto simp: s0_def)
qed

theorem uefi_init_ok_witness:
  "\<exists>d\<in>set [\<lparr>d_type = 7, d_phys = 0x100000, d_pages = 64\<rparr>].
     buddy_inv (snd (page_alloc_add_uefi_regions [d] small_buddy)) \<and>
     free_pages (snd (page_alloc_add_uefi_regions [d] small_buddy)) =
       desc_pages d - {256..<256 + pfn_of (metadata_bytes_for
         (max_pfn (snd (page_alloc_add_uefi_regions [d] small_buddy))) + PAGE_SIZE - 1)}"
proof -
  let ?d = "\<lparr>d_type = 7, d_phys = 0x100000, d_pages = 64\<rparr>"
  have "map_ok [?d]" by (simp add: map_ok_def PAGE_SIZE_def)
  moreover have "page_alloc_add_uefi_regions [?d] small_buddy =
      (True, snd (page_alloc_add_uefi_regions [?d] small_buddy))"
    by (simp add: page_alloc_add_uefi_regions_def uefi_max_pfn_def usable_type_def desc_end_def
      metadata_fits_def metadata_bytes_for_def PAGE_SIZE_def DIRECT_MAP_MAX_def pfn_of_div Let_def)
  ultimately show ?thesis
    using uefi_init_ok [of "[?d]" small_buddy "snd (page_alloc_add_uefi_regions [?d] small_buddy)"]
    by (simp add: pfn_of_div)
qed

subsection \<open>The page interface\<close>

text \<open>C3: whatever the reclaim hooks do to the frames of user processes, a multi-page request keeps
  the frames \<open>K\<close> the caller holds, with their contents. A block it returns holds at least the
  requested number of pages and less than twice as many, is aligned to its size, disjoint from
  \<open>K\<close> and not free, reads as zero, and every frame of it has reference count one.\<close>

theorem pages_alloc_contract:
  assumes "hooks_respect env K" and "held K s" and "pages_alloc env cpu n s = (p, s')"
  shows "held K s' \<and> (\<forall>x. pfn_of x \<in> K \<longrightarrow> phys_mem s' x = phys_mem s x) \<and>
     (case p of None \<Rightarrow> True
      | Some a \<Rightarrow> \<exists>k\<le>MAX_ORDER. nat n \<le> 2 ^ k \<and> (k = 0 \<or> 2 ^ (k - 1) < nat n) \<and> 2 ^ (12 + k) dvd a \<and>
          blk_pages k a \<inter> K = {} \<and> held (K \<union> blk_pages k a) s' \<and>
          (\<forall>x. pfn_of x \<in> blk_pages k a \<longrightarrow> phys_mem s' x = 0) \<and>
          (\<forall>f\<in>blk_pages k a. page_refcounts s' ! f = 1))"
proof -
  have k: "keeps K s s'" using pages_alloc_ok [OF assms] by blast
  show ?thesis
  proof (cases p)
    case None
    then show ?thesis using k assms(2) by (auto simp: keeps_def)
  next
    case (Some a)
    then have f: "0 < n" "fresh_block K (order_for_pages n) a s'" "order_for_pages n \<le> MAX_ORDER"
      using pages_alloc_ok [OF assms, of a] assms(3) by (auto simp: pages_alloc_def Let_def split: if_splits)
    then show ?thesis
      using k assms(2) Some order_for_pages_ok [OF f(1)]
      by (auto simp: keeps_def fresh_block_def new_block_def intro!: exI [of _ "order_for_pages n"])
  qed
qed

lemma small_held [simp]: "held {0, 1} small_buddy"
  by (simp add: held_def small_free_pages) (simp add: small_buddy_def)

theorem pages_alloc_contract_witness:
  "held {0, 1} (snd (pages_alloc idle_hooks None 3 small_buddy)) \<and>
   phys_mem (snd (pages_alloc idle_hooks None 3 small_buddy)) 0x1234 = 7"
proof -
  have "pfn_of 0x1234 = 1" by (simp add: pfn_of_div)
  moreover have "phys_mem small_buddy x = 7" for x by (simp add: small_buddy_def)
  ultimately show ?thesis
    using pages_alloc_contract [OF idle_hooks_respect small_held surjective_pairing [of "pages_alloc idle_hooks None 3 small_buddy"]]
    by auto
qed

lemma buddy_free_page:
  assumes "buddy_inv s" and "pfn_of a < max_pfn s" and "4096 dvd a" and "pfn_of a \<notin> free_pages s"
  obtains s' where "buddy_free_order s a 0 = Some s'" "buddy_inv s'" "same_frame s s'"
    "free_pages s' = insert (pfn_of a) (free_pages s)"
proof -
  have blk: "blk_pages 0 a = {pfn_of a}" by (auto simp: blk_pages_def)
  have al: "2 ^ (12 + 0) dvd a" "pfn_of a + 2 ^ 0 \<le> max_pfn s" using assms(2,3) by simp_all
  have dj: "blk_pages 0 a \<inter> free_pages s = {}" using assms(4) blk by simp
  show thesis
    by (rule buddy_free_order_ok [OF assms(1) le0 al dj]) (use that blk in auto)
qed

text \<open>C7: \<open>page_free\<close> on a shared frame only drops one reference. On the last reference it releases
  the frame, so a frame that \<open>n\<close> owners share becomes free at the \<open>n\<close>th call and not earlier.\<close>

theorem page_free_last_reference:
  assumes "buddy_inv s" and "pfn_of a < max_pfn s" and "4096 dvd a" and "pfn_of a \<notin> free_pages s"
  shows "\<exists>s'. page_free s (Some a) = Some s' \<and> buddy_inv s' \<and>
     page_refcount s' a = max 0 (page_refcount s a - 1) \<and>
     free_pages s' = (if page_refcount s a \<le> 1 then insert (pfn_of a) (free_pages s) else free_pages s)"
proof (cases "1 < page_refcounts s ! pfn_of a")
  case True
  define r where "r = page_refcounts s ! pfn_of a"
  have "uint (r - 1) = uint r - 1" "1 < uint r"
    using True by (simp_all add: r_def word_less_def uint_minus_simple_alt [symmetric] uint_sub_if')
  moreover have "page_free s (Some a) = Some (s\<lparr>page_refcounts := (page_refcounts s)[pfn_of a := r - 1]\<rparr>)"
    using True assms(2) by (simp add: page_free_def r_def Let_def)
  moreover have "buddy_inv (s\<lparr>page_refcounts := (page_refcounts s)[pfn_of a := r - 1]\<rparr>)"
    by (rule buddy_inv_frame [OF assms(1)]) simp_all
  ultimately show ?thesis
    using assms(2) buddy_invD(3) [OF assms(1)] by (simp add: page_refcount_def r_def)
next
  case False
  define t where "t = s\<lparr>page_refcounts := (page_refcounts s)[pfn_of a := 0]\<rparr>"
  have t: "buddy_inv t" "free_pages t = free_pages s" "max_pfn t = max_pfn s"
    by (auto simp: t_def intro: buddy_inv_frame [OF assms(1)])
  obtain u where u: "buddy_free_order t a 0 = Some u" "buddy_inv u" "same_frame t u"
    "free_pages u = insert (pfn_of a) (free_pages t)"
    by (rule buddy_free_page [OF t(1), of a]) (use assms(2-4) t(2,3) in auto)
  have "page_free s (Some a) = Some u"
    using False assms(2) u(1) by (simp add: page_free_def t_def Let_def)
  moreover have "page_refcount u a = 0"
    using u(3) assms(2) buddy_invD(3) [OF assms(1)] by (simp add: page_refcount_def same_frame_def t_def)
  moreover have "page_refcount s a \<le> 1"
    using False assms(2) by (simp add: page_refcount_def word_less_def)
  ultimately show ?thesis
    using u t(2) by auto
qed

theorem page_free_last_reference_witness:
  "\<exists>s'. page_free small_buddy (Some 0x3000) = Some s' \<and> buddy_inv s' \<and> free_pages s' = {3, 4, 5, 6, 7}"
proof -
  have "page_refcount small_buddy 0x3000 = 1" "max_pfn small_buddy = 8"
    by (simp_all add: page_refcount_def small_buddy_def pfn_of_div)
  then show ?thesis
    using page_free_last_reference [of small_buddy "0x3000"] by (auto simp: small_free_pages pfn_of_div)
qed

text \<open>C10: the 16-bit reference count wraps. With 65535 owners one more \<open>page_incref\<close> makes the count
  zero, and the next \<open>page_free\<close> releases a frame that 65535 owners still use.\<close>

theorem page_incref_wraps:
  assumes "buddy_inv s" and "pfn_of a < max_pfn s" and "4096 dvd a" and "pfn_of a \<notin> free_pages s"
    and "page_refcount s a = 65535"
  shows "\<exists>s'. page_free (page_incref s a) (Some a) = Some s' \<and> pfn_of a \<in> free_pages s'"
proof -
  define t where "t = s\<lparr>page_refcounts := (page_refcounts s)[pfn_of a := 0]\<rparr>"
  have len: "length (page_refcounts s) = max_pfn s" by (rule buddy_invD(3) [OF assms(1)])
  have "uint (page_refcounts s ! pfn_of a) = uint (0xFFFF :: u16)"
    using assms(2,5) by (simp add: page_refcount_def)
  then have "page_refcounts s ! pfn_of a = 0xFFFF" by (simp only: word_uint_eq_iff)
  then have "page_refcounts s ! pfn_of a + 1 = 0" by (simp add: word_eq_iff_unsigned)
  then have inc: "page_incref s a = t" using assms(2) by (simp add: page_incref_def t_def)
  have t: "buddy_inv t" "free_pages t = free_pages s" "max_pfn t = max_pfn s"
    "page_refcounts t ! pfn_of a = 0" "(page_refcounts t)[pfn_of a := 0] = page_refcounts t"
    using assms(2) len by (auto simp: t_def intro: buddy_inv_frame [OF assms(1)])
  obtain u where "buddy_free_order t a 0 = Some u" "free_pages u = insert (pfn_of a) (free_pages t)"
    by (rule buddy_free_page [OF t(1), of a]) (use assms(2-4) t(2,3) in auto)
  with t assms(2) show ?thesis unfolding inc by (simp add: page_free_def Let_def)
qed

definition shared_buddy :: buddy where
  "shared_buddy = small_buddy\<lparr>page_refcounts := [1, 1, 1, 0xFFFF, 0, 0, 0, 0]\<rparr>"

theorem page_incref_wraps_witness:
  "\<exists>s'. page_free (page_incref shared_buddy 0x3000) (Some 0x3000) = Some s' \<and> 3 \<in> free_pages s'"
proof -
  have "buddy_inv shared_buddy"
    unfolding shared_buddy_def by (rule buddy_inv_frame [OF small_inv]) (simp_all add: small_buddy_def)
  moreover have "free_pages shared_buddy = {4, 5, 6, 7}" by (simp add: shared_buddy_def small_free_pages)
  moreover have "page_refcount shared_buddy 0x3000 = 65535" "max_pfn shared_buddy = 8"
    by (simp_all add: page_refcount_def shared_buddy_def small_buddy_def pfn_of_div)
  ultimately show ?thesis
    using page_incref_wraps [of shared_buddy "0x3000"] by (simp add: pfn_of_div)
qed

subsection \<open>Byte routines\<close>

text \<open>C8: the copy through an alignment prologue, an eight-byte loop and a byte tail has the effect
  of the byte-by-byte copy on every pair of ranges that do not overlap.\<close>

theorem kmemcpy_correct:
  assumes "disjoint_ranges d s len"
  shows "kmemcpy m d s len = (\<lambda>x. if d \<le> x \<and> x < d + len then m (s + (x - d)) else m x)"
  using kmemcpy_copied [OF assms] by (simp add: copied_def)

theorem kmemcpy_correct_witness:
  "disjoint_ranges 0x103 0x20b 27 \<and> kmemcpy (\<lambda>x. of_nat x) 0x103 0x20b 27 0x110 = of_nat 0x218"
  using kmemcpy_correct [of "0x103" "0x20b" 27 "\<lambda>x. of_nat x"] by (simp add: disjoint_ranges_def)

text \<open>the word-wise fill writes the byte to exactly the range it was given, for every address
  and length.\<close>

theorem kmemset_correct:
  "kmemset m d v len = (\<lambda>x. if d \<le> x \<and> x < d + len then v else m x)"
  by (simp add: kmemset_fill fill_def)

subsection \<open>Slab pools\<close>

text \<open>C6: an allocation from a pool, growing it if needed, is defined and keeps the pool's
  invariant. It returns an object that no client holds, zeroed, and the bytes of every live object
  are as before; when memory runs out it changes nothing a client sees. No read of a released
  region header occurs for objects of at most one megabyte.\<close>

theorem slab_alloc_contract:
  assumes "slab_inv s" and "obj_size s \<le> 2 ^ 20" and "held (slab_frames s) b"
    and "hooks_respect env (slab_frames s)"
  shows "\<exists>p s' b'. slab_alloc (pages_alloc env cpu) s b = Some (p, s', b') \<and> slab_inv s' \<and>
     held (slab_frames s') b' \<and>
     (\<forall>y\<in>live s. \<forall>j<obj_size s. phys_mem b' (y + j) = phys_mem b (y + j)) \<and>
     (case p of None \<Rightarrow> live s' = live s
      | Some x \<Rightarrow> x \<notin> live s \<and> live s' = insert x (live s) \<and> (\<forall>j<obj_size s. phys_mem b' (x + j) = 0))"
proof -
  have "pool_ok (s, b)" using assms by (simp add: pool_ok_def)
  then obtain p s' b' where "slab_alloc (pages_alloc env cpu) s b = Some (p, s', b')"
    "pool_ok (s', b')" "took p (s, b) (s', b')"
    using slab_acquire_ok [of "(s, b)" env cpu] assms(4) by (auto simp: slab_acquire_def)
  then show ?thesis
    by (auto simp: pool_ok_def took_def same_bytes_def zeroed_def split: option.splits)
qed

definition small_pool :: slab where
  "small_pool = slab_init 0x9000 64 2"

lemma small_pool_ok: "slab_inv small_pool" "live small_pool = {}"
  unfolding small_pool_def by (rule slab_init_ok; simp)+

lemma small_pool_simps [simp]:
  "free_list small_pool = [0x9000, 0x9040]" "dynamic small_pool = False" "slab_frames small_pool = {}"
  "obj_size small_pool = 64" "slab_base small_pool = 0x9000" "capacity small_pool = 2"
  by (simp_all add: small_pool_def slab_init_def build_free_list_eq slab_frames_def upt_conv_Cons)

lemma held_empty [simp]: "held {} small_buddy"
  by (simp add: held_def)

theorem slab_alloc_contract_witness:
  "\<exists>p s' b'. slab_alloc (pages_alloc idle_hooks None) small_pool small_buddy = Some (p, s', b') \<and>
     slab_inv s' \<and> (case p of None \<Rightarrow> live s' = {} | Some x \<Rightarrow> live s' = {x} \<and> phys_mem b' (x + 5) = 0)"
  using slab_alloc_contract [of small_pool small_buddy idle_hooks None]
  by (fastforce simp: small_pool_ok split: option.splits)

text \<open>C4: over any run of allocations and frees in which clients return only objects they hold, no
  object is handed out twice without being returned in between, and the pool's live objects are
  exactly the outstanding ones.\<close>

theorem slab_trace_legal:
  assumes "pool_run (slab_acquire env cpu) slab_release (\<lambda>st. live (fst st))
             (\<lambda>st. hooks_respect env (slab_frames (fst st))) st es st'"
    and "pool_ok st"
  shows "pool_ok st' \<and> legal (live (fst st)) es \<and> live (fst st') = outstanding (live (fst st)) es"
  by (rule slab_pool.run_legal [OF assms])

lemma small_pool_acquire:
  "slab_acquire idle_hooks None (small_pool, small_buddy) =
     Some (Some 0x9000, small_pool\<lparr>free_list := [0x9040], used := used small_pool + 1\<rparr>,
           small_buddy\<lparr>phys_mem := kmemset (phys_mem small_buddy) 0x9000 0 64\<rparr>)"
  by (simp add: slab_acquire_def slab_alloc_def slab_take_def)

theorem slab_trace_legal_witness:
  "\<exists>st'. pool_ok st' \<and> legal {} [Got 0x9000, Gave 0x9000] \<and> live (fst st') = {}"
proof -
  let ?st = "(small_pool, small_buddy)"
  have ok: "pool_ok ?st" by (simp add: pool_ok_def small_pool_ok)
  obtain st1 where a: "slab_acquire idle_hooks None ?st = Some (Some 0x9000, st1)"
    using small_pool_acquire by blast
  have l: "0x9000 \<in> live (fst st1)"
    using slab_acquire_ok [OF ok, of idle_hooks None] a by (auto simp: took_def)
  have "pool_run (slab_acquire idle_hooks None) slab_release (\<lambda>st. live (fst st))
      (\<lambda>st. hooks_respect idle_hooks (slab_frames (fst st))) ?st [Got 0x9000, Gave 0x9000]
      (slab_release 0x9000 st1)"
    by (rule pool_run.got, simp, rule a, rule pool_run.gave, rule l, rule pool_run.finish)
  from slab_trace_legal [OF this ok] show ?thesis
    by (intro exI [of _ "slab_release 0x9000 st1"]) (simp add: small_pool_ok)
qed

text \<open>C9: freeing a live object and allocating again returns the same object, and the pool is back
  in the state it had.\<close>

theorem slab_free_alloc_roundtrip:
  assumes "slab_inv s" and "x \<in> live s"
  shows "slab_alloc get (slab_free s (Some x)) b =
    Some (Some x, s, b\<lparr>phys_mem := fill (phys_mem b) x 0 (obj_size s)\<rparr>)"
proof -
  have "x \<in> set (slots s)" using assms(2) by (simp add: live_def)
  then have "slab_free s (Some x) = s\<lparr>free_list := x # free_list s, used := used s - 1\<rparr>"
    using slab_valid_slot [OF assms(1)] by (simp add: slab_free_def)
  then show ?thesis by (simp add: slab_alloc_def slab_take_def kmemset_fill)
qed

theorem slab_free_alloc_roundtrip_witness:
  "slab_alloc (pages_alloc idle_hooks None) (slab_free (small_pool\<lparr>free_list := [0x9040], used := 1\<rparr>) (Some 0x9000)) small_buddy =
     Some (Some 0x9000, small_pool\<lparr>free_list := [0x9040], used := 1\<rparr>,
       small_buddy\<lparr>phys_mem := fill (phys_mem small_buddy) 0x9000 0 64\<rparr>)"
proof -
  have sl: "slots (small_pool\<lparr>free_list := [0x9040], used := 1\<rparr>) = [0x9000, 0x9040]"
    by (simp add: slots_def upt_conv_Cons)
  have lv: "live (small_pool\<lparr>free_list := [0x9040], used := 1\<rparr>) = {0x9000}"
    by (auto simp: live_def sl)
  have "slab_inv (small_pool\<lparr>free_list := [0x9040], used := 1\<rparr>)"
    by (simp add: slab_inv_def sl lv) (simp add: small_pool_def slab_init_def build_free_list_def)
  then show ?thesis
    using slab_free_alloc_roundtrip [of "small_pool\<lparr>free_list := [0x9040], used := 1\<rparr>" "0x9000"] lv
    by simp
qed

end
