(* ===== verification/Vma.thy ===== *)
theory Vma
  imports Slab Buddy_Boot "HOL-Library.Multiset"
begin

section \<open>Virtual memory areas (\<^verbatim>\<open>src/kernel/mm/vma.c\<close>)\<close>

text \<open>
  The per-process AVL tree of areas \<open>[start, end)\<close>, keyed by start. A node is the address of its
  \<^verbatim>\<open>vma_t\<close> with its fields and its stored height, which the code only ever sets to one more than a
  maximum of heights and is therefore a natural number here. Addresses are 64-bit values as
  \<open>nat\<close>; the sums that can wrap carry their \<open>mod 2 ^ 64\<close>. Removing a node with two children keeps
  that node and frees its in-order successor, so the model keeps node identities.
\<close>

record vma =
  v_start :: nat
  v_end :: nat
  v_prot :: int
  v_flags :: int
  file_ino :: nat
  file_offset :: nat
  file_backend :: int

datatype vtree = Tip | Node (vid: nat) (vdata: vma) (vheight: nat) (left: vtree) (right: vtree)

fun height :: "vtree \<Rightarrow> nat" where
  "height Tip = 0"
| "height (Node _ _ h _ _) = h"

fun balance_factor :: "vtree \<Rightarrow> int" where
  "balance_factor Tip = 0"
| "balance_factor (Node _ _ _ l r) = int (height l) - int (height r)"

fun update_height :: "vtree \<Rightarrow> vtree" where
  "update_height Tip = Tip"
| "update_height (Node i d _ l r) =
     Node i d ((if height l > height r then height l else height r) + 1) l r"

text \<open>A rotation reads the fields of a child that \<open>rebalance\<close> has found to be the higher one; the
  last equation of each is the case of a missing child, which \<open>rebalance\<close> never reaches.\<close>

fun rotate_right :: "vtree \<Rightarrow> vtree" where
  "rotate_right (Node yi yd yh (Node xi xd xh a t) r) =
     update_height (Node xi xd xh a (update_height (Node yi yd yh t r)))"
| "rotate_right n = n"

fun rotate_left :: "vtree \<Rightarrow> vtree" where
  "rotate_left (Node xi xd xh l (Node yi yd yh t b)) =
     update_height (Node yi yd yh (update_height (Node xi xd xh l t)) b)"
| "rotate_left n = n"

fun rebalance :: "vtree \<Rightarrow> vtree" where
  "rebalance Tip = Tip"
| "rebalance (Node i d h l r) =
     (let n = update_height (Node i d h l r); bf = balance_factor n in
      if bf > 1 then
        rotate_right (if balance_factor l < 0 then Node i d (vheight n) (rotate_left l) r else n)
      else if bf < -1 then
        rotate_left (if balance_factor r > 0 then Node i d (vheight n) l (rotate_right r) else n)
      else n)"

fun vma_find :: "vtree \<Rightarrow> nat \<Rightarrow> (nat \<times> vma) option" where
  "vma_find Tip addr = None"
| "vma_find (Node i d _ l r) addr =
     (if addr < v_start d then vma_find l addr
      else if v_end d \<le> addr then vma_find r addr
      else Some (i, d))"

fun find_above :: "(nat \<times> vma) option \<Rightarrow> vtree \<Rightarrow> nat \<Rightarrow> (nat \<times> vma) option" where
  "find_above best Tip addr = best"
| "find_above best (Node i d _ l r) addr =
     (if addr < v_start d then find_above (Some (i, d)) l addr else find_above best r addr)"

definition vma_find_above :: "vtree \<Rightarrow> nat \<Rightarrow> (nat \<times> vma) option" where
  "vma_find_above root addr = find_above None root addr"

fun vma_find_overlap :: "vtree \<Rightarrow> nat \<Rightarrow> nat \<Rightarrow> (nat \<times> vma) option" where
  "vma_find_overlap Tip s e = None"
| "vma_find_overlap (Node i d _ l r) s e =
     (if v_start d < e \<and> s < v_end d then Some (i, d)
      else case (if l \<noteq> Tip \<and> s < v_start d then vma_find_overlap l s e else None) of
             Some v \<Rightarrow> Some v
           | None \<Rightarrow> if r \<noteq> Tip \<and> v_start d < e then vma_find_overlap r s e else None)"

fun insert_node :: "vtree \<Rightarrow> nat \<Rightarrow> vma \<Rightarrow> vtree" where
  "insert_node Tip j v = Node j v 1 Tip Tip"
| "insert_node (Node i d h l r) j v =
     rebalance (if v_start v < v_start d then Node i d h (insert_node l j v) r
                else Node i d h l (insert_node r j v))"

definition vma_insert ::
  "('s \<Rightarrow> (nat option \<times> 's) option) \<Rightarrow> 's \<Rightarrow> vtree \<Rightarrow> nat \<Rightarrow> nat \<Rightarrow> int \<Rightarrow> int \<Rightarrow> (nat option \<times> 's \<times> vtree) option" where
  "vma_insert alloc st root s e prot flags =
     (case alloc st of
        None \<Rightarrow> None
      | Some (None, st') \<Rightarrow> Some (None, st', root)
      | Some (Some v, st') \<Rightarrow>
          Some (Some v, st',
            insert_node root v
              \<lparr>v_start = s, v_end = e, v_prot = prot, v_flags = flags, file_ino = 0, file_offset = 0,
               file_backend = 0\<rparr>))"

fun min_node :: "vtree \<Rightarrow> (nat \<times> vma) option" where
  "min_node Tip = None"
| "min_node (Node i d _ l _) = (if l = Tip then Some (i, d) else min_node l)"

text \<open>The target is a node address with the start it carries; the removed node is the second result.\<close>

fun remove_node :: "vtree \<Rightarrow> nat \<Rightarrow> nat \<Rightarrow> vtree \<times> nat option" where
  "remove_node Tip t ts = (Tip, None)"
| "remove_node (Node i d h l r) t ts =
     (if ts < v_start d then
        let (l', rm) = remove_node l t ts in (rebalance (Node i d h l' r), rm)
      else if v_start d < ts then
        let (r', rm) = remove_node r t ts in (rebalance (Node i d h l r'), rm)
      else if i = t then
        if l = Tip then (r, Some i)
        else if r = Tip then (l, Some i)
        else case min_node r of
               None \<Rightarrow> (Node i d h l r, None)
             | Some (si, sd) \<Rightarrow>
                 (rebalance (Node i sd h l (fst (remove_node r si (v_start sd)))), Some si)
      else
        let (r', rm) = remove_node r t ts in (rebalance (Node i d h l r'), rm))"

definition vma_remove :: "(nat \<Rightarrow> 's \<Rightarrow> 's) \<Rightarrow> 's \<Rightarrow> vtree \<Rightarrow> nat \<Rightarrow> nat \<Rightarrow> 's \<times> vtree" where
  "vma_remove release st root t ts =
     (let (root', removed) = remove_node root t ts
      in (case removed of None \<Rightarrow> st | Some v \<Rightarrow> release v st, root'))"

subsection \<open>Searching a gap\<close>

text \<open>The traversals keep a stack of at most 64 nodes and drop deeper ones.\<close>

fun push_right :: "vtree \<Rightarrow> vtree list \<Rightarrow> vtree list" where
  "push_right Tip st = st"
| "push_right (Node i d h l r) st =
     push_right r (if length st < 64 then Node i d h l r # st else st)"

fun push_left :: "vtree \<Rightarrow> vtree list \<Rightarrow> vtree list" where
  "push_left Tip st = st"
| "push_left (Node i d h l r) st =
     push_left l (if length st < 64 then Node i d h l r # st else st)"

definition pending :: "(vtree \<Rightarrow> vtree) \<Rightarrow> vtree list \<Rightarrow> nat" where
  "pending side st = sum_list (map (\<lambda>t. Suc (size (side t))) st)"

lemma pending_push_right: "pending left (push_right t st) \<le> pending left st + size t"
  by (induction t st rule: push_right.induct) (fastforce simp: pending_def)+

lemma pending_push_left: "pending right (push_left t st) \<le> pending right st + size t"
  by (induction t st rule: push_left.induct) (fastforce simp: pending_def)+

lemma pending_pop_left:
  "push_right t st = n # rest \<Longrightarrow> size (left n) + pending left rest < size t + pending left st"
  using pending_push_right [of t st] by (simp add: pending_def)

lemma pending_pop_right:
  "push_left t st = n # rest \<Longrightarrow> size (right n) + pending right rest < size t + pending right st"
  using pending_push_left [of t st] by (simp add: pending_def)

definition PAGE_MASK_UP :: "nat \<Rightarrow> nat" where
  "PAGE_MASK_UP x = page_down ((x + 0xFFF) mod 2 ^ 64)"

function free_down :: "nat \<Rightarrow> nat \<Rightarrow> vtree \<Rightarrow> vtree list \<Rightarrow> nat" where
  "free_down len gap_end cur stack =
     (case push_right cur stack of
        [] \<Rightarrow> (if len \<le> gap_end
               then let addr = page_down (gap_end - len) in if 0x1000 \<le> addr then addr else 0
               else 0)
      | n # rest \<Rightarrow>
          let s = v_start (vdata n); e = v_end (vdata n) in
          if gap_end < len then free_down len gap_end (left n) rest
          else if e \<le> gap_end \<and> len \<le> gap_end - e \<and> e \<le> page_down (gap_end - len)
          then page_down (gap_end - len)
          else free_down len (if s < gap_end then s else gap_end) (left n) rest)"
  by pat_completeness auto
termination
  by (relation "measure (\<lambda>(sz, g, cur, st). size cur + pending left st)")
     (auto dest: pending_pop_left)

definition vma_find_free :: "vtree \<Rightarrow> nat \<Rightarrow> nat \<Rightarrow> nat" where
  "vma_find_free root base len =
     (if root = Tip then (if len \<le> base then base - len else 0)
      else free_down len base root [])"

function free_up :: "nat \<Rightarrow> nat \<Rightarrow> vtree \<Rightarrow> vtree list \<Rightarrow> nat" where
  "free_up len gap_start cur stack =
     (case push_left cur stack of
        [] \<Rightarrow> (if (gap_start + len) mod 2 ^ 64 \<le> 0x800000000000 then gap_start else 0)
      | n # rest \<Rightarrow>
          let s = v_start (vdata n); e = v_end (vdata n) in
          if gap_start < s \<and> len \<le> s - gap_start then gap_start
          else free_up len (if gap_start < e then PAGE_MASK_UP e else gap_start) (right n) rest)"
  by pat_completeness auto
termination
  by (relation "measure (\<lambda>(sz, g, cur, st). size cur + pending right st)")
     (auto dest: pending_pop_right)

definition vma_find_free_above :: "vtree \<Rightarrow> nat \<Rightarrow> nat \<Rightarrow> nat" where
  "vma_find_free_above root start len =
     (if root = Tip then
        let addr = PAGE_MASK_UP start
        in if (addr + len) mod 2 ^ 64 \<le> 0x800000000000 then addr else 0
      else free_up len (PAGE_MASK_UP start) root [])"

declare free_down.simps [simp del] free_up.simps [simp del]

subsection \<open>In-order contents\<close>

fun inorder :: "vtree \<Rightarrow> (nat \<times> vma) list" where
  "inorder Tip = []"
| "inorder (Node i d _ l r) = inorder l @ (i, d) # inorder r"

definition areas :: "vtree \<Rightarrow> vma list" where
  "areas t = map snd (inorder t)"

definition ids :: "vtree \<Rightarrow> nat list" where
  "ids t = map fst (inorder t)"

definition before :: "nat \<times> vma \<Rightarrow> nat \<times> vma \<Rightarrow> bool" where
  "before x y \<longleftrightarrow> v_start (snd x) < v_start (snd y)"

definition disjoint_areas :: "(nat \<times> vma) list \<Rightarrow> bool" where
  "disjoint_areas xs \<longleftrightarrow>
     sorted_wrt (\<lambda>x y. v_end (snd x) \<le> v_start (snd y)) xs \<and> (\<forall>x\<in>set xs. v_start (snd x) < v_end (snd x))"

lemma inorder_update_height [simp]: "inorder (update_height t) = inorder t"
  by (cases t) auto

lemma inorder_rotate_right [simp]: "inorder (rotate_right t) = inorder t"
  by (cases t rule: rotate_right.cases) auto

lemma inorder_rotate_left [simp]: "inorder (rotate_left t) = inorder t"
  by (cases t rule: rotate_left.cases) auto

lemma inorder_rebalance [simp]: "inorder (rebalance t) = inorder t"
  by (cases t) (auto simp: Let_def)

declare rebalance.simps [simp del]

lemma disjoint_before:
  assumes "disjoint_areas xs" shows "sorted_wrt before xs"
  using assms unfolding disjoint_areas_def before_def
  by (induction xs) (auto intro: order.strict_trans2)

lemma inorder_insert_node:
  assumes "sorted_wrt before (inorder t)"
  shows "inorder (insert_node t j v) =
    [x \<leftarrow> inorder t. v_start (snd x) \<le> v_start v] @ (j, v) # [x \<leftarrow> inorder t. v_start v < v_start (snd x)]"
  using assms
proof (induction t j v rule: insert_node.induct)
  case (2 i d h l r j v)
  have L: "\<forall>x\<in>set (inorder l). v_start (snd x) < v_start d"
    and R: "\<forall>x\<in>set (inorder r). v_start d < v_start (snd x)"
    and S: "sorted_wrt before (inorder l)" "sorted_wrt before (inorder r)"
    using "2.prems" by (auto simp: sorted_wrt_append before_def [abs_def])
  show ?case
  proof (cases "v_start v < v_start d")
    case True
    then have "[x \<leftarrow> inorder r. v_start (snd x) \<le> v_start v] = []"
      "[x \<leftarrow> inorder r. v_start v < v_start (snd x)] = inorder r"
      using R by (auto simp: filter_empty_conv filter_id_conv)
    with True "2.IH"(1) [OF True S(1)] show ?thesis by simp
  next
    case False
    then have "[x \<leftarrow> inorder l. v_start (snd x) \<le> v_start v] = inorder l"
      "[x \<leftarrow> inorder l. v_start v < v_start (snd x)] = []"
      using L by (auto simp: filter_empty_conv filter_id_conv)
    with False "2.IH"(2) [OF False S(2)] show ?thesis by simp
  qed
qed simp

definition no_overlap :: "(nat \<times> vma) list \<Rightarrow> nat \<Rightarrow> nat \<Rightarrow> bool" where
  "no_overlap xs s e \<longleftrightarrow> (\<forall>x\<in>set xs. e \<le> v_start (snd x) \<or> v_end (snd x) \<le> s)"

lemma disjoint_insert:
  assumes "disjoint_areas xs" and "no_overlap xs (v_start v) (v_end v)" and "v_start v < v_end v"
  shows "disjoint_areas ([x \<leftarrow> xs. v_start (snd x) \<le> v_start v] @ (j, v) # [x \<leftarrow> xs. v_start v < v_start (snd x)])"
proof -
  have ne: "\<forall>x\<in>set xs. v_start (snd x) < v_end (snd x)"
    and so: "sorted_wrt (\<lambda>x y. v_end (snd x) \<le> v_start (snd y)) xs"
    using assms(1) by (auto simp: disjoint_areas_def)
  have a: "v_end (snd x) \<le> v_start v" if "x \<in> set xs" "v_start (snd x) \<le> v_start v" for x
    using that assms(2,3) ne unfolding no_overlap_def by fastforce
  have b: "v_end v \<le> v_start (snd x)" if "x \<in> set xs" "v_start v < v_start (snd x)" for x
    using that assms(2) ne unfolding no_overlap_def by fastforce
  have "sorted_wrt (\<lambda>x y. v_end (snd x) \<le> v_start (snd y)) [x \<leftarrow> xs. P x]" for P
    using so by (rule sorted_wrt_filter)
  with a b ne assms(3) show ?thesis
    unfolding disjoint_areas_def by (fastforce simp: sorted_wrt_append)
qed

subsection \<open>Balance\<close>

fun avl :: "vtree \<Rightarrow> bool" where
  "avl Tip = True"
| "avl (Node i d h l r) \<longleftrightarrow>
     h = Suc (max (height l) (height r)) \<and> height l \<le> height r + 1 \<and> height r \<le> height l + 1 \<and>
     avl l \<and> avl r"

lemma height_0: "avl t \<Longrightarrow> height t = 0 \<longleftrightarrow> t = Tip"
  by (cases t) auto

lemma avl_Suc:
  assumes "avl t" and "0 < height t"
  obtains i d l r where "t = Node i d (height t) l r" "avl l" "avl r"
    "height t = Suc (max (height l) (height r))" "height l \<le> height r + 1" "height r \<le> height l + 1"
  using assms by (cases t) auto

lemma rebalance_left_heavy:
  assumes "avl l" "avl r" "height l = height r + 2"
  shows "avl (rebalance (Node i d h l r)) \<and>
    (height (rebalance (Node i d h l r)) = height r + 2 \<or> height (rebalance (Node i d h l r)) = height r + 3)"
proof -
  obtain li ld a b where l: "l = Node li ld (height l) a b" "avl a" "avl b"
    "height l = Suc (max (height a) (height b))" "height a \<le> height b + 1" "height b \<le> height a + 1"
    by (rule avl_Suc [OF assms(1)]) (use assms(3) in auto)
  show ?thesis
  proof (cases "height a < height b")
    case True
    obtain bi bd c e where b: "b = Node bi bd (height b) c e" "avl c" "avl e"
      "height b = Suc (max (height c) (height e))" "height c \<le> height e + 1" "height e \<le> height c + 1"
      by (rule avl_Suc [OF l(3)]) (use True in auto)
    show ?thesis
      using assms l(2-6) b(2-6) True
      by (subst (1 2 3) l(1), subst (1 2 3) b(1)) (auto simp: rebalance.simps Let_def max_def split: if_splits)
  next
    case False
    then show ?thesis
      using assms l(2-6) by (subst (1 2 3) l(1)) (auto simp: rebalance.simps Let_def max_def)
  qed
qed

lemma rebalance_right_heavy:
  assumes "avl l" "avl r" "height r = height l + 2"
  shows "avl (rebalance (Node i d h l r)) \<and>
    (height (rebalance (Node i d h l r)) = height l + 2 \<or> height (rebalance (Node i d h l r)) = height l + 3)"
proof -
  obtain ri rd a b where r: "r = Node ri rd (height r) a b" "avl a" "avl b"
    "height r = Suc (max (height a) (height b))" "height a \<le> height b + 1" "height b \<le> height a + 1"
    by (rule avl_Suc [OF assms(2)]) (use assms(3) in auto)
  show ?thesis
  proof (cases "height b < height a")
    case True
    obtain ai ad c e where a: "a = Node ai ad (height a) c e" "avl c" "avl e"
      "height a = Suc (max (height c) (height e))" "height c \<le> height e + 1" "height e \<le> height c + 1"
      by (rule avl_Suc [OF r(2)]) (use True in auto)
    show ?thesis
      using assms r(2-6) a(2-6) True
      by (subst (1 2 3) r(1), subst (1 2 3) a(1)) (auto simp: rebalance.simps Let_def max_def split: if_splits)
  next
    case False
    then show ?thesis
      using assms r(2-6) by (subst (1 2 3) r(1)) (auto simp: rebalance.simps Let_def max_def)
  qed
qed

lemma rebalance_even:
  assumes "avl l" "avl r" "height l \<le> height r + 1" "height r \<le> height l + 1"
  shows "avl (rebalance (Node i d h l r)) \<and>
    height (rebalance (Node i d h l r)) = Suc (max (height l) (height r))"
  using assms by (auto simp: rebalance.simps Let_def max_def)

text \<open>One insertion or removal below a node changes a child's height by at most one, and
  \<open>rebalance\<close> repairs the node.\<close>

lemma rebalance_ok:
  assumes "avl l" "avl r" "height l \<le> height r + 2" "height r \<le> height l + 2"
  shows "avl (rebalance (Node i d h l r))"
    and "height (rebalance (Node i d h l r)) \<le> Suc (max (height l) (height r))"
    and "max (height l) (height r) \<le> height (rebalance (Node i d h l r))"
proof -
  consider "height l = height r + 2" | "height r = height l + 2"
    | "height l \<le> height r + 1" "height r \<le> height l + 1"
    using assms(3,4) by linarith
  then have "avl (rebalance (Node i d h l r)) \<and>
      height (rebalance (Node i d h l r)) \<le> Suc (max (height l) (height r)) \<and>
      max (height l) (height r) \<le> height (rebalance (Node i d h l r))"
    by cases (use assms rebalance_left_heavy [of l r i d h] rebalance_right_heavy [of l r i d h]
      rebalance_even [of l r i d h] in auto)
  then show "avl (rebalance (Node i d h l r))"
    "height (rebalance (Node i d h l r)) \<le> Suc (max (height l) (height r))"
    "max (height l) (height r) \<le> height (rebalance (Node i d h l r))" by blast+
qed

text \<open>\<open>hl\<close> and \<open>hr\<close> are the heights of the children before the change.\<close>

lemma rebalance_up:
  assumes "avl l" "avl r" "hl \<le> hr + 1" "hr \<le> hl + 1"
    and "height l = hl \<or> height l = hl + 1" "height r = hr \<or> height r = hr + 1" "height l = hl \<or> height r = hr"
  shows "avl (rebalance (Node i d h l r)) \<and> Suc (max hl hr) \<le> height (rebalance (Node i d h l r)) \<and>
    height (rebalance (Node i d h l r)) \<le> Suc (max hl hr) + 1"
proof (cases "height l \<le> height r + 1 \<and> height r \<le> height l + 1")
  case True
  then show ?thesis using rebalance_even [of l r i d h] assms by auto
next
  case False
  have R: "avl (rebalance (Node i d h l r))"
    "height (rebalance (Node i d h l r)) \<le> Suc (max (height l) (height r))"
    "max (height l) (height r) \<le> height (rebalance (Node i d h l r))"
    using rebalance_ok [of l r i d h] assms by auto
  moreover have "max (height l) (height r) = Suc (max hl hr)" using False assms(3-7) by auto
  ultimately show ?thesis by simp
qed

lemma rebalance_down:
  assumes "avl l" "avl r" "hl \<le> hr + 1" "hr \<le> hl + 1"
    and "hl = height l \<or> hl = height l + 1" "hr = height r \<or> hr = height r + 1" "height l = hl \<or> height r = hr"
  shows "avl (rebalance (Node i d h l r)) \<and> Suc (max hl hr) \<le> height (rebalance (Node i d h l r)) + 1 \<and>
    height (rebalance (Node i d h l r)) \<le> Suc (max hl hr)"
proof -
  have "height l \<le> height r + 2" "height r \<le> height l + 2" using assms(3-7) by auto
  note R = rebalance_ok [OF assms(1,2) this, of i d h]
  show ?thesis
  proof (cases "height l \<le> height r + 1 \<and> height r \<le> height l + 1")
    case True
    then show ?thesis using rebalance_even [of l r i d h] assms by auto
  next
    case False
    then have "max (height l) (height r) = max hl hr" using assms(3-7) by auto
    with R show ?thesis by simp
  qed
qed

lemma avl_insert_node:
  assumes "avl t"
  shows "avl (insert_node t j v) \<and> height t \<le> height (insert_node t j v) \<and>
         height (insert_node t j v) \<le> height t + 1"
  using assms
proof (induction t j v rule: insert_node.induct)
  case (2 i d h l r j v)
  then have av: "avl l" "avl r" "h = Suc (max (height l) (height r))"
    "height l \<le> height r + 1" "height r \<le> height l + 1" by auto
  show ?case
  proof (cases "v_start v < v_start d")
    case True
    let ?l = "insert_node l j v"
    have l: "avl ?l" "height l \<le> height ?l" "height ?l \<le> height l + 1"
      using "2.IH"(1) [OF True av(1)] by auto
    have "height ?l = height l \<or> height ?l = height l + 1" using l by linarith
    then show ?thesis
      using rebalance_up [OF l(1) av(2,4,5), of i d h] True av(3) by auto
  next
    case False
    let ?r = "insert_node r j v"
    have r: "avl ?r" "height r \<le> height ?r" "height ?r \<le> height r + 1"
      using "2.IH"(2) [OF False av(2)] by auto
    have "height ?r = height r \<or> height ?r = height r + 1" using r by linarith
    then show ?thesis
      using rebalance_up [OF av(1) r(1) av(4,5), of i d h] False av(3) by auto
  qed
qed simp

lemma avl_remove_node:
  assumes "avl t"
  shows "avl (fst (remove_node t j ts)) \<and> height t \<le> height (fst (remove_node t j ts)) + 1 \<and>
         height (fst (remove_node t j ts)) \<le> height t"
  using assms
proof (induction t j ts rule: remove_node.induct)
  case (2 i d h l r t ts)
  then have av: "avl l" "avl r" "h = Suc (max (height l) (height r))"
    "height l \<le> height r + 1" "height r \<le> height l + 1" by auto
  have down: "avl (rebalance (Node i' d' h l' r')) \<and> h \<le> height (rebalance (Node i' d' h l' r')) + 1 \<and>
      height (rebalance (Node i' d' h l' r')) \<le> h"
    if "avl l'" "avl r'" "height l \<le> height l' + 1" "height l' \<le> height l"
      "height r \<le> height r' + 1" "height r' \<le> height r" "l' = l \<or> r' = r" for i' d' l' r'
  proof -
    have "height l = height l' \<or> height l = height l' + 1" "height r = height r' \<or> height r = height r' + 1"
      "height l' = height l \<or> height r' = height r" using that(3-7) by auto
    from rebalance_down [OF that(1,2) av(4,5) this, of i' d' h] show ?thesis using av(3) by simp
  qed
  show ?case using 2 av down
    by (auto simp: split_beta Let_def split: option.splits if_splits)
qed simp

subsection \<open>Removal\<close>

text \<open>Removing node \<open>t\<close> between \<open>xs\<close> and \<open>ys\<close> either drops it, or drops the node behind it and moves
  that node's area into \<open>t\<close>.\<close>

definition removal :: "(nat \<times> vma) list \<Rightarrow> nat \<Rightarrow> (nat \<times> vma) list \<Rightarrow> (nat \<times> vma) list \<Rightarrow> nat \<Rightarrow> bool" where
  "removal xs t ys zs rm \<longleftrightarrow>
     zs = xs @ ys \<and> rm = t \<or>
     (\<exists>sd ys'. ys = (rm, sd) # ys' \<and> zs = xs @ (t, sd) # ys')"

lemma removal_extend:
  "removal xs t ys zs rm \<Longrightarrow> removal (as @ xs) t (ys @ bs) (as @ zs @ bs) rm"
  unfolding removal_def by fastforce

lemma min_node_hd:
  "min_node t = Some (i, d) \<Longrightarrow> inorder t = (i, d) # tl (inorder t)"
proof (induction t rule: min_node.induct)
  case (2 j e h l r)
  show ?case
  proof (cases "l = Tip")
    case False
    then have "inorder l = (i, d) # tl (inorder l)" using 2 by simp
    then show ?thesis by (metis append_Cons inorder.simps(2) list.sel(3))
  qed (use 2 in simp)
qed simp

lemma min_node_Some: "t \<noteq> Tip \<Longrightarrow> \<exists>i d. min_node t = Some (i, d)"
  by (induction t rule: min_node.induct) auto

lemma remove_min:
  assumes "sorted_wrt before (inorder t)" and "min_node t = Some (i, d)"
  shows "inorder (fst (remove_node t i (v_start d))) = tl (inorder t)"
  using assms
proof (induction t)
  case (Node j e h l r)
  show ?case
  proof (cases "l = Tip")
    case False
    then have m: "min_node l = Some (i, d)" using Node.prems(2) by simp
    then have hd: "inorder l = (i, d) # tl (inorder l)" by (rule min_node_hd)
    then have "(i, d) \<in> set (inorder l)" by (metis list.set_intros(1))
    then have lt: "v_start d < v_start e" "sorted_wrt before (inorder l)"
      using Node.prems(1) by (auto simp: sorted_wrt_append before_def [abs_def])
    have "inorder (fst (remove_node (Node j e h l r) i (v_start d))) = tl (inorder l) @ (j, e) # inorder r"
      using Node.IH(1) [OF lt(2) m] lt(1) by (simp add: split_beta Let_def)
    also have "\<dots> = tl (inorder (Node j e h l r))" using hd by (metis append_Cons inorder.simps(2) list.sel(3))
    finally show ?thesis .
  qed (use Node.prems in simp)
qed simp

lemma remove_node_inorder:
  assumes "sorted_wrt before (inorder root)" and "(t, d) \<in> set (inorder root)"
  shows "\<exists>xs ys rm. inorder root = xs @ (t, d) # ys \<and> snd (remove_node root t (v_start d)) = Some rm \<and>
           removal xs t ys (inorder (fst (remove_node root t (v_start d)))) rm"
  using assms
proof (induction root)
  case (Node i e h l r)
  let ?rm = "remove_node (Node i e h l r) t (v_start d)"
  have L: "\<forall>x\<in>set (inorder l). v_start (snd x) < v_start e"
    and R: "\<forall>x\<in>set (inorder r). v_start e < v_start (snd x)"
    and S: "sorted_wrt before (inorder l)" "sorted_wrt before (inorder r)"
    using Node.prems(1) by (auto simp: sorted_wrt_append before_def [abs_def])
  consider "(t, d) \<in> set (inorder l)" | "(t, d) \<in> set (inorder r)" | "t = i" "d = e"
    using Node.prems(2) by auto
  then show ?case
  proof cases
    case 1
    then obtain xs ys rm where I: "inorder l = xs @ (t, d) # ys" "snd (remove_node l t (v_start d)) = Some rm"
      "removal xs t ys (inorder (fst (remove_node l t (v_start d)))) rm"
      using Node.IH(1) [OF S(1)] by blast
    have "v_start d < v_start e" using 1 L by auto
    then have "snd ?rm = Some rm" "inorder (fst ?rm) = [] @ inorder (fst (remove_node l t (v_start d))) @ (i, e) # inorder r"
      using I(2) by (simp_all add: split_beta Let_def)
    with removal_extend [OF I(3), of "[]" "(i, e) # inorder r"] I(1) show ?thesis
      by (intro exI [of _ xs] exI [of _ "ys @ (i, e) # inorder r"] exI [of _ rm]) simp
  next
    case 2
    then obtain xs ys rm where I: "inorder r = xs @ (t, d) # ys" "snd (remove_node r t (v_start d)) = Some rm"
      "removal xs t ys (inorder (fst (remove_node r t (v_start d)))) rm"
      using Node.IH(2) [OF S(2)] by blast
    have "v_start e < v_start d" using 2 R by auto
    then have "snd ?rm = Some rm" "inorder (fst ?rm) = (inorder l @ [(i, e)]) @ inorder (fst (remove_node r t (v_start d))) @ []"
      using I(2) by (simp_all add: split_beta Let_def)
    with removal_extend [OF I(3), of "inorder l @ [(i, e)]" "[]"] I(1) show ?thesis
      by (intro exI [of _ "inorder l @ (i, e) # xs"] exI [of _ ys] exI [of _ rm]) simp
  next
    case 3
    show ?thesis
    proof (cases "l = Tip \<or> r = Tip")
      case True
      then show ?thesis using 3
        by (intro exI [of _ "inorder l"] exI [of _ "inorder r"] exI [of _ i]) (auto simp: removal_def)
    next
      case False
      then obtain si sd where m: "min_node r = Some (si, sd)" using min_node_Some by blast
      have "inorder (fst ?rm) = inorder l @ (i, sd) # tl (inorder r)" "snd ?rm = Some si"
        using False 3 m remove_min [OF S(2) m] by simp_all
      with min_node_hd [OF m] 3 show ?thesis
        by (intro exI [of _ "inorder l"] exI [of _ "inorder r"] exI [of _ si]) (auto simp: removal_def)
    qed
  qed
qed simp

subsection \<open>The invariant and its preservation\<close>

definition vma_inv :: "vtree \<Rightarrow> bool" where
  "vma_inv t \<longleftrightarrow> avl t \<and> disjoint_areas (inorder t) \<and> distinct (ids t)"

lemma vma_inv_sorted: "vma_inv t \<Longrightarrow> sorted_wrt before (inorder t)"
  by (simp add: vma_inv_def disjoint_before)

lemma filter_split_mset:
  "mset ([x \<leftarrow> xs. f x \<le> (k::nat)] @ y # [x \<leftarrow> xs. k < f x]) = add_mset y (mset xs)"
  by (induction xs) auto

lemma insert_node_inv:
  assumes "vma_inv t" and "no_overlap (inorder t) (v_start v) (v_end v)" and "v_start v < v_end v"
    and "j \<notin> set (ids t)"
  shows "vma_inv (insert_node t j v)" and "mset (inorder (insert_node t j v)) = add_mset (j, v) (mset (inorder t))"
proof -
  note E = inorder_insert_node [OF vma_inv_sorted [OF assms(1)], of j v]
  show ms: "mset (inorder (insert_node t j v)) = add_mset (j, v) (mset (inorder t))"
    unfolding E by (rule filter_split_mset)
  have "mset (ids (insert_node t j v)) = mset (j # ids t)" using ms by (simp add: ids_def)
  then have "distinct (ids (insert_node t j v))"
    using assms(1,4) mset_eq_imp_distinct_iff [of "ids (insert_node t j v)" "j # ids t"] by (simp add: vma_inv_def)
  moreover have "disjoint_areas (inorder (insert_node t j v))"
    unfolding E using assms by (intro disjoint_insert) (auto simp: vma_inv_def)
  ultimately show "vma_inv (insert_node t j v)"
    using avl_insert_node assms(1) by (simp add: vma_inv_def)
qed

lemma removal_inv:
  assumes "removal xs t ys zs rm" and "disjoint_areas (xs @ (t, d) # ys)" and "distinct (map fst (xs @ (t, d) # ys))"
  shows "disjoint_areas zs" "distinct (map fst zs)" "set (map fst zs) = set (map fst (xs @ (t, d) # ys)) - {rm}"
    "map snd zs = map snd xs @ map snd ys" "rm \<in> set (map fst (xs @ (t, d) # ys))"
proof -
  have so: "sorted_wrt (\<lambda>x y. v_end (snd x) \<le> v_start (snd y)) (xs @ ys)"
    "\<forall>x\<in>set xs. v_start (snd x) < v_end (snd x)" "\<forall>x\<in>set ys. v_start (snd x) < v_end (snd x)"
    using assms(2) by (auto simp: disjoint_areas_def sorted_wrt_append)
  show "disjoint_areas zs"
    using assms(1) so unfolding removal_def disjoint_areas_def by (elim disjE exE conjE) (simp_all add: sorted_wrt_append ball_Un)
  show "distinct (map fst zs)" using assms(1,3) unfolding removal_def by auto
  show "set (map fst zs) = set (map fst (xs @ (t, d) # ys)) - {rm}"
    using assms(1,3) unfolding removal_def by (elim disjE exE conjE; simp; blast)
  show "map snd zs = map snd xs @ map snd ys" "rm \<in> set (map fst (xs @ (t, d) # ys))"
    using assms(1) unfolding removal_def by auto
qed

lemma remove_node_inv:
  assumes "vma_inv root" and "(t, d) \<in> set (inorder root)"
  shows "vma_inv (fst (remove_node root t (v_start d)))"
    and "\<exists>rm\<in>set (ids root). snd (remove_node root t (v_start d)) = Some rm \<and>
           set (ids (fst (remove_node root t (v_start d)))) = set (ids root) - {rm}"
    and "areas (fst (remove_node root t (v_start d))) = [a \<leftarrow> areas root. a \<noteq> d]"
proof -
  let ?r = "fst (remove_node root t (v_start d))"
  obtain xs ys rm where R: "inorder root = xs @ (t, d) # ys" "snd (remove_node root t (v_start d)) = Some rm"
    "removal xs t ys (inorder ?r) rm"
    using remove_node_inorder [OF vma_inv_sorted [OF assms(1)] assms(2)] by blast
  have inv: "disjoint_areas (xs @ (t, d) # ys)" "distinct (map fst (xs @ (t, d) # ys))" "avl root"
    using assms(1) R(1) by (auto simp: vma_inv_def ids_def)
  note I = removal_inv [OF R(3) inv(1,2)]
  show "vma_inv ?r" using I(1,2) avl_remove_node [OF inv(3)] by (simp add: vma_inv_def ids_def)
  show "\<exists>rm\<in>set (ids root). snd (remove_node root t (v_start d)) = Some rm \<and> set (ids ?r) = set (ids root) - {rm}"
    using I(3,5) R(1,2) by (auto simp: ids_def)
  have "sorted_wrt before (xs @ (t, d) # ys)" using disjoint_before [OF inv(1)] .
  then have "d \<notin> snd ` set xs" "d \<notin> snd ` set ys" by (auto simp: sorted_wrt_append before_def [abs_def])
  then have "filter (\<lambda>a. a \<noteq> d) (map snd xs) = map snd xs" "filter (\<lambda>a. a \<noteq> d) (map snd ys) = map snd ys"
    by (force simp: filter_id_conv)+
  then show "areas ?r = [a \<leftarrow> areas root. a \<noteq> d]" using I(4) R(1) by (simp add: areas_def)
qed

subsection \<open>Lookups\<close>

lemma vma_find_spec:
  assumes "disjoint_areas (inorder t)"
  shows "vma_find t addr = Some (i, d) \<longleftrightarrow> (i, d) \<in> set (inorder t) \<and> v_start d \<le> addr \<and> addr < v_end d"
  using assms
proof (induction t)
  case (Node j e h l r)
  have L: "\<forall>x\<in>set (inorder l). v_end (snd x) \<le> v_start e" and R: "\<forall>x\<in>set (inorder r). v_end e \<le> v_start (snd x)"
    and S: "disjoint_areas (inorder l)" "disjoint_areas (inorder r)" and ne: "v_start e < v_end e"
    using Node.prems by (auto simp: disjoint_areas_def sorted_wrt_append)
  have l: "v_end d \<le> v_start e" if "(i, d) \<in> set (inorder l)" using bspec [OF L that] by simp
  have r: "v_end e \<le> v_start d" if "(i, d) \<in> set (inorder r)" using bspec [OF R that] by simp
  consider "addr < v_start e" | "v_end e \<le> addr" | "v_start e \<le> addr" "addr < v_end e" by linarith
  then show ?case
  proof cases
    case 1
    then show ?thesis using Node.IH(1) [OF S(1)] r ne by auto
  next
    case 2
    then show ?thesis using Node.IH(2) [OF S(2)] l ne by auto
  next
    case 3
    then show ?thesis using l r by auto
  qed
qed simp

lemma vma_find_None:
  assumes "disjoint_areas (inorder t)" and "vma_find t addr = None" and "(i, d) \<in> set (inorder t)"
  shows "addr < v_start d \<or> v_end d \<le> addr"
  using vma_find_spec [OF assms(1), of addr i d] assms(2,3) by auto

lemma find_above_spec:
  assumes "sorted_wrt before (inorder t)"
  shows "find_above best t addr =
    (case [x \<leftarrow> inorder t. addr < v_start (snd x)] of [] \<Rightarrow> best | x # _ \<Rightarrow> Some x)"
  using assms
proof (induction best t addr rule: find_above.induct)
  case (2 best i d h l r addr)
  have L: "\<forall>x\<in>set (inorder l). v_start (snd x) < v_start d" and S: "sorted_wrt before (inorder l)" "sorted_wrt before (inorder r)"
    using "2.prems" by (auto simp: sorted_wrt_append before_def [abs_def])
  show ?case
  proof (cases "addr < v_start d")
    case True
    then show ?thesis using "2.IH"(1) [OF True S(1)] by (auto split: list.splits)
  next
    case False
    then have "[x \<leftarrow> inorder l. addr < v_start (snd x)] = []" using L by (auto simp: filter_empty_conv)
    then show ?thesis using False "2.IH"(2) [OF False S(2)] by simp
  qed
qed simp

lemma vma_find_overlap_Some:
  "vma_find_overlap t s e = Some (i, d) \<Longrightarrow> (i, d) \<in> set (inorder t) \<and> v_start d < e \<and> s < v_end d"
  by (induction t s e rule: vma_find_overlap.induct) (auto split: if_splits option.splits)

lemma vma_find_overlap_None:
  assumes "disjoint_areas (inorder t)" and "vma_find_overlap t s e = None"
  shows "no_overlap (inorder t) s e"
  using assms
proof (induction t s e rule: vma_find_overlap.induct)
  case (2 i d h l r s e)
  have L: "\<forall>x\<in>set (inorder l). v_end (snd x) \<le> v_start d" and R: "\<forall>x\<in>set (inorder r). v_end d \<le> v_start (snd x)"
    and S: "disjoint_areas (inorder l)" "disjoint_areas (inorder r)" and ne: "v_start d < v_end d"
    using "2.prems"(1) by (auto simp: disjoint_areas_def sorted_wrt_append)
  have me: "\<not> (v_start d < e \<and> s < v_end d)" using "2.prems"(2) by (auto split: if_splits)
  have l: "no_overlap (inorder l) s e"
  proof (cases "l \<noteq> Tip \<and> s < v_start d")
    case True
    then show ?thesis using 2 me S(1) by (auto split: option.splits)
  next
    case False
    then show ?thesis using L by (force simp: no_overlap_def)
  qed
  have r: "no_overlap (inorder r) s e"
  proof (cases "r \<noteq> Tip \<and> v_start d < e")
    case True
    then show ?thesis using 2 me S(2) by (auto split: option.splits if_splits)
  next
    case False
    then show ?thesis using R ne by (force simp: no_overlap_def)
  qed
  from l r me show ?case by (auto simp: no_overlap_def)
qed (simp add: no_overlap_def)

end
