(* ===== verification/Vma_Gap.thy ===== *)
theory Vma_Gap
  imports Vma
begin

section \<open>Gap search in the area tree\<close>

text \<open>
  The two searches walk the tree with an explicit stack of 64 entries. On a balanced tree of fewer
  than \<open>2 ^ 32 - 1\<close> areas the stack never overflows, so the walks are scans over the areas in
  descending and ascending order; the scans return the highest and the lowest page-aligned gap.
\<close>

subsection \<open>Depth of a balanced tree\<close>

fun depth :: "vtree \<Rightarrow> nat" where
  "depth Tip = 0"
| "depth (Node _ _ _ l r) = Suc (max (depth l) (depth r))"

lemma avl_height_depth: "avl t \<Longrightarrow> height t = depth t"
  by (induction t) auto

lemma length_inorder_Node: "length (inorder (Node i d h l r)) + 1 = (length (inorder l) + 1) + (length (inorder r) + 1)"
  by simp

lemma avl_count: "avl t \<Longrightarrow> 2 ^ depth t \<le> (length (inorder t) + 1) ^ 2"
proof (induction t)
  case (Node i d h l r)
  let ?a = "length (inorder l) + 1" and ?b = "length (inorder r) + 1"
  have dl: "depth l \<le> depth r + 1" "depth r \<le> depth l + 1"
    using Node.prems avl_height_depth [of l] avl_height_depth [of r] by auto
  have IH: "2 ^ depth l \<le> ?a ^ 2" "2 ^ depth r \<le> ?b ^ 2" using Node by auto
  define m where "m = min (depth l) (depth r)"
  have m: "(2::nat) ^ m \<le> ?a ^ 2" "(2::nat) ^ m \<le> ?b ^ 2"
    by (rule order_trans [OF power_increasing IH(1)], simp_all add: m_def)
       (rule order_trans [OF power_increasing IH(2) [simplified]], simp_all)
  have "depth (Node i d h l r) \<le> m + 2" using dl by (auto simp: m_def)
  then have "(2::nat) ^ depth (Node i d h l r) \<le> 2 ^ (m + 2)" by (rule power_increasing) simp
  also have "\<dots> = 2 ^ m * 4" by simp
  also have "\<dots> \<le> (min ?a ?b) ^ 2 * 4" using m by (simp add: min_def)
  also have "\<dots> = (2 * min ?a ?b) ^ 2" by (subst power_mult_distrib) simp
  also have "\<dots> \<le> (?a + ?b) ^ 2" by (rule power_mono) auto
  finally show ?case unfolding length_inorder_Node .
qed simp

lemma avl_depth_64:
  assumes "avl t" and "length (inorder t) + 1 \<le> 2 ^ 32"
  shows "depth t \<le> 64"
proof -
  have "(2::nat) ^ depth t \<le> (length (inorder t) + 1) ^ 2" by (rule avl_count [OF assms(1)])
  also have "\<dots> \<le> (2 ^ 32) ^ 2" by (rule power_mono [OF assms(2)]) simp
  also have "\<dots> = 2 ^ 64" by simp
  finally show ?thesis by (rule power_le_imp_le_exp [rotated]) simp
qed

subsection \<open>The walks are scans\<close>

fun scan_down :: "nat \<Rightarrow> nat \<Rightarrow> vma list \<Rightarrow> nat" where
  "scan_down len g [] =
     (if len \<le> g then let addr = page_down (g - len) in if 0x1000 \<le> addr then addr else 0 else 0)"
| "scan_down len g (a # as) =
     (if g < len then scan_down len g as
      else if v_end a \<le> g \<and> len \<le> g - v_end a \<and> v_end a \<le> page_down (g - len) then page_down (g - len)
      else scan_down len (min (v_start a) g) as)"

fun scan_up :: "nat \<Rightarrow> nat \<Rightarrow> vma list \<Rightarrow> nat" where
  "scan_up len g [] = (if (g + len) mod 2 ^ 64 \<le> 0x800000000000 then g else 0)"
| "scan_up len g (a # as) =
     (if g < v_start a \<and> len \<le> v_start a - g then g
      else scan_up len (if g < v_end a then PAGE_MASK_UP (v_end a) else g) as)"

text \<open>Room for the subtrees that are still to be walked above the entries of the stack.\<close>

fun fits :: "(vtree \<Rightarrow> vtree) \<Rightarrow> vtree list \<Rightarrow> bool" where
  "fits side [] = True"
| "fits side (n # st) \<longleftrightarrow> n \<noteq> Tip \<and> depth (side n) + length st \<le> 64 \<and> fits side st"

definition todo_down :: "vtree list \<Rightarrow> vma list" where
  "todo_down st = concat (map (\<lambda>n. vdata n # rev (areas (left n))) st)"

definition todo_up :: "vtree list \<Rightarrow> vma list" where
  "todo_up st = concat (map (\<lambda>n. vdata n # areas (right n)) st)"

lemma areas_simps [simp]: "areas Tip = []" "areas (Node i d h l r) = areas l @ d # areas r"
  by (simp_all add: areas_def)

lemma push_right_ok:
  assumes "depth t + length st \<le> 64" and "fits left st"
  shows "fits left (push_right t st) \<and> todo_down (push_right t st) = rev (areas t) @ todo_down st"
  using assms by (induction t st rule: push_right.induct) (auto simp: todo_down_def)

lemma push_left_ok:
  assumes "depth t + length st \<le> 64" and "fits right st"
  shows "fits right (push_left t st) \<and> todo_up (push_left t st) = areas t @ todo_up st"
  using assms by (induction t st rule: push_left.induct) (auto simp: todo_up_def)

lemma free_down_scan:
  assumes "depth cur + length st \<le> 64" and "fits left st"
  shows "free_down len g cur st = scan_down len g (rev (areas cur) @ todo_down st)"
  using assms
proof (induction len g cur st rule: free_down.induct)
  case (1 len g cur st)
  note P = push_right_ok [OF "1.prems"]
  show ?case
  proof (cases "push_right cur st")
    case Nil
    then have "rev (areas cur) @ todo_down st = []" using P by (simp add: todo_down_def)
    then show ?thesis using Nil by (simp add: free_down.simps)
  next
    case (Cons n rest)
    have f: "depth (left n) + length rest \<le> 64" "fits left rest" using P Cons by auto
    have td: "rev (areas cur) @ todo_down st = vdata n # rev (areas (left n)) @ todo_down rest"
      using P Cons by (simp add: todo_down_def)
    have mn: "(if v_start (vdata n) < g then v_start (vdata n) else g) = min (v_start (vdata n)) g" by auto
    show ?thesis
      unfolding td using "1.IH"(1) [OF Cons refl refl _ f] "1.IH"(2) [OF Cons refl refl _ _ f] Cons
      by (subst free_down.simps) (simp add: mn Let_def)
  qed
qed

lemma free_up_scan:
  assumes "depth cur + length st \<le> 64" and "fits right st"
  shows "free_up len g cur st = scan_up len g (areas cur @ todo_up st)"
  using assms
proof (induction len g cur st rule: free_up.induct)
  case (1 len g cur st)
  note P = push_left_ok [OF "1.prems"]
  show ?case
  proof (cases "push_left cur st")
    case Nil
    then have "areas cur @ todo_up st = []" using P by (simp add: todo_up_def)
    then show ?thesis using Nil by (simp add: free_up.simps)
  next
    case (Cons n rest)
    have f: "depth (right n) + length rest \<le> 64" "fits right rest" using P Cons by auto
    have td: "areas cur @ todo_up st = vdata n # areas (right n) @ todo_up rest"
      using P Cons by (simp add: todo_up_def)
    show ?thesis
      unfolding td using "1.IH" [OF Cons refl refl _ f] Cons
      by (subst free_up.simps) (simp add: Let_def)
  qed
qed

subsection \<open>The scans find the best gap\<close>

definition free_at :: "vma list \<Rightarrow> nat \<Rightarrow> nat \<Rightarrow> nat \<Rightarrow> nat \<Rightarrow> bool" where
  "free_at as lo hi len a \<longleftrightarrow>
     4096 dvd a \<and> lo \<le> a \<and> a + len \<le> hi \<and> (\<forall>x\<in>set as. a + len \<le> v_start x \<or> v_end x \<le> a)"

definition highest :: "(nat \<Rightarrow> bool) \<Rightarrow> nat \<Rightarrow> bool" where
  "highest P r \<longleftrightarrow> P r \<and> (\<forall>a. P a \<longrightarrow> a \<le> r) \<or> (\<forall>a. \<not> P a) \<and> r = 0"

definition lowest :: "(nat \<Rightarrow> bool) \<Rightarrow> nat \<Rightarrow> bool" where
  "lowest P r \<longleftrightarrow> P r \<and> (\<forall>a. P a \<longrightarrow> r \<le> a) \<or> (\<forall>a. \<not> P a) \<and> r = 0"

lemma page_down_ok:
  "page_down x \<le> x" "4096 dvd page_down x" "4096 dvd a \<Longrightarrow> a \<le> x \<Longrightarrow> a \<le> page_down x"
proof -
  have e: "page_down x = x div 4096 * 4096" by (simp add: page_down_def PAGE_SIZE_def minus_mod_eq_div_mult)
  show "page_down x \<le> x" "4096 dvd page_down x" by (simp_all add: e)
  assume a: "4096 dvd a" "a \<le> x"
  then have "a div 4096 * 4096 \<le> x div 4096 * 4096" by (intro mult_le_mono1 div_le_mono) simp
  then show "a \<le> page_down x" using a(1) by (simp add: e)
qed

lemma PAGE_MASK_UP_ok:
  assumes "x \<le> 2 ^ 47"
  shows "4096 dvd PAGE_MASK_UP x" "x \<le> PAGE_MASK_UP x" "PAGE_MASK_UP x \<le> 2 ^ 47"
    "4096 dvd a \<Longrightarrow> x \<le> a \<Longrightarrow> PAGE_MASK_UP x \<le> a"
proof -
  have e: "PAGE_MASK_UP x = (x + 4095) div 4096 * 4096"
    using assms by (simp add: PAGE_MASK_UP_def page_down_def PAGE_SIZE_def minus_mod_eq_div_mult)
  show "4096 dvd PAGE_MASK_UP x" "x \<le> PAGE_MASK_UP x" by (simp_all add: e)
  have le: "PAGE_MASK_UP x \<le> a" if al: "4096 dvd a" "x \<le> a" for a
  proof -
    obtain c where c: "a = 4096 * c" using al(1) unfolding dvd_def by blast
    have "(x + 4095) div 4096 \<le> (4095 + 4096 * c) div 4096" using al(2) by (intro div_le_mono) (simp add: c)
    also have "\<dots> = c" by simp
    finally show ?thesis by (simp add: e c)
  qed
  show "PAGE_MASK_UP x \<le> 2 ^ 47" using assms by (intro le) simp_all
  show "4096 dvd a \<Longrightarrow> x \<le> a \<Longrightarrow> PAGE_MASK_UP x \<le> a" by (rule le)
qed

lemma scan_down_highest:
  assumes "sorted_wrt (\<lambda>a b. v_end b \<le> v_start a) as" and "\<forall>a\<in>set as. v_start a < v_end a" and "0 < len"
  shows "highest (free_at as 0x1000 g len) (scan_down len g as)"
  using assms
proof (induction len g as rule: scan_down.induct)
  case (1 len g)
  show ?case
    using page_down_ok(1,2) [where x = "g - len"] page_down_ok(3) [where x = "g - len"]
    by (fastforce simp: highest_def free_at_def Let_def)
next
  case (2 len g c as)
  let ?s = "v_start c" and ?e = "v_end c" and ?p = "page_down (g - len)"
  have so: "sorted_wrt (\<lambda>a b. v_end b \<le> v_start a) as" "\<forall>a\<in>set as. v_start a < v_end a"
    and below: "\<forall>a\<in>set as. v_end a \<le> ?s" and ne: "?s < ?e" using "2.prems" by auto
  note PD = page_down_ok [where x = "g - len"]
  consider "g < len" | "len \<le> g" "?e \<le> g" "len \<le> g - ?e" "?e \<le> ?p"
    | "len \<le> g" "\<not> (?e \<le> g \<and> len \<le> g - ?e \<and> ?e \<le> ?p)" by linarith
  then show ?case
  proof cases
    case 1
    then have "\<not> free_at xs 0x1000 g len a" for xs a by (simp add: free_at_def)
    then show ?thesis using "2.IH"(1) [OF 1 so "2.prems"(3)] 1 by (simp add: highest_def)
  next
    case 2
    have "free_at (c # as) 0x1000 g len ?p"
    proof -
      have "0x1000 \<le> ?p" using 2(4) ne PD(2) by (intro dvd_imp_le) auto
      then show ?thesis using 2 PD(1,2) below ne by (fastforce simp: free_at_def)
    qed
    moreover have "a \<le> ?p" if "free_at (c # as) 0x1000 g len a" for a
      using that PD(3) [of a] by (auto simp: free_at_def)
    ultimately show ?thesis using 2 by (simp add: highest_def)
  next
    case 3
    have "free_at (c # as) 0x1000 g len a = free_at as 0x1000 (min ?s g) len a" for a
      using 3 PD(3) [of a] add_le_imp_le_diff [of a len g] ne "2.prems"(3) by (auto simp: free_at_def)
    then have "free_at (c # as) 0x1000 g len = free_at as 0x1000 (min ?s g) len" by (rule ext)
    moreover have "scan_down len g (c # as) = scan_down len (min ?s g) as" using 3 by auto
    ultimately show ?thesis using "2.IH"(2) [OF _ 3(2) so "2.prems"(3)] 3(1) by simp
  qed
qed

lemma scan_up_lowest:
  assumes "sorted_wrt (\<lambda>a b. v_end a \<le> v_start b) as" and "\<forall>a\<in>set as. v_start a < v_end a \<and> v_end a \<le> 2 ^ 47"
    and "0 < len" "len \<le> 2 ^ 47" and "4096 dvd g" "g \<le> 2 ^ 47"
  shows "lowest (free_at as g (2 ^ 47) len) (scan_up len g as)"
  using assms
proof (induction len g as rule: scan_up.induct)
  case (1 len g)
  then have "(g + len) mod 2 ^ 64 = g + len" by simp
  then show ?case using 1 by (auto simp: lowest_def free_at_def)
next
  case (2 len g c as)
  let ?s = "v_start c" and ?e = "v_end c"
  have so: "sorted_wrt (\<lambda>a b. v_end a \<le> v_start b) as" "\<forall>a\<in>set as. v_start a < v_end a \<and> v_end a \<le> 2 ^ 47"
    and above: "\<forall>a\<in>set as. ?e \<le> v_start a" and ne: "?s < ?e" "?e \<le> 2 ^ 47" using "2.prems" by auto
  show ?case
  proof (cases "g < ?s \<and> len \<le> ?s - g")
    case True
    then have "free_at (c # as) g (2 ^ 47) len g"
      using above ne "2.prems"(5) by (fastforce simp: free_at_def)
    then show ?thesis using True by (simp add: lowest_def) (simp add: free_at_def)
  next
    case False
    define g' where "g' = (if g < ?e then PAGE_MASK_UP ?e else g)"
    note M = PAGE_MASK_UP_ok [OF ne(2)]
    have g': "4096 dvd g'" "g' \<le> 2 ^ 47" "g \<le> g'" "?e \<le> g'"
      using M(1-3) "2.prems"(5,6) by (auto simp: g'_def)
    have "free_at (c # as) g (2 ^ 47) len a = free_at as g' (2 ^ 47) len a" for a
      using False M(4) [of a] g'(3,4) "2.prems"(3) by (auto simp: free_at_def g'_def split: if_splits)
    then have "free_at (c # as) g (2 ^ 47) len = free_at as g' (2 ^ 47) len" by (rule ext)
    moreover have "scan_up len g (c # as) = scan_up len g' as" using False by (auto simp: g'_def)
    moreover have "lowest (free_at as g' (2 ^ 47) len) (scan_up len g' as)"
      using "2.IH" [OF False so "2.prems"(3,4)] g'(1,2) unfolding g'_def by blast
    ultimately show ?thesis by simp
  qed
qed

lemma areas_disjoint:
  assumes "disjoint_areas (inorder t)"
  shows "sorted_wrt (\<lambda>a b. v_end a \<le> v_start b) (areas t)" and "\<forall>a\<in>set (areas t). v_start a < v_end a"
  using assms by (auto simp: disjoint_areas_def areas_def sorted_wrt_map)

end
