(* ===== verification/Steady_Pool.thy ===== *)
theory Steady_Pool
  imports Slab
begin

section \<open>Pools in an environment that stays well-behaved\<close>

text \<open>
  A client that allocates in a loop relies on the environment at every state of the pool it
  passes through. When the assumption holds at every reachable state, the pool is an object pool
  without an assumption.
\<close>

inductive pool_reach :: "('s \<Rightarrow> (nat option \<times> 's) option) \<Rightarrow> (nat \<Rightarrow> 's \<Rightarrow> 's) \<Rightarrow> 's \<Rightarrow> 's \<Rightarrow> bool"
  for acquire release where
  here: "pool_reach acquire release st st"
| after_acquire: "acquire st = Some (p, st1) \<Longrightarrow> pool_reach acquire release st1 st' \<Longrightarrow> pool_reach acquire release st st'"
| after_release: "pool_reach acquire release (release x st) st' \<Longrightarrow> pool_reach acquire release st st'"

locale steady_pool = object_pool acquire release objs "\<lambda>_. True" inv
  for acquire :: "'s \<Rightarrow> (nat option \<times> 's) option" and release and objs and inv
begin

lemma acquire_cases:
  assumes "inv st"
  obtains (none) st' where "acquire st = Some (None, st')" "inv st'" "objs st' = objs st"
  | (some) x st' where "acquire st = Some (Some x, st')" "inv st'" "x \<notin> objs st" "objs st' = insert x (objs st)"
proof -
  obtain p st' where a: "acquire st = Some (p, st')" using acquire_total [OF assms] by fastforce
  note I = acquire_inv [OF assms TrueI a]
  show thesis
  proof (cases p)
    case None
    then show thesis using none a I acquire_none [OF assms TrueI] by auto
  next
    case (Some x)
    then show thesis using some a I acquire_new [OF assms TrueI] by auto
  qed
qed

end

definition always :: "reclaim_hooks \<Rightarrow> percpu option \<Rightarrow> slab \<times> buddy \<Rightarrow> bool" where
  "always env cpu st \<longleftrightarrow>
     (\<forall>st'. pool_reach (slab_acquire env cpu) slab_release st st' \<longrightarrow> hooks_respect env (slab_frames (fst st')))"

definition steady :: "reclaim_hooks \<Rightarrow> percpu option \<Rightarrow> slab \<times> buddy \<Rightarrow> bool" where
  "steady env cpu st \<longleftrightarrow> pool_ok st \<and> always env cpu st"

lemma alwaysI:
  "(\<And>st'. pool_reach (slab_acquire env cpu) slab_release st st' \<Longrightarrow> hooks_respect env (slab_frames (fst st')))
     \<Longrightarrow> always env cpu st"
  unfolding always_def by (intro allI impI)

lemma alwaysD:
  "always env cpu st \<Longrightarrow> pool_reach (slab_acquire env cpu) slab_release st st' \<Longrightarrow>
     hooks_respect env (slab_frames (fst st'))"
  unfolding always_def by (elim allE impE)

lemma always_steps:
  assumes "always env cpu st"
  shows "hooks_respect env (slab_frames (fst st))"
    and "slab_acquire env cpu st = Some (p, st1) \<Longrightarrow> always env cpu st1"
    and "always env cpu (slab_release x st)"
  by (rule alwaysD [OF assms pool_reach.here])
     (blast intro: alwaysI alwaysD [OF assms] pool_reach.after_acquire pool_reach.after_release)+

lemma steadyD:
  assumes "steady env cpu st"
  shows "pool_ok st" and "hooks_respect env (slab_frames (fst st))" and "always env cpu st"
  using assms always_steps(1) unfolding steady_def by blast+

interpretation steady_slab: steady_pool "slab_acquire env cpu" slab_release "\<lambda>st. live (fst st)" "steady env cpu"
  for env cpu
proof (unfold_locales, goal_cases)
  case (1 st)
  then show ?case by (intro slab_pool.acquire_total steadyD)
next
  case (2 st p st')
  have "pool_ok st'" by (rule slab_pool.acquire_inv [OF steadyD(1,2) [OF 2(1)] 2(3)])
  moreover have "always env cpu st'" by (rule always_steps(2) [OF steadyD(3) [OF 2(1)] 2(3)])
  ultimately show ?case unfolding steady_def ..
next
  case (3 st x st')
  show ?case by (rule slab_pool.acquire_new [OF steadyD(1,2) [OF 3(1)] 3(3)])
next
  case (4 st st')
  show ?case by (rule slab_pool.acquire_none [OF steadyD(1,2) [OF 4(1)] 4(3)])
next
  case (5 st x)
  have "pool_ok (slab_release x st) \<and> live (fst (slab_release x st)) = live (fst st) - {x}"
    by (rule slab_release_ok [OF steadyD(1) [OF 5(1)] 5(2)])
  moreover have "always env cpu (slab_release x st)" by (rule always_steps(3) [OF steadyD(3) [OF 5(1)]])
  ultimately show ?case unfolding steady_def by blast
qed

end
