(* ===== verification/Vma_Props.thy ===== *)
theory Vma_Props
  imports Vma_Gap Mm_Props Steady_Pool
begin

section \<open>Properties of the area tree\<close>

text \<open>
  The tree operations over any object pool, and the properties of the tree with the kernel's slab
  as that pool.
\<close>

definition new_area :: "nat \<Rightarrow> nat \<Rightarrow> int \<Rightarrow> int \<Rightarrow> vma" where
  "new_area s e prot flags =
     \<lparr>v_start = s, v_end = e, v_prot = prot, v_flags = flags, file_ino = 0, file_offset = 0, file_backend = 0\<rparr>"

definition inserted :: "nat option \<Rightarrow> vma \<Rightarrow> vtree \<Rightarrow> vtree \<Rightarrow> bool" where
  "inserted p v root root' \<longleftrightarrow>
     (case p of None \<Rightarrow> root' = root
      | Some i \<Rightarrow> i \<notin> set (ids root) \<and> mset (inorder root') = add_mset (i, v) (mset (inorder root)))"

lemma set_ids_insert: "mset (inorder t') = add_mset (i, v) (mset (inorder t)) \<Longrightarrow> set (ids t') = insert i (set (ids t))"
  by (drule arg_cong [where f = "\<lambda>m. fst ` set_mset m"]) (simp add: ids_def)

context object_pool
begin

lemma vma_insert_pool:
  assumes "inv st" "rely st" "vma_inv root" "set (ids root) \<subseteq> objs st"
    and "no_overlap (inorder root) s e" "s < e"
  shows "\<exists>p st' root'. vma_insert acquire st root s e prot flags = Some (p, st', root') \<and> inv st' \<and>
    vma_inv root' \<and> set (ids root') \<subseteq> objs st' \<and> inserted p (new_area s e prot flags) root root'"
proof -
  obtain p st' where a: "acquire st = Some (p, st')" using acquire_total [OF assms(1,2)] by fastforce
  note I = acquire_inv [OF assms(1,2) a]
  show ?thesis
  proof (cases p)
    case None
    then show ?thesis
      using a I assms(3,4) acquire_none [OF assms(1,2)] by (simp add: vma_insert_def inserted_def)
  next
    case (Some i)
    let ?r = "insert_node root i (new_area s e prot flags)"
    have n: "i \<notin> objs st" "objs st' = insert i (objs st)"
      using acquire_new [OF assms(1,2)] a Some by auto
    then have "i \<notin> set (ids root)" using assms(4) by blast
    then have r: "vma_inv ?r" "mset (inorder ?r) = add_mset (i, new_area s e prot flags) (mset (inorder root))"
      using insert_node_inv [OF assms(3)] assms(5,6) by (simp_all add: new_area_def)
    have "set (ids ?r) \<subseteq> objs st'" using set_ids_insert [OF r(2)] n(2) assms(4) by auto
    with a Some I r \<open>i \<notin> set (ids root)\<close> show ?thesis
      by (simp add: vma_insert_def inserted_def new_area_def)
  qed
qed

lemma vma_remove_pool:
  assumes "inv st" "vma_inv root" "set (ids root) \<subseteq> objs st" "(t, d) \<in> set (inorder root)"
    and "vma_remove release st root t (v_start d) = (st', root')"
  shows "inv st' \<and> vma_inv root' \<and> set (ids root') \<subseteq> objs st' \<and> areas root' = [a \<leftarrow> areas root. a \<noteq> d] \<and>
    (\<exists>rm\<in>set (ids root). objs st' = objs st - {rm} \<and> set (ids root') = set (ids root) - {rm})"
proof -
  note R = remove_node_inv [OF assms(2,4)]
  obtain rm where rm: "rm \<in> set (ids root)" "snd (remove_node root t (v_start d)) = Some rm"
    "set (ids (fst (remove_node root t (v_start d)))) = set (ids root) - {rm}"
    using R(2) by blast
  have e: "st' = release rm st" "root' = fst (remove_node root t (v_start d))"
    using assms(5) rm(2) by (auto simp: vma_remove_def split_beta Let_def)
  have "inv st'" "objs st' = objs st - {rm}" using release_ok [OF assms(1)] rm(1) assms(3) e(1) by auto
  with R(1,3) rm e(2) assms(3) show ?thesis by auto
qed

end

subsection \<open>A small address space\<close>

definition area :: "nat \<Rightarrow> nat \<Rightarrow> vma" where
  "area s e = new_area s e 3 0x22"

definition small_space :: vtree where
  "small_space =
     Node 0x9000 (area 0x4000 0x6000) 2
       (Node 0x9040 (area 0x1000 0x2000) 1 Tip Tip) (Node 0x9080 (area 0x9000 0xA000) 1 Tip Tip)"

lemma small_space_inv: "vma_inv small_space"
  by (simp add: vma_inv_def small_space_def disjoint_areas_def ids_def area_def new_area_def)

text \<open>\<open>vma_find\<close> returns a node exactly when that node is in the tree and its area contains the
  address.\<close>

theorem vma_find_correct:
  assumes "vma_inv root"
  shows "vma_find root addr = Some (i, d) \<longleftrightarrow> (i, d) \<in> set (inorder root) \<and> v_start d \<le> addr \<and> addr < v_end d"
  using assms by (simp add: vma_inv_def vma_find_spec)

theorem vma_find_correct_witness: "vma_find small_space 0x5FFF = Some (0x9000, area 0x4000 0x6000)"
  using vma_find_correct [OF small_space_inv, of "0x5FFF" "0x9000" "area 0x4000 0x6000"]
  by (simp add: small_space_def area_def new_area_def)

text \<open>\<open>vma_find_overlap\<close> prunes subtrees by start address only, and still finds an overlapping
  area whenever there is one; what it returns overlaps.\<close>

theorem vma_find_overlap_correct:
  assumes "vma_inv root"
  shows "case vma_find_overlap root s e of
           None \<Rightarrow> no_overlap (inorder root) s e
         | Some (i, d) \<Rightarrow> (i, d) \<in> set (inorder root) \<and> v_start d < e \<and> s < v_end d"
  using assms vma_find_overlap_None [of root s e] vma_find_overlap_Some [of root s e]
  by (auto simp: vma_inv_def split: option.splits)

theorem vma_find_overlap_correct_witness:
  "case vma_find_overlap small_space 0x2000 0x4000 of
     None \<Rightarrow> no_overlap (inorder small_space) 0x2000 0x4000 | Some (i, d) \<Rightarrow> v_start d < 0x4000"
  using vma_find_overlap_correct [OF small_space_inv, of "0x2000" "0x4000"]
  by (auto split: option.splits)

text \<open>\<open>vma_find_above\<close> returns the lowest area that starts above the address.\<close>

theorem vma_find_above_correct:
  assumes "vma_inv root"
  shows "case vma_find_above root addr of
           None \<Rightarrow> (\<forall>x\<in>set (inorder root). v_start (snd x) \<le> addr)
         | Some x \<Rightarrow> x \<in> set (inorder root) \<and> addr < v_start (snd x) \<and>
             (\<forall>y\<in>set (inorder root). addr < v_start (snd y) \<longrightarrow> v_start (snd x) \<le> v_start (snd y))"
proof -
  let ?f = "[x \<leftarrow> inorder root. addr < v_start (snd x)]"
  have s: "sorted_wrt before ?f" using vma_inv_sorted [OF assms] by (rule sorted_wrt_filter)
  show ?thesis
  proof (cases ?f)
    case Nil
    then have "\<forall>x\<in>set (inorder root). v_start (snd x) \<le> addr" by (simp add: filter_empty_conv not_less)
    then show ?thesis
      using Nil find_above_spec [OF vma_inv_sorted [OF assms], of None addr] by (simp add: vma_find_above_def)
  next
    case (Cons x xs)
    have "x \<in> set ?f" "\<forall>y\<in>set ?f. v_start (snd x) \<le> v_start (snd y)"
      using s unfolding Cons by (auto simp: before_def)
    then have "x \<in> set (inorder root)" "addr < v_start (snd x)"
      "\<forall>y\<in>set (inorder root). addr < v_start (snd y) \<longrightarrow> v_start (snd x) \<le> v_start (snd y)" by auto
    then show ?thesis
      using Cons find_above_spec [OF vma_inv_sorted [OF assms], of None addr] by (simp add: vma_find_above_def)
  qed
qed

theorem vma_find_above_correct_witness:
  "case vma_find_above small_space 0x4000 of
     None \<Rightarrow> False | Some x \<Rightarrow> v_start (snd x) = 0x9000"
  using vma_find_above_correct [OF small_space_inv, of "0x4000"]
  by (auto simp: small_space_def area_def new_area_def vma_find_above_def)

text \<open>C12: inserting an area that overlaps none keeps the tree balanced, its areas disjoint and its
  nodes distinct live objects of the slab, and adds exactly the new area; when the slab is
  exhausted the tree is unchanged.\<close>

theorem vma_insert_correct:
  assumes "pool_ok st" and "hooks_respect env (slab_frames (fst st))"
    and "vma_inv root" and "set (ids root) \<subseteq> live (fst st)"
    and "no_overlap (inorder root) s e" and "s < e"
  shows "\<exists>p st' root'. vma_insert (slab_acquire env cpu) st root s e prot flags = Some (p, st', root') \<and>
    pool_ok st' \<and> vma_inv root' \<and> set (ids root') \<subseteq> live (fst st') \<and>
    (case p of None \<Rightarrow> root' = root
     | Some i \<Rightarrow> i \<notin> set (ids root) \<and> mset (inorder root') =
         add_mset (i, \<lparr>v_start = s, v_end = e, v_prot = prot, v_flags = flags, file_ino = 0,
                       file_offset = 0, file_backend = 0\<rparr>) (mset (inorder root)))"
  using slab_pool.vma_insert_pool [OF assms] by (simp add: inserted_def new_area_def)

theorem vma_insert_correct_witness:
  "\<exists>p st' root'. vma_insert (slab_acquire idle_hooks None) (small_pool, small_buddy) Tip 0x1000 0x3000 3 2 =
     Some (p, st', root') \<and> vma_inv root'"
  using vma_insert_correct [of "(small_pool, small_buddy)" idle_hooks Tip "0x1000" "0x3000" None 3 2]
  by (auto simp: pool_ok_def small_pool_ok vma_inv_def disjoint_areas_def ids_def no_overlap_def)

text \<open>C13: removing a node keeps the invariant, drops exactly its area, and frees exactly one node,
  which the tree no longer refers to, although with two children the freed node is another one
  than the node named by the caller.\<close>

theorem vma_remove_correct:
  assumes "pool_ok st" and "vma_inv root" and "set (ids root) \<subseteq> live (fst st)"
    and "(t, d) \<in> set (inorder root)"
    and "vma_remove slab_release st root t (v_start d) = (st', root')"
  shows "pool_ok st' \<and> vma_inv root' \<and> set (ids root') \<subseteq> live (fst st') \<and>
    areas root' = [a \<leftarrow> areas root. a \<noteq> d] \<and>
    (\<exists>rm\<in>set (ids root). live (fst st') = live (fst st) - {rm} \<and> set (ids root') = set (ids root) - {rm})"
  using slab_pool.vma_remove_pool [OF assms] .

definition full_pool :: slab where
  "full_pool = (slab_init 0x9000 64 3)\<lparr>free_list := [], used := 3\<rparr>"

lemma full_pool_ok: "slab_inv full_pool" "live full_pool = {0x9000, 0x9040, 0x9080}" "slab_frames full_pool = {}"
  "obj_size full_pool = 64"
proof -
  have sl: "slots full_pool = [0x9000, 0x9040, 0x9080]"
    by (simp add: full_pool_def slots_def slab_init_def build_free_list_eq upt_conv_Cons)
  then show lv: "live full_pool = {0x9000, 0x9040, 0x9080}" by (auto simp: live_def full_pool_def)
  show "slab_inv full_pool"
    using sl by (simp add: slab_inv_def lv) (simp add: full_pool_def slab_init_def build_free_list_eq)
  show "slab_frames full_pool = {}" "obj_size full_pool = 64"
    by (simp_all add: full_pool_def slab_frames_def slab_init_def build_free_list_eq)
qed

theorem vma_remove_correct_witness:
  "areas (snd (vma_remove slab_release (full_pool, small_buddy) small_space 0x9000 0x4000)) =
     [area 0x1000 0x2000, area 0x9000 0xA000]"
proof -
  let ?st = "(full_pool, small_buddy)" and ?d = "area 0x4000 0x6000"
  have ok: "pool_ok ?st" "set (ids small_space) \<subseteq> live (fst ?st)" "(0x9000, ?d) \<in> set (inorder small_space)"
    by (simp_all add: pool_ok_def full_pool_ok ids_def small_space_def)
  have ar: "areas small_space = [area 0x1000 0x2000, ?d, area 0x9000 0xA000]" by (simp add: small_space_def)
  have st: "v_start ?d = 0x4000" "area 0x1000 0x2000 \<noteq> ?d" "area 0x9000 0xA000 \<noteq> ?d"
    by (simp_all add: area_def new_area_def)
  have "areas (snd (vma_remove slab_release ?st small_space 0x9000 (v_start ?d))) = [a \<leftarrow> areas small_space. a \<noteq> ?d]"
    using vma_remove_correct [OF ok(1) small_space_inv ok(2,3) surjective_pairing] by blast
  then show ?thesis unfolding ar st(1) using st(2,3) by simp
qed




text \<open>CX: the upward search returns the lowest page-aligned address from \<open>start\<close> on at which \<open>len\<close>
  bytes are free below the user-space ceiling, and zero when there is none.\<close>

theorem vma_find_free_above_lowest:
  assumes "vma_inv root" and "length (inorder root) + 1 \<le> 2 ^ 32" and "\<forall>a\<in>set (areas root). v_end a \<le> 2 ^ 47"
    and "0 < start" "start \<le> 2 ^ 47" and "0 < len" "len \<le> 2 ^ 47"
  shows "lowest (free_at (areas root) start (2 ^ 47) len) (vma_find_free_above root start len)"
proof -
  have inv: "avl root" "disjoint_areas (inorder root)" using assms(1) by (auto simp: vma_inv_def)
  note M = PAGE_MASK_UP_ok [OF assms(5)]
  have e: "vma_find_free_above root start len = scan_up len (PAGE_MASK_UP start) (areas root)"
    using free_up_scan [of root "[]" len "PAGE_MASK_UP start"] avl_depth_64 [OF inv(1) assms(2)]
    by (simp add: vma_find_free_above_def todo_up_def)
  have "lowest (free_at (areas root) (PAGE_MASK_UP start) (2 ^ 47) len) (scan_up len (PAGE_MASK_UP start) (areas root))"
    by (rule scan_up_lowest) (use areas_disjoint [OF inv(2)] assms(3,6,7) M(1,3) in auto)
  moreover have "free_at (areas root) (PAGE_MASK_UP start) (2 ^ 47) len = free_at (areas root) start (2 ^ 47) len"
    using M(2,4) by (intro ext) (auto simp: free_at_def)
  ultimately show ?thesis by (simp add: e)
qed

theorem vma_find_free_above_lowest_witness:
  "lowest (free_at (areas small_space) 0x1800 (2 ^ 47) 0x2000) (vma_find_free_above small_space 0x1800 0x2000)"
  by (rule vma_find_free_above_lowest [OF small_space_inv])
     (simp_all add: small_space_def area_def new_area_def)

end
