(* ===== verification/Mmap.thy ===== *)
theory Mmap
  imports Vma_Props
begin

unbundle bit_operations_syntax

section \<open>Address-space system calls (\<^verbatim>\<open>src/kernel/sys/sys_mem.c\<close>)\<close>

text \<open>
  The bookkeeping of areas by \<^verbatim>\<open>munmap\<close>, \<^verbatim>\<open>mprotect\<close>, \<^verbatim>\<open>mlock\<close>, \<^verbatim>\<open>munlock\<close> and \<^verbatim>\<open>mmap\<close>. A pointer
  to an area is its node, and a write through it updates that node in the tree. The page-table
  walks between these steps do not read or change the tree and are left out. The loops that search
  again after each change carry fuel; \<open>None\<close> is a missing object pool or fuel that ran out.
\<close>

definition USER_CEILING :: nat where "USER_CEILING = 0x800000000000"
definition USER_MMAP_BASE :: nat where "USER_MMAP_BASE = 0x7F0000000000"
definition VMA_LOCKED :: int where "VMA_LOCKED = 0x100"
definition VMA_SHARED :: int where "VMA_SHARED = 0x200"
definition VMA_HUGEPAGE :: int where "VMA_HUGEPAGE = 0x400"
definition MAP_SHARED :: int where "MAP_SHARED = 0x01"
definition MAP_FIXED :: int where "MAP_FIXED = 0x10"
definition MAP_ANONYMOUS :: int where "MAP_ANONYMOUS = 0x20"
definition MAP_LOCKED :: int where "MAP_LOCKED = 0x2000"
definition MAP_FIXED_NOREPLACE :: int where "MAP_FIXED_NOREPLACE = 0x100000"
definition MCL_FUTURE :: int where "MCL_FUTURE = 2"
definition HUGE_PAGE_SIZE :: nat where "HUGE_PAGE_SIZE = 0x200000"

text \<open>A write through a pointer to a node.\<close>

fun set_vma :: "nat \<Rightarrow> (vma \<Rightarrow> vma) \<Rightarrow> vtree \<Rightarrow> vtree" where
  "set_vma i f Tip = Tip"
| "set_vma i f (Node j d h l r) = Node j (if j = i then f d else d) h (set_vma i f l) (set_vma i f r)"

text \<open>The file offset at address \<open>a\<close> of an area.\<close>

definition split_foff :: "vma \<Rightarrow> nat \<Rightarrow> nat" where
  "split_foff v a = (if file_ino v \<noteq> 0 then (file_offset v + (a - v_start v)) mod 2 ^ 64 else 0)"

text \<open>Inserting the part of \<open>v\<close> on \<open>[s, e)\<close> as an area of its own.\<close>

definition insert_part ::
  "('s \<Rightarrow> (nat option \<times> 's) option) \<Rightarrow> 's \<Rightarrow> vtree \<Rightarrow> nat \<Rightarrow> nat \<Rightarrow> vma \<Rightarrow> nat \<Rightarrow> ('s \<times> vtree) option" where
  "insert_part alloc st root s e v foff =
     (case vma_insert alloc st root s e (v_prot v) (v_flags v) of
        None \<Rightarrow> None
      | Some (None, st', root') \<Rightarrow> Some (st', root')
      | Some (Some j, st', root') \<Rightarrow>
          Some (st',
            if file_ino v \<noteq> 0
            then set_vma j (\<lambda>d. d\<lparr>file_ino := file_ino v, file_offset := foff,
                                  file_backend := file_backend v\<rparr>) root'
            else root'))"

subsection \<open>\<^verbatim>\<open>munmap\<close>\<close>

definition munmap_range :: "nat \<Rightarrow> nat \<Rightarrow> (nat \<times> nat) result" where
  "munmap_range addr len =
     (if addr mod 0x1000 \<noteq> 0 then Inl EINVAL
      else if USER_CEILING \<le> addr then Inl EINVAL
      else let len' = PAGE_MASK_UP len in
        if (addr + len') mod 2 ^ 64 < addr then Inl EINVAL
        else if USER_CEILING < (addr + len') mod 2 ^ 64 then Inl EINVAL
        else Inr (addr, (addr + len') mod 2 ^ 64))"

fun munmap_loop ::
  "nat \<Rightarrow> ('s \<Rightarrow> (nat option \<times> 's) option) \<Rightarrow> (nat \<Rightarrow> 's \<Rightarrow> 's) \<Rightarrow> 's \<Rightarrow> vtree \<Rightarrow> nat \<Rightarrow> nat \<Rightarrow> ('s \<times> vtree) option" where
  "munmap_loop 0 alloc release st root s e = None"
| "munmap_loop (Suc n) alloc release st root s e =
     (case vma_find_overlap root s e of
        None \<Rightarrow> Some (st, root)
      | Some (i, v) \<Rightarrow>
          if s \<le> v_start v \<and> v_end v \<le> e then
            let (st', root') = vma_remove release st root i (v_start v)
            in munmap_loop n alloc release st' root' s e
          else if v_start v < s \<and> e < v_end v then
            insert_part alloc st (set_vma i (\<lambda>d. d\<lparr>v_end := s\<rparr>) root) e (v_end v) v (split_foff v e)
          else if v_start v < s then
            munmap_loop n alloc release st (set_vma i (\<lambda>d. d\<lparr>v_end := s\<rparr>) root) s e
          else
            let (st1, root1) = vma_remove release st root i (v_start v) in
            (case insert_part alloc st1 root1 e (v_end v) v (split_foff v e) of
               None \<Rightarrow> None
             | Some (st2, root2) \<Rightarrow> munmap_loop n alloc release st2 root2 s e))"

subsection \<open>\<^verbatim>\<open>mprotect\<close>, \<^verbatim>\<open>mlock\<close>, \<^verbatim>\<open>munlock\<close>\<close>

definition mprotect_range :: "nat \<Rightarrow> nat \<Rightarrow> (nat \<times> nat) option result" where
  "mprotect_range addr len =
     (if addr mod 0x1000 \<noteq> 0 then Inl EINVAL
      else if USER_CEILING \<le> addr then Inl ENOMEM
      else let len' = PAGE_MASK_UP len in
        if len' = 0 then Inr None
        else if (addr + len') mod 2 ^ 64 < addr \<or> USER_CEILING < (addr + len') mod 2 ^ 64 then Inl ENOMEM
        else Inr (Some (addr, (addr + len') mod 2 ^ 64)))"

fun mprotect_loop ::
  "nat \<Rightarrow> ('s \<Rightarrow> (nat option \<times> 's) option) \<Rightarrow> 's \<Rightarrow> vtree \<Rightarrow> nat \<Rightarrow> nat \<Rightarrow> nat \<Rightarrow> int \<Rightarrow> ('s \<times> vtree) option" where
  "mprotect_loop 0 alloc st root s e probe prot = None"
| "mprotect_loop (Suc n) alloc st root s e probe prot =
     (if \<not> probe < e then Some (st, root)
      else case vma_find_overlap root probe e of
        None \<Rightarrow> Some (st, root)
      | Some (i, v) \<Rightarrow>
          let probe' = (if probe < v_start v then v_start v else probe) in
          if v_start v < s then
            (case insert_part alloc st (set_vma i (\<lambda>d. d\<lparr>v_end := s\<rparr>) root) s (v_end v) v (split_foff v s) of
               None \<Rightarrow> None
             | Some (st', root') \<Rightarrow> mprotect_loop n alloc st' root' s e probe' prot)
          else
            (case (if e < v_end v then insert_part alloc st root e (v_end v) v (split_foff v e)
                   else Some (st, root)) of
               None \<Rightarrow> None
             | Some (st', root') \<Rightarrow>
                 let ve = min e (v_end v);
                     root'' = set_vma i (\<lambda>d. d\<lparr>v_end := ve, v_prot := prot\<rparr>) root'
                 in mprotect_loop n alloc st' root'' s e ve prot))"

definition mlock_range :: "nat \<Rightarrow> nat \<Rightarrow> (nat \<times> nat) option result" where
  "mlock_range addr len =
     (let a = page_down addr; len' = PAGE_MASK_UP len in
      if len' = 0 then Inr None
      else if (a + len') mod 2 ^ 64 < a \<or> USER_CEILING < (a + len') mod 2 ^ 64 then Inl ENOMEM
      else Inr (Some (a, (a + len') mod 2 ^ 64)))"

text \<open>The loop of \<^verbatim>\<open>mlock\<close> and \<^verbatim>\<open>munlock\<close>, which differ in how they change the flags.\<close>

fun mlock_loop :: "nat \<Rightarrow> (int \<Rightarrow> int) \<Rightarrow> vtree \<Rightarrow> nat \<Rightarrow> nat \<Rightarrow> vtree option" where
  "mlock_loop 0 f root va e = None"
| "mlock_loop (Suc n) f root va e =
     (if \<not> va < e then Some root
      else case vma_find_overlap root va e of
        None \<Rightarrow> Some root
      | Some (i, v) \<Rightarrow> mlock_loop n f (set_vma i (\<lambda>d. d\<lparr>v_flags := f (v_flags d)\<rparr>) root) (v_end v) e)"

definition mlock_vmas :: "nat \<Rightarrow> vtree \<Rightarrow> nat \<Rightarrow> nat \<Rightarrow> vtree option" where
  "mlock_vmas n root va e = mlock_loop n (\<lambda>x. x OR VMA_LOCKED) root va e"

definition munlock_vmas :: "nat \<Rightarrow> vtree \<Rightarrow> nat \<Rightarrow> nat \<Rightarrow> vtree option" where
  "munlock_vmas n root va e = mlock_loop n (\<lambda>x. x AND NOT VMA_LOCKED) root va e"

subsection \<open>\<^verbatim>\<open>mmap\<close>\<close>

text \<open>Clearing \<open>[s, e)\<close> for a fixed mapping: one overlapping area, then the loop.\<close>

definition carve_one ::
  "('s \<Rightarrow> (nat option \<times> 's) option) \<Rightarrow> (nat \<Rightarrow> 's \<Rightarrow> 's) \<Rightarrow> 's \<Rightarrow> vtree \<Rightarrow> nat \<Rightarrow> nat \<Rightarrow> nat \<times> vma \<Rightarrow> ('s \<times> vtree) option" where
  "carve_one alloc release st root s e ov =
     (let i = fst ov; v = snd ov in
      if v_start v < s \<and> e < v_end v then
        insert_part alloc st (set_vma i (\<lambda>d. d\<lparr>v_end := s\<rparr>) root) e (v_end v) v (split_foff v e)
      else if v_start v < s then Some (st, set_vma i (\<lambda>d. d\<lparr>v_end := s\<rparr>) root)
      else if e < v_end v then
        (let (st1, root1) = vma_remove release st root i (v_start v)
         in insert_part alloc st1 root1 e (v_end v) v (split_foff v e))
      else Some (vma_remove release st root i (v_start v)))"

fun mmap_fixed_loop ::
  "nat \<Rightarrow> ('s \<Rightarrow> (nat option \<times> 's) option) \<Rightarrow> (nat \<Rightarrow> 's \<Rightarrow> 's) \<Rightarrow> 's \<Rightarrow> vtree \<Rightarrow> nat \<Rightarrow> nat \<Rightarrow> ('s \<times> vtree) option" where
  "mmap_fixed_loop 0 alloc release st root s e = None"
| "mmap_fixed_loop (Suc n) alloc release st root s e =
     (case vma_find_overlap root s e of
        None \<Rightarrow> Some (st, root)
      | Some ov \<Rightarrow>
          (case carve_one alloc release st root s e ov of
             None \<Rightarrow> None
           | Some (st', root') \<Rightarrow>
               (case vma_find root' s of
                  None \<Rightarrow> Some (st', root')
                | Some nv \<Rightarrow>
                    if e \<le> v_start (snd nv) then Some (st', root')
                    else mmap_fixed_loop n alloc release st' root' s e)))"

text \<open>The address of a mapping that is not fixed, and the new value of \<^verbatim>\<open>mmap_next\<close>.\<close>

definition mmap_place :: "vtree \<Rightarrow> nat \<Rightarrow> nat \<Rightarrow> nat \<Rightarrow> (nat \<times> nat) result" where
  "mmap_place root mmap_next addr len =
     (let hint = page_down addr;
          vaddr = (if addr = 0 then 0
                   else if vma_find_overlap root hint ((hint + len) mod 2 ^ 64) = None then hint
                   else vma_find_free_above root hint len)
      in if vaddr \<noteq> 0 then Inr (vaddr, mmap_next)
         else let v1 = vma_find_free root mmap_next len;
                  v2 = (if v1 = 0 then vma_find_free root USER_MMAP_BASE len else v1)
              in if v2 = 0 then Inl ENOMEM else Inr (v2, v2))"

definition mmap_vma_flags :: "int \<Rightarrow> int \<Rightarrow> nat \<Rightarrow> int" where
  "mmap_vma_flags flags mlockall_flags len =
     (let f0 = (if flags AND MAP_SHARED \<noteq> 0 then flags OR VMA_SHARED else flags);
          f1 = (if f0 AND MAP_LOCKED \<noteq> 0 \<or> mlockall_flags AND MCL_FUTURE \<noteq> 0 then f0 OR VMA_LOCKED else f0)
      in if f0 AND MAP_ANONYMOUS \<noteq> 0 \<and> HUGE_PAGE_SIZE \<le> len then f1 OR VMA_HUGEPAGE else f1)"

text \<open>An anonymous mapping from the computation of its length to the insertion of its area.\<close>

record mm_state =
  vma_root :: vtree
  mmap_next :: nat
  mlockall_flags :: int

definition mmap_anon ::
  "nat \<Rightarrow> ('s \<Rightarrow> (nat option \<times> 's) option) \<Rightarrow> (nat \<Rightarrow> 's \<Rightarrow> 's) \<Rightarrow> 's \<Rightarrow> mm_state \<Rightarrow> nat \<Rightarrow> nat \<Rightarrow> int \<Rightarrow> int
     \<Rightarrow> (nat result \<times> 's \<times> mm_state) option" where
  "mmap_anon n alloc release st p addr len0 prot flags =
     (let len = PAGE_MASK_UP len0;
          finish = (\<lambda>st' p' vaddr.
            case vma_insert alloc st' (vma_root p') vaddr ((vaddr + len) mod 2 ^ 64) prot
                   (mmap_vma_flags flags (mlockall_flags p') len) of
              None \<Rightarrow> None
            | Some (None, st2, root) \<Rightarrow> Some (Inl ENOMEM, st2, p'\<lparr>vma_root := root\<rparr>)
            | Some (Some _, st2, root) \<Rightarrow> Some (Inr vaddr, st2, p'\<lparr>vma_root := root\<rparr>))
      in if len = 0 then Some (Inl EINVAL, st, p)
      else if (addr + len) mod 2 ^ 64 < addr then Some (Inl EINVAL, st, p)
      else if addr \<noteq> 0 \<and> flags AND (MAP_FIXED OR MAP_FIXED_NOREPLACE) \<noteq> 0 then
        let vaddr = page_down addr; end' = (vaddr + len) mod 2 ^ 64 in
        if USER_CEILING < end' then Some (Inl ENOMEM, st, p)
        else if flags AND MAP_FIXED_NOREPLACE \<noteq> 0 \<and> vma_find_overlap (vma_root p) vaddr end' \<noteq> None
        then Some (Inl EEXIST, st, p)
        else case mmap_fixed_loop n alloc release st (vma_root p) vaddr end' of
               None \<Rightarrow> None
             | Some (st', root') \<Rightarrow> finish st' (p\<lparr>vma_root := root'\<rparr>) vaddr
      else case mmap_place (vma_root p) (mmap_next p) addr len of
             Inl err \<Rightarrow> Some (Inl err, st, p)
           | Inr (vaddr, nxt) \<Rightarrow> finish st (p\<lparr>mmap_next := nxt\<rparr>) vaddr)"

end
