(* ===== verification/Mmap_Props.thy ===== *)
theory Mmap_Props
  imports Mmap Steady_Pool
begin

section \<open>Properties of the address-space system calls\<close>

text \<open>
  What a process sees of its address space is a partial map from addresses to protection, flags and
  file position. The system calls are proved against that map: \<^verbatim>\<open>munmap\<close> removes a range from it.
  The node pool is any object pool whose environment assumption keeps holding.
\<close>

type_synonym attributes = "int \<times> int \<times> (nat \<times> nat \<times> int) option"

definition attr :: "vma \<Rightarrow> nat \<Rightarrow> attributes" where
  "attr d a =
     (v_prot d, v_flags d,
      if file_ino d \<noteq> 0 then Some (file_ino d, (file_offset d + (a - v_start d)) mod 2 ^ 64, file_backend d)
      else None)"

definition view :: "vtree \<Rightarrow> nat \<rightharpoonup> attributes" where
  "view root a = map_option (\<lambda>x. attr (snd x) a) (vma_find root a)"

subsection \<open>Trees as sets of areas\<close>

lemma inorder_set_vma:
  "inorder (set_vma i f t) = map (\<lambda>x. if fst x = i then (fst x, f (snd x)) else x) (inorder t)"
  by (induction t) auto

lemma avl_set_vma [simp]: "height (set_vma i f t) = height t" "avl (set_vma i f t) = avl t"
proof -
  have h: "height (set_vma i f t) = height t" for t by (cases t) auto
  show "height (set_vma i f t) = height t" by (rule h)
  show "avl (set_vma i f t) = avl t" by (induction t) (auto simp: h)
qed

lemma ids_set_vma [simp]: "ids (set_vma i f t) = ids t"
  by (simp add: ids_def inorder_set_vma comp_def if_distrib cong: if_cong)

lemma distinct_fst_eq: "distinct (map fst xs) \<Longrightarrow> (i, d) \<in> set xs \<Longrightarrow> (i, d') \<in> set xs \<Longrightarrow> d = d'"
  by (metis eq_key_imp_eq_value)

lemma sorted_wrt_map_weaken:
  assumes "sorted_wrt P xs" and "\<And>x y. x \<in> set xs \<Longrightarrow> y \<in> set xs \<Longrightarrow> P x y \<Longrightarrow> Q (g x) (g y)"
  shows "sorted_wrt Q (map g xs)"
  using assms by (induction xs) auto

text \<open>Shrinking an area from above.\<close>

lemma set_vma_inv:
  assumes "vma_inv t" and "(i, d) \<in> set (inorder t)"
    and "v_start (f d) = v_start d" "v_start d < v_end (f d)" "v_end (f d) \<le> v_end d"
  shows "vma_inv (set_vma i f t)"
    and "set (inorder (set_vma i f t)) = insert (i, f d) (set (inorder t) - {(i, d)})"
proof -
  have di: "distinct (map fst (inorder t))" and da: "disjoint_areas (inorder t)" and av: "avl t"
    using assms(1) by (auto simp: vma_inv_def ids_def)
  have u: "d' = d" if "(i, d') \<in> set (inorder t)" for d'
    using distinct_fst_eq [OF di assms(2) that] by simp
  let ?g = "\<lambda>x. if fst x = i then (fst x, f (snd x)) else x"
  have g: "v_start (snd (?g x)) = v_start (snd x)" "v_end (snd (?g x)) \<le> v_end (snd x)"
    "v_start (snd (?g x)) < v_end (snd (?g x))" if "x \<in> set (inorder t)" for x
    using that u [of "snd x"] assms(3-5) da by (auto simp: disjoint_areas_def)
  have "sorted_wrt (\<lambda>x y. v_end (snd x) \<le> v_start (snd y)) (map ?g (inorder t))"
    by (rule sorted_wrt_map_weaken [where P = "\<lambda>x y. v_end (snd x) \<le> v_start (snd y)"])
       (use da g in \<open>force simp: disjoint_areas_def\<close>)+
  moreover have "\<forall>y\<in>set (map ?g (inorder t)). v_start (snd y) < v_end (snd y)"
    using g(3) unfolding set_map by blast
  ultimately have "disjoint_areas (inorder (set_vma i f t))"
    unfolding disjoint_areas_def inorder_set_vma by blast
  then show "vma_inv (set_vma i f t)" using assms(1) by (simp add: vma_inv_def)
  show "set (inorder (set_vma i f t)) = insert (i, f d) (set (inorder t) - {(i, d)})"
  proof -
    let ?S = "set (inorder t)"
    have "?g x = x" if "x \<in> ?S - {(i, d)}" for x using that u [of "snd x"] by (cases x) auto
    then have im: "?g ` (?S - {(i, d)}) = ?S - {(i, d)}" by (rule image_cong [OF refl, of _ _ "\<lambda>x. x", simplified])
    have "?g ` ?S = ?g ` insert (i, d) (?S - {(i, d)})" using assms(2) by (simp only: insert_Diff)
    also have "\<dots> = insert (i, f d) (?S - {(i, d)})" unfolding image_insert im by simp
    finally show ?thesis unfolding inorder_set_vma set_map .
  qed
qed

lemma areas_pair:
  assumes "vma_inv t" and "d \<in> set (areas t)" "d' \<in> set (areas t)" "d \<noteq> d'"
  shows "v_end d \<le> v_start d' \<or> v_end d' \<le> v_start d"
proof -
  have s: "sorted_wrt (\<lambda>a b. v_end a \<le> v_start b \<or> v_end b \<le> v_start a) (areas t)"
    using assms(1) by (auto simp: vma_inv_def disjoint_areas_def areas_def sorted_wrt_map intro: sorted_wrt_mono_rel)
  show ?thesis by (rule sorted_wrt_pair [OF s assms(2-4)]) auto
qed

lemma areas_nonempty: "vma_inv t \<Longrightarrow> d \<in> set (areas t) \<Longrightarrow> v_start d < v_end d"
  by (auto simp: vma_inv_def disjoint_areas_def areas_def)

lemma view_iff:
  assumes "vma_inv t"
  shows "view t a = Some x \<longleftrightarrow> (\<exists>d\<in>set (areas t). v_start d \<le> a \<and> a < v_end d \<and> attr d a = x)"
proof -
  have da: "disjoint_areas (inorder t)" using assms by (simp add: vma_inv_def)
  have "view t a = Some x \<longleftrightarrow> (\<exists>i d. vma_find t a = Some (i, d) \<and> attr d a = x)"
    by (auto simp: view_def)
  also have "\<dots> \<longleftrightarrow> (\<exists>d\<in>set (areas t). v_start d \<le> a \<and> a < v_end d \<and> attr d a = x)"
    unfolding vma_find_spec [OF da] by (force simp: areas_def)
  finally show ?thesis .
qed

lemma view_None:
  assumes "vma_inv t"
  shows "view t a = None \<longleftrightarrow> (\<forall>d\<in>set (areas t). a < v_start d \<or> v_end d \<le> a)"
proof -
  have "view t a = None \<longleftrightarrow> (\<forall>x. view t a \<noteq> Some x)" by (cases "view t a") simp_all
  also have "\<dots> \<longleftrightarrow> (\<forall>d\<in>set (areas t). \<not> (v_start d \<le> a \<and> a < v_end d))"
    unfolding view_iff [OF assms] by blast
  also have "\<dots> \<longleftrightarrow> (\<forall>d\<in>set (areas t). a < v_start d \<or> v_end d \<le> a)" by (simp add: not_le not_less)
  finally show ?thesis .
qed

lemma view_eqI:
  assumes "vma_inv t" "vma_inv t'"
    and "\<And>d. v_start d \<le> a \<Longrightarrow> a < v_end d \<Longrightarrow> d \<in> set (areas t) \<Longrightarrow>
           \<exists>d'\<in>set (areas t'). v_start d' \<le> a \<and> a < v_end d' \<and> attr d' a = attr d a"
    and "\<And>d. v_start d \<le> a \<Longrightarrow> a < v_end d \<Longrightarrow> d \<in> set (areas t') \<Longrightarrow>
           \<exists>d'\<in>set (areas t). v_start d' \<le> a \<and> a < v_end d' \<and> attr d' a = attr d a"
  shows "view t a = view t' a"
proof (cases "view t a")
  case None
  then have "view t' a = None"
    unfolding view_None [OF assms(1)] view_None [OF assms(2)] using assms(4) by (meson leD linorder_not_le)
  with None show ?thesis by simp
next
  case (Some x)
  then have "view t' a = Some x"
    unfolding view_iff [OF assms(1)] view_iff [OF assms(2)] using assms(3) by fast
  with Some show ?thesis by simp
qed

subsection \<open>Parts of an area\<close>

definition part :: "vma \<Rightarrow> nat \<Rightarrow> nat \<Rightarrow> nat \<Rightarrow> vma" where
  "part v s e foff =
     \<lparr>v_start = s, v_end = e, v_prot = v_prot v, v_flags = v_flags v, file_ino = file_ino v,
      file_offset = (if file_ino v \<noteq> 0 then foff else 0), file_backend = (if file_ino v \<noteq> 0 then file_backend v else 0)\<rparr>"

lemma part_simps [simp]: "v_start (part v s e f) = s" "v_end (part v s e f) = e"
  by (simp_all add: part_def)

lemma attr_part:
  assumes "v_start v \<le> s" and "s \<le> a"
  shows "attr (part v s e (split_foff v s)) a = attr v a"
proof -
  have "((file_offset v + (s - v_start v)) mod 2 ^ 64 + (a - s)) mod 2 ^ 64 =
      (file_offset v + (s - v_start v) + (a - s)) mod 2 ^ 64" by (rule mod_add_left_eq)
  also have "file_offset v + (s - v_start v) + (a - s) = file_offset v + (a - v_start v)"
    using assms by linarith
  finally show ?thesis unfolding attr_def part_def split_foff_def by auto
qed

lemma attr_v_end [simp]: "attr (d\<lparr>v_end := e\<rparr>) a = attr d a"
  by (simp add: attr_def)

definition tree_ok :: "('s \<Rightarrow> bool) \<Rightarrow> ('s \<Rightarrow> nat set) \<Rightarrow> 's \<Rightarrow> vtree \<Rightarrow> bool" where
  "tree_ok I objs st root \<longleftrightarrow> I st \<and> vma_inv root \<and> set (ids root) \<subseteq> objs st"

context steady_pool
begin

lemma insert_part_ok:
  assumes ok: "tree_ok inv objs st root" and "no_overlap (inorder root) s e" "s < e"
  obtains st' root' where "insert_part acquire st root s e v foff = Some (st', root')" "tree_ok inv objs st' root'"
    "set (inorder root) \<subseteq> set (inorder root')"
    "set (areas root') = insert (part v s e foff) (set (areas root)) \<or>
     set (areas root') = set (areas root) \<and> (\<exists>st1 st2. inv st1 \<and> acquire st1 = Some (None, st2))"
proof -
  have ok': "inv st" "vma_inv root" "set (ids root) \<subseteq> objs st" using ok by (auto simp: tree_ok_def)
  obtain p st' root1 where I: "vma_insert acquire st root s e (v_prot v) (v_flags v) = Some (p, st', root1)"
    "inv st'" "vma_inv root1" "set (ids root1) \<subseteq> objs st'" "inserted p (new_area s e (v_prot v) (v_flags v)) root root1"
    using vma_insert_pool [OF ok'(1) TrueI ok'(2,3) assms(2,3)] by blast
  show thesis
  proof (cases p)
    case None
    then have "root1 = root" using I(5) by (simp add: inserted_def)
    moreover have "acquire st = Some (None, st')"
      using I(1) None by (auto simp: vma_insert_def split: option.splits)
    moreover have "insert_part acquire st root s e v foff = Some (st', root1)"
      using I(1) None by (simp add: insert_part_def)
    ultimately show thesis using that [of st' root1] I(2-4) ok'(1) by (auto simp: tree_ok_def)
  next
    case (Some j)
    let ?n = "new_area s e (v_prot v) (v_flags v)"
    let ?f = "\<lambda>d. d\<lparr>file_ino := file_ino v, file_offset := foff, file_backend := file_backend v\<rparr>"
    have j: "j \<notin> set (ids root)" "mset (inorder root1) = add_mset (j, ?n) (mset (inorder root))"
      using I(5) Some by (auto simp: inserted_def)
    have s1: "set (inorder root1) = insert (j, ?n) (set (inorder root))"
      using arg_cong [OF j(2), of set_mset] by simp
    show thesis
    proof (cases "file_ino v = 0")
      case True
      then have "part v s e foff = ?n" by (simp add: part_def new_area_def)
      moreover have "insert_part acquire st root s e v foff = Some (st', root1)"
        using I(1) Some True by (simp add: insert_part_def)
      ultimately show thesis using that [of st' root1] I(2-4) s1 by (auto simp: tree_ok_def areas_def)
    next
      case False
      have fn: "?f ?n = part v s e foff" using False by (simp add: part_def new_area_def)
      have jn: "(j, ?n) \<in> set (inorder root1)" "(j, ?n) \<notin> set (inorder root)"
        using s1 j(1) by (force simp: ids_def)+
      have fs: "v_start (?f ?n) = v_start ?n" "v_start ?n < v_end (?f ?n)" "v_end (?f ?n) \<le> v_end ?n"
        using assms(3) by (simp_all add: new_area_def)
      note S = set_vma_inv [OF I(3) jn(1), of ?f, OF fs]
      have s2: "set (inorder (set_vma j ?f root1)) = insert (j, part v s e foff) (set (inorder root))"
        unfolding S(2) fn using s1 jn(2) by blast
      moreover have "insert_part acquire st root s e v foff = Some (st', set_vma j ?f root1)"
        using I(1) Some False by (simp add: insert_part_def)
      ultimately show thesis
        using that [of st' "set_vma j ?f root1"] S(1) I(2,4) by (auto simp: tree_ok_def areas_def)
    qed
  qed
qed

end

subsection \<open>Cutting a range out of one area\<close>

definition overlapping :: "vtree \<Rightarrow> nat \<Rightarrow> nat \<Rightarrow> vma set" where
  "overlapping root s e = {d \<in> set (areas root). v_start d < e \<and> s < v_end d}"

text \<open>\<open>root'\<close> arises from \<open>root\<close> by replacing the area \<open>v\<close> by pieces of it outside \<open>[s, e)\<close>; with \<open>oom\<close> the
  piece above \<open>e\<close> may be missing.\<close>

definition pieces :: "bool \<Rightarrow> nat \<Rightarrow> nat \<Rightarrow> vma \<Rightarrow> vma set \<Rightarrow> bool" where
  "pieces oom s e v P \<longleftrightarrow>
     (\<forall>q\<in>P. v_start v \<le> v_start q \<and> v_end q \<le> v_end v \<and> (v_end q \<le> s \<or> e \<le> v_start q) \<and>
        (\<forall>a. v_start q \<le> a \<longrightarrow> attr q a = attr v a)) \<and>
     (\<forall>a. v_start v \<le> a \<longrightarrow> a < v_end v \<longrightarrow> \<not> (s \<le> a \<and> a < e) \<longrightarrow>
        (\<exists>q\<in>P. v_start q \<le> a \<and> a < v_end q) \<or> (e \<le> a \<and> oom))"

definition kept :: "bool \<Rightarrow> nat \<Rightarrow> nat \<Rightarrow> vtree \<Rightarrow> vtree \<Rightarrow> bool" where
  "kept oom s e root root' \<longleftrightarrow>
     view root' \<subseteq>\<^sub>m view root \<and>
     (\<forall>a. \<not> (s \<le> a \<and> a < e) \<longrightarrow> view root' a = view root a \<or> (e \<le> a \<and> oom))"

lemma kept_refl: "kept oom s e root root"
  by (simp add: kept_def)

lemma kept_trans: "kept oom s e r1 r2 \<Longrightarrow> kept oom s e r2 r3 \<Longrightarrow> kept oom s e r1 r3"
  unfolding kept_def by (metis map_le_trans)

lemma areas_diff:
  assumes "vma_inv t" and "(i, d) \<in> set (inorder t)"
  shows "snd ` (set (inorder t) - {(i, d)}) = set (areas t) - {d}"
proof -
  have "sorted_wrt before (inorder t)" by (rule vma_inv_sorted [OF assms(1)])
  then have "distinct (map snd (inorder t))"
    unfolding distinct_conv_nth by (auto simp: sorted_wrt_iff_nth_less before_def) (metis less_irrefl linorder_neqE_nat)
  then have "inj_on snd (set (inorder t))" by (simp add: distinct_map)
  then have "snd ` (set (inorder t) - {(i, d)}) = snd ` set (inorder t) - snd ` {(i, d)}"
    using assms(2) by (intro inj_on_image_set_diff) auto
  then show ?thesis by (simp add: areas_def)
qed

lemma pieces_kept:
  assumes inv: "vma_inv root" "vma_inv root'" and v: "v \<in> set (areas root)"
    and A: "set (areas root') = (set (areas root) - {v}) \<union> P" and P: "pieces oom s e v P"
  shows "overlapping root' s e \<subseteq> overlapping root s e - {v}" and "kept oom s e root root'"
proof -
  show "overlapping root' s e \<subseteq> overlapping root s e - {v}"
    using A P areas_nonempty [OF inv(2)] by (fastforce simp: overlapping_def pieces_def)
  have up: "\<exists>d'\<in>set (areas root). v_start d' \<le> a \<and> a < v_end d' \<and> attr d' a = attr d a"
    if "d \<in> set (areas root')" "v_start d \<le> a" "a < v_end d" for a d
  proof (cases "d \<in> P")
    case True
    then have "v_start v \<le> a" "a < v_end v" "attr d a = attr v a" using P that by (auto simp: pieces_def)
    then show ?thesis using v by force
  next
    case False
    then show ?thesis using A that by auto
  qed
  have "view root a = Some x" if "view root' a = Some x" for a x
    using that up unfolding view_iff [OF inv(1)] view_iff [OF inv(2)] by metis
  then have le: "view root' \<subseteq>\<^sub>m view root" by (auto simp: map_le_def)
  have "view root' a = view root a" if a: "\<not> (s \<le> a \<and> a < e)" "\<not> (e \<le> a \<and> oom)" for a
  proof (rule view_eqI [OF inv(2,1)])
    fix d assume d: "v_start d \<le> a" "a < v_end d" "d \<in> set (areas root)"
    show "\<exists>d'\<in>set (areas root'). v_start d' \<le> a \<and> a < v_end d' \<and> attr d' a = attr d a"
    proof (cases "d = v")
      case True
      then obtain q where "q \<in> P" "v_start q \<le> a" "a < v_end q" "attr q a = attr v a"
        using P d a by (auto simp: pieces_def)
      then show ?thesis using A True by auto
    qed (use A d in auto)
  qed (use up in blast)
  with le show "kept oom s e root root'" by (auto simp: kept_def)
qed

lemma no_overlap_areas: "no_overlap (inorder t) s e \<longleftrightarrow> (\<forall>d\<in>set (areas t). e \<le> v_start d \<or> v_end d \<le> s)"
  by (auto simp: no_overlap_def areas_def)

context steady_pool
begin

lemma cut_end:
  assumes ok: "tree_ok inv objs st root" and v: "(i, v) \<in> set (inorder root)" "v_start v < s" "s < v_end v"
  shows "tree_ok inv objs st (set_vma i (\<lambda>d. d\<lparr>v_end := s\<rparr>) root)"
    and "set (areas (set_vma i (\<lambda>d. d\<lparr>v_end := s\<rparr>) root)) = insert (v\<lparr>v_end := s\<rparr>) (set (areas root) - {v})"
proof -
  have inv: "vma_inv root" using ok by (simp add: tree_ok_def)
  note S = set_vma_inv [OF inv v(1), of "\<lambda>d. d\<lparr>v_end := s\<rparr>"]
  show "tree_ok inv objs st (set_vma i (\<lambda>d. d\<lparr>v_end := s\<rparr>) root)"
    using S(1) v ok by (simp add: tree_ok_def)
  have "set (areas (set_vma i (\<lambda>d. d\<lparr>v_end := s\<rparr>) root)) = snd ` insert (i, v\<lparr>v_end := s\<rparr>) (set (inorder root) - {(i, v)})"
    using S(2) v by (simp add: areas_def)
  then show "set (areas (set_vma i (\<lambda>d. d\<lparr>v_end := s\<rparr>) root)) = insert (v\<lparr>v_end := s\<rparr>) (set (areas root) - {v})"
    using areas_diff [OF inv v(1)] by (simp only: image_insert snd_conv)
qed

lemma remove_area:
  assumes ok: "tree_ok inv objs st root" and v: "(i, v) \<in> set (inorder root)"
    and "vma_remove release st root i (v_start v) = (st', root')"
  shows "tree_ok inv objs st' root'" and "set (areas root') = set (areas root) - {v}"
proof -
  have ok': "inv st" "vma_inv root" "set (ids root) \<subseteq> objs st" using ok by (auto simp: tree_ok_def)
  note R = vma_remove_pool [OF ok' v assms(3)]
  show "tree_ok inv objs st' root'" using R by (simp add: tree_ok_def)
  have "areas root' = [a \<leftarrow> areas root. a \<noteq> v]" using R by blast
  then show "set (areas root') = set (areas root) - {v}" by auto
qed

lemma carve_one_ok:
  assumes ok: "tree_ok inv objs st root" and v: "(i, v) \<in> set (inorder root)" "v_start v < e" "s < v_end v" "s < e"
  obtains st' root' P where "carve_one acquire release st root s e (i, v) = Some (st', root')"
    "tree_ok inv objs st' root'" "set (areas root') = (set (areas root) - {v}) \<union> P"
    "pieces (\<exists>st1 st2. inv st1 \<and> acquire st1 = Some (None, st2)) s e v P"
proof -
  let ?oom = "\<exists>st1 st2. inv st1 \<and> acquire st1 = Some (None, st2)"
  let ?q = "part v e (v_end v) (split_foff v e)"
  have inv: "vma_inv root" using ok by (simp add: tree_ok_def)
  have va: "v \<in> set (areas root)" using v(1) by (force simp: areas_def)
  have others: "v_end v \<le> v_start d \<or> v_end d \<le> e" if "d \<in> set (areas root) - {v}" for d
    using areas_pair [OF inv va, of d] that v(2) by auto
  have q: "\<forall>a. v_start ?q \<le> a \<longrightarrow> attr ?q a = attr v a" using attr_part v(2) by simp
  consider "v_start v < s" "e < v_end v" | "v_start v < s" "v_end v \<le> e"
    | "s \<le> v_start v" "e < v_end v" | "s \<le> v_start v" "v_end v \<le> e" by linarith
  then show thesis
  proof cases
    case 1
    let ?r1 = "set_vma i (\<lambda>d. d\<lparr>v_end := s\<rparr>) root"
    note C = cut_end [OF ok v(1) 1(1) v(3)]
    have "no_overlap (inorder ?r1) e (v_end v)"
      unfolding no_overlap_areas C(2) using others v(4) by auto
    then obtain st' root' where I: "insert_part acquire st ?r1 e (v_end v) v (split_foff v e) = Some (st', root')"
      "tree_ok inv objs st' root'"
      "set (areas root') = insert ?q (set (areas ?r1)) \<or> set (areas root') = set (areas ?r1) \<and> ?oom"
      by (rule insert_part_ok [OF C(1) _ 1(2), of v "split_foff v e"])
    have c: "carve_one acquire release st root s e (i, v) = Some (st', root')"
      using I(1) 1 by (simp add: carve_one_def)
    have p2: "pieces ?oom s e v {v\<lparr>v_end := s\<rparr>, ?q}" using q 1 v by (auto simp: pieces_def)
    have p1: "pieces ?oom s e v {v\<lparr>v_end := s\<rparr>}" if ?oom using that 1 v unfolding pieces_def by auto
    from I(3) show thesis
    proof (elim disjE conjE)
      assume "set (areas root') = insert ?q (set (areas ?r1))"
      then show thesis by (intro that [OF c I(2) _ p2]) (unfold C(2), blast)
    next
      assume "set (areas root') = set (areas ?r1)" ?oom
      then show thesis by (intro that [OF c I(2) _ p1]) (unfold C(2), blast)
    qed
  next
    case 2
    note C = cut_end [OF ok v(1) 2(1) v(3)]
    show thesis
      by (rule that [of st _ "{v\<lparr>v_end := s\<rparr>}", OF _ C(1)]) (use 2 C(2) v in \<open>auto simp: carve_one_def pieces_def\<close>)
  next
    case 3
    obtain st1 root1 where r: "vma_remove release st root i (v_start v) = (st1, root1)" by fastforce
    note R = remove_area [OF ok v(1) r]
    have "no_overlap (inorder root1) e (v_end v)" unfolding no_overlap_areas R(2) using others by auto
    then obtain st' root' where I: "insert_part acquire st1 root1 e (v_end v) v (split_foff v e) = Some (st', root')"
      "tree_ok inv objs st' root'"
      "set (areas root') = insert ?q (set (areas root1)) \<or> set (areas root') = set (areas root1) \<and> ?oom"
      by (rule insert_part_ok [OF R(1) _ 3(2), of v "split_foff v e"])
    have c: "carve_one acquire release st root s e (i, v) = Some (st', root')"
      using I(1) 3 r by (simp add: carve_one_def)
    have p2: "pieces ?oom s e v {?q}" using q 3 v by (auto simp: pieces_def)
    have p1: "pieces ?oom s e v {}" if ?oom using that 3 v unfolding pieces_def by auto
    from I(3) show thesis
    proof (elim disjE conjE)
      assume "set (areas root') = insert ?q (set (areas root1))"
      then show thesis by (intro that [OF c I(2) _ p2]) (unfold R(2), blast)
    next
      assume "set (areas root') = set (areas root1)" ?oom
      then show thesis by (intro that [OF c I(2) _ p1]) (unfold R(2), blast)
    qed
  next
    case 4
    obtain st1 root1 where r: "vma_remove release st root i (v_start v) = (st1, root1)" by fastforce
    note R = remove_area [OF ok v(1) r]
    show thesis
      by (rule that [of st1 root1 "{}", OF _ R(1)]) (use 4 r R(2) in \<open>auto simp: carve_one_def pieces_def\<close>)
  qed
qed

end

subsection \<open>\<^verbatim>\<open>munmap\<close>\<close>

lemma munmap_loop_step:
  "munmap_loop (Suc n) alloc release st root s e =
     (case vma_find_overlap root s e of
        None \<Rightarrow> Some (st, root)
      | Some ov \<Rightarrow>
          (case carve_one alloc release st root s e ov of
             None \<Rightarrow> None
           | Some (st', root') \<Rightarrow>
               if v_start (snd ov) < s \<and> e < v_end (snd ov) then Some (st', root')
               else munmap_loop n alloc release st' root' s e))"
  by (auto simp: carve_one_def Let_def split: option.splits prod.splits)

declare munmap_loop.simps(2) [simp del]

lemma overlapping_empty: "overlapping root s e = {} \<longleftrightarrow> no_overlap (inorder root) s e"
  unfolding no_overlap_areas overlapping_def by (auto simp: not_less not_le)


context steady_pool
begin

lemma munmap_loop_ok:
  assumes "tree_ok inv objs st root" and "s < e" and "card (overlapping root s e) < n"
  shows "\<exists>st' root'. munmap_loop n acquire release st root s e = Some (st', root') \<and>
    tree_ok inv objs st' root' \<and> overlapping root' s e = {} \<and>
    kept (\<exists>st1 st2. inv st1 \<and> acquire st1 = Some (None, st2)) s e root root'"
  using assms
proof (induction n arbitrary: st root)
  case (Suc n)
  let ?oom = "\<exists>st1 st2. inv st1 \<and> acquire st1 = Some (None, st2)"
  have inv: "vma_inv root" using Suc.prems(1) by (simp add: tree_ok_def)
  then have da: "disjoint_areas (inorder root)" by (simp add: vma_inv_def)
  show ?case
  proof (cases "vma_find_overlap root s e")
    case None
    then have "overlapping root s e = {}" using vma_find_overlap_None [OF da] by (simp add: overlapping_empty)
    then show ?thesis using None Suc.prems(1) by (simp add: munmap_loop_step kept_refl)
  next
    case (Some ov)
    obtain i v where ov: "ov = (i, v)" by fastforce
    have v: "(i, v) \<in> set (inorder root)" "v_start v < e" "s < v_end v"
      using vma_find_overlap_Some [of root s e i v] Some ov by auto
    then have va: "v \<in> set (areas root)" by (force simp: areas_def)
    obtain st' root' P where C: "carve_one acquire release st root s e (i, v) = Some (st', root')"
      "tree_ok inv objs st' root'" "set (areas root') = (set (areas root) - {v}) \<union> P" "pieces ?oom s e v P"
      by (rule carve_one_ok [OF Suc.prems(1) v Suc.prems(2)])
    have inv': "vma_inv root'" using C(2) by (simp add: tree_ok_def)
    note K = pieces_kept [OF inv inv' va C(3,4)]
    show ?thesis
    proof (cases "v_start v < s \<and> e < v_end v")
      case True
      have "overlapping root s e \<subseteq> {v}"
        using areas_pair [OF inv va] True Suc.prems(2) by (fastforce simp: overlapping_def)
      then have "overlapping root' s e = {}" using K(1) by blast
      then show ?thesis using True C(1,2) K(2) Some ov by (simp add: munmap_loop_step)
    next
      case False
      have "finite (overlapping root s e)" "v \<in> overlapping root s e" using va v by (auto simp: overlapping_def)
      then have "card (overlapping root' s e) < card (overlapping root s e)"
        using K(1) by (intro psubset_card_mono) auto
      then have lt: "card (overlapping root' s e) < n" using Suc.prems(3) by linarith
      obtain st2 root2 where I: "munmap_loop n acquire release st' root' s e = Some (st2, root2)"
        "tree_ok inv objs st2 root2" "overlapping root2 s e = {}" "kept ?oom s e root' root2"
        using Suc.IH [OF C(2) Suc.prems(2) lt] by blast
      have "munmap_loop (Suc n) acquire release st root s e = Some (st2, root2)"
        using False C(1) Some ov I(1) by (auto simp: munmap_loop_step)
      then show ?thesis using I(2,3) kept_trans [OF K(2) I(4)] by blast
    qed
  qed
qed simp

end






subsection \<open>Where the search for an overlap is not the search for the first one\<close>


text \<open>the same order of search makes \<^verbatim>\<open>mlock\<close> leave areas of the range unlocked.\<close>

theorem mlock_skips_lower_area:
  "\<exists>root'. mlock_vmas (Suc (Suc (Suc (Suc n)))) small_space 0x1000 0xA000 = Some root' \<and>
     view root' 0x1000 = Some (3, 0x22, None) \<and> view root' 0x4000 = Some (3, 0x122, None)"
  by (simp add: mlock_vmas_def small_space_def area_def new_area_def view_def attr_def VMA_LOCKED_def)

subsection \<open>The loop over a range ends\<close>

definition area_spans :: "vtree \<Rightarrow> (nat \<times> nat \<times> nat) list" where
  "area_spans root = map (\<lambda>(i, d). (i, v_start d, v_end d)) (inorder root)"

lemma area_spans_flags: "area_spans (set_vma i (\<lambda>d. d\<lparr>v_flags := g d\<rparr>) root) = area_spans root"
  unfolding area_spans_def by (induction root) auto

lemma filter_above_less:
  assumes "x \<in> set xs" and "va < g x"
  shows "length (filter (\<lambda>y. g x < g y) xs) < length (filter (\<lambda>y. (va::nat) < g y) xs)"
proof -
  let ?ys = "filter (\<lambda>y. va < g y) xs"
  have "filter (\<lambda>y. g x < g y) xs = filter (\<lambda>y. g x < g y) ?ys"
    using assms(2) by (auto intro: filter_cong)
  moreover have "length (filter (\<lambda>y. g x < g y) ?ys) < length ?ys"
    by (rule length_filter_less [of x]) (use assms in auto)
  ultimately show ?thesis by simp
qed

lemma mlock_loop_returns:
  "length (filter (\<lambda>a. va < snd (snd a)) (area_spans root)) < n \<Longrightarrow>
   \<exists>root'. mlock_loop n f root va e = Some root' \<and> area_spans root' = area_spans root"
proof (induction n arbitrary: root va)
  case (Suc n)
  show ?case
  proof (cases "va < e \<and> vma_find_overlap root va e \<noteq> None")
    case False
    then show ?thesis by (cases "vma_find_overlap root va e") auto
  next
    case True
    then obtain i v where o: "vma_find_overlap root va e = Some (i, v)" by auto
    define root1 where "root1 = set_vma i (\<lambda>d. d\<lparr>v_flags := f (v_flags d)\<rparr>) root"
    have s: "area_spans root1 = area_spans root" unfolding root1_def by (rule area_spans_flags)
    have "(i, v_start v, v_end v) \<in> set (area_spans root)" and "va < v_end v"
      using vma_find_overlap_Some [OF o] by (force simp: area_spans_def)+
    then have "length (filter (\<lambda>a. v_end v < snd (snd a)) (area_spans root1)) < n"
      using filter_above_less [of "(i, v_start v, v_end v)" "area_spans root" va "\<lambda>a. snd (snd a)"] Suc.prems s by simp
    from Suc.IH [OF this] show ?thesis using True o s by (simp add: root1_def)
  qed
qed simp

text \<open>
  CX: \<^verbatim>\<open>mlock\<close> and \<^verbatim>\<open>munlock\<close> return. Their loop goes on from the end of the area it found, so it takes at most one
  round per area of the address space and one more, whatever the tree, and it changes no area's range.
\<close>

theorem mlock_terminates:
  "(\<exists>root'. mlock_vmas (Suc (length (inorder root)) + k) root va e = Some root' \<and> area_spans root' = area_spans root) \<and>
   (\<exists>root'. munlock_vmas (Suc (length (inorder root)) + k) root va e = Some root' \<and> area_spans root' = area_spans root)"
proof -
  have "length (filter (\<lambda>a. va < snd (snd a)) (area_spans root)) < Suc (length (inorder root)) + k"
  proof -
    have "length (filter (\<lambda>a. va < snd (snd a)) (area_spans root)) \<le> length (area_spans root)" by (rule length_filter_le)
    also have "\<dots> = length (inorder root)" by (simp add: area_spans_def)
    finally show ?thesis by simp
  qed
  then show ?thesis unfolding mlock_vmas_def munlock_vmas_def using mlock_loop_returns by blast
qed

subsection \<open>\<^verbatim>\<open>mmap\<close>\<close>







text \<open>a hint is taken as it is when nothing is mapped there, also when it lies above the user
  ceiling that a fixed mapping must respect.\<close>

theorem mmap_hint_ignores_ceiling:
  assumes "vma_find_overlap root hint (hint + len) = None" and "hint + len < 2 ^ 64" and "4096 dvd hint" and "0 < hint"
  shows "mmap_place root nxt hint len = Inr (hint, nxt)"
  using assms page_down_aligned(1) [OF assms(3)] by (simp add: mmap_place_def)

theorem mmap_hint_ignores_ceiling_witness:
  "mmap_place small_space USER_MMAP_BASE 0xFFFF800000000000 0x1000 = Inr (0xFFFF800000000000, USER_MMAP_BASE)"
  by (rule mmap_hint_ignores_ceiling) (simp_all add: small_space_def area_def new_area_def)


end
