(* ===== verification/Timer_Wheel.thy ===== *)
theory Timer_Wheel
  imports Prelude
begin

section \<open>The timer wheel (\<^verbatim>\<open>src/kernel/core/timer_wheel.c\<close>)\<close>

text \<open>
  A wheel of 256 slots, one per millisecond tick; an entry waits in its slot for a number of full
  rounds. A slot is the list of its entries, an entry is named by its address. The slab that
  provides entries is an argument (\<open>acquire\<close>, \<open>release\<close>), as are the two TCP callbacks, which run with
  the lock dropped: they act on the wheel and the rest of the state. A callback that adds timers is
  modelled as it runs; one that cancels an entry of the slot being processed leaves the C loop with a
  freed pointer and is outside the model.
\<close>

definition TW_SLOTS :: nat where "TW_SLOTS = 256"

record tw_entry =
  te_id :: nat
  te_ctx :: nat
  expiry_tick :: nat
  remaining_rounds :: nat
  te_action :: nat
  te_slot :: int

record timer_wheel =
  slots_of :: "tw_entry list list"
  current_tick :: nat
  current_slot :: nat
  active_count :: int

record 's tw_callbacks =
  net_tcp_retransmit :: "nat \<Rightarrow> timer_wheel \<times> 's \<Rightarrow> timer_wheel \<times> 's"
  net_tcp_keepalive_probe :: "nat \<Rightarrow> timer_wheel \<times> 's \<Rightarrow> timer_wheel \<times> 's"

definition timer_wheel_init :: "nat \<Rightarrow> nat \<times> timer_wheel" where
  "timer_wheel_init now =
     (now, \<lparr>slots_of = replicate TW_SLOTS [], current_tick = 0, current_slot = 0, active_count = 0\<rparr>)"

definition tw_rounds :: "nat \<Rightarrow> nat" where
  "tw_rounds ticks = (if TW_SLOTS < ticks then ticks div TW_SLOTS - 1 else 0) mod 2 ^ 16"

definition tw_offset :: "nat \<Rightarrow> nat" where
  "tw_offset ticks =
     (let off = (if ticks \<le> TW_SLOTS then ticks else ticks mod TW_SLOTS)
      in if off = 0 then TW_SLOTS else off)"

definition timer_wheel_add ::
  "('s \<Rightarrow> (nat option \<times> 's) option) \<Rightarrow> nat \<Rightarrow> nat \<Rightarrow> nat \<Rightarrow> timer_wheel \<times> 's \<Rightarrow> (int \<times> timer_wheel \<times> 's) option" where
  "timer_wheel_add acquire action ctx timeout_ms ws =
     (let ticks = (if timeout_ms = 0 then 1 else timeout_ms); w = fst ws in
      case acquire (snd ws) of
        None \<Rightarrow> None
      | Some (None, st) \<Rightarrow> Some (- 1, w, st)
      | Some (Some e, st) \<Rightarrow>
          let target = (current_slot w + tw_offset ticks) mod TW_SLOTS;
              entry = \<lparr>te_id = e, te_ctx = ctx, expiry_tick = (current_tick w + ticks) mod 2 ^ 32,
                       remaining_rounds = tw_rounds ticks, te_action = action, te_slot = int target\<rparr>
          in Some (0, w\<lparr>slots_of := (slots_of w)[target := entry # slots_of w ! target],
                         active_count := active_count w + 1\<rparr>, st))"

definition cancel_slot :: "(nat \<Rightarrow> 's \<Rightarrow> 's) \<Rightarrow> nat \<Rightarrow> nat \<Rightarrow> timer_wheel \<times> 's \<times> int \<Rightarrow> timer_wheel \<times> 's \<times> int" where
  "cancel_slot release ctx s x =
     (let (w, st, n) = x; gone = filter (\<lambda>e. te_ctx e = ctx) (slots_of w ! s) in
      (w\<lparr>slots_of := (slots_of w)[s := filter (\<lambda>e. te_ctx e \<noteq> ctx) (slots_of w ! s)],
         active_count := active_count w - int (length gone)\<rparr>,
       fold (\<lambda>e. release (te_id e)) gone st, n + int (length gone)))"

definition timer_wheel_cancel :: "(nat \<Rightarrow> 's \<Rightarrow> 's) \<Rightarrow> nat \<Rightarrow> timer_wheel \<times> 's \<Rightarrow> int \<times> timer_wheel \<times> 's" where
  "timer_wheel_cancel release ctx ws =
     (let (w, st, n) = fold (cancel_slot release ctx) [0..<TW_SLOTS] (fst ws, snd ws, 0) in (n, w, st))"

definition tw_fire :: "'s tw_callbacks \<Rightarrow> tw_entry \<Rightarrow> timer_wheel \<times> 's \<Rightarrow> timer_wheel \<times> 's" where
  "tw_fire cb e ws =
     (if te_ctx e = 0 then ws
      else if te_action e = 1 then net_tcp_retransmit cb (te_ctx e) ws
      else if te_action e = 2 then net_tcp_keepalive_probe cb (te_ctx e) ws
      else ws)"

fun process_list ::
  "'s tw_callbacks \<Rightarrow> (nat \<Rightarrow> 's \<Rightarrow> 's) \<Rightarrow> tw_entry list \<Rightarrow> tw_entry list \<Rightarrow> timer_wheel \<times> 's
     \<Rightarrow> tw_entry list \<times> timer_wheel \<times> 's" where
  "process_list cb release [] keep ws = (keep, ws)"
| "process_list cb release (e # es) keep ws =
     (if 0 < remaining_rounds e
      then process_list cb release es (e\<lparr>remaining_rounds := remaining_rounds e - 1\<rparr> # keep) ws
      else
        let w1 = (fst ws)\<lparr>active_count := active_count (fst ws) - 1\<rparr>;
            (w2, st2) = tw_fire cb (e\<lparr>te_slot := - 1\<rparr>) (w1, snd ws)
        in process_list cb release es keep (w2, release (te_id e) st2))"

definition tw_process_slot ::
  "'s tw_callbacks \<Rightarrow> (nat \<Rightarrow> 's \<Rightarrow> 's) \<Rightarrow> nat \<Rightarrow> timer_wheel \<times> 's \<Rightarrow> timer_wheel \<times> 's" where
  "tw_process_slot cb release slot ws =
     (let (keep, w, st) = process_list cb release (slots_of (fst ws) ! slot) [] ws
      in (w\<lparr>slots_of := (slots_of w)[slot := keep]\<rparr>, st))"

definition tw_tick_once :: "'s tw_callbacks \<Rightarrow> (nat \<Rightarrow> 's \<Rightarrow> 's) \<Rightarrow> timer_wheel \<times> 's \<Rightarrow> timer_wheel \<times> 's" where
  "tw_tick_once cb release ws =
     (let w = fst ws; t = (current_tick w + 1) mod 2 ^ 64;
          w1 = w\<lparr>current_tick := t, current_slot := t mod TW_SLOTS\<rparr>
      in tw_process_slot cb release (current_slot w1) (w1, snd ws))"

definition timer_wheel_tick ::
  "'s tw_callbacks \<Rightarrow> (nat \<Rightarrow> 's \<Rightarrow> 's) \<Rightarrow> nat \<Rightarrow> nat \<times> timer_wheel \<times> 's \<Rightarrow> nat \<times> timer_wheel \<times> 's" where
  "timer_wheel_tick cb release now x =
     (let (tw_last_ms, ws) = x in
      if tw_last_ms = 0 then (now, ws)
      else let elapsed = (now + 2 ^ 64 - tw_last_ms) mod 2 ^ 64 in
        if elapsed = 0 then (tw_last_ms, ws)
        else let elapsed' = (if TW_SLOTS * 2 < elapsed then TW_SLOTS * 2 else elapsed)
             in (now, (tw_tick_once cb release ^^ elapsed') ws))"

definition timer_wheel_current_tick :: "timer_wheel \<Rightarrow> nat" where
  "timer_wheel_current_tick w = current_tick w"

definition timer_wheel_active_count :: "timer_wheel \<Rightarrow> int" where
  "timer_wheel_active_count w = active_count w"

subsection \<open>The invariant\<close>

lemma wrap_slot [simp]: "n mod 18446744073709551616 mod 256 = n mod (256 :: nat)"
  by (rule mod_mod_cancel) simp

definition tw_inv :: "timer_wheel \<Rightarrow> bool" where
  "tw_inv w \<longleftrightarrow>
     length (slots_of w) = TW_SLOTS \<and> current_slot w = current_tick w mod TW_SLOTS \<and>
     active_count w = int (length (concat (slots_of w)))"

definition entries :: "timer_wheel \<Rightarrow> tw_entry list" where
  "entries w = concat (slots_of w)"



lemma tw_init_inv: "tw_inv (snd (timer_wheel_init now))"
  by (simp add: tw_inv_def timer_wheel_init_def TW_SLOTS_def)






lemma filter_lengths: "length xs = length (filter P xs) + length (filter (\<lambda>x. \<not> P x) xs)"
  by (induction xs) auto


subsection \<open>When a timer fires\<close>














subsection \<open>Properties\<close>






definition give_seven :: "unit \<Rightarrow> (nat option \<times> unit) option" where
  "give_seven st = Some (Some 7, ())"







text \<open>Cancelling works slot by slot.\<close>

lemma cancel_slots:
  assumes "n \<le> length (slots_of w)"
  shows "fold (cancel_slot release ctx) [0..<n] (w, st, 0) =
    (let gone = filter (\<lambda>e. te_ctx e = ctx) (concat (take n (slots_of w))) in
     (w\<lparr>slots_of := map (filter (\<lambda>e. te_ctx e \<noteq> ctx)) (take n (slots_of w)) @ drop n (slots_of w),
        active_count := active_count w - int (length gone)\<rparr>,
      fold (\<lambda>e. release (te_id e)) gone st, int (length gone)))"
  using assms
proof (induction n)
  case (Suc n)
  have t: "take (Suc n) (slots_of w) = take n (slots_of w) @ [slots_of w ! n]"
    using Suc.prems by (simp add: take_Suc_conv_app_nth)
  have d: "drop n (slots_of w) = slots_of w ! n # drop (Suc n) (slots_of w)"
    using Suc.prems by (simp add: Cons_nth_drop_Suc)
  have l: "length (map (filter (\<lambda>e. te_ctx e \<noteq> ctx)) (take n (slots_of w))) = n" using Suc.prems by simp
  show ?case
    using Suc by (simp add: t d cancel_slot_def Let_def nth_append list_update_append algebra_simps)
qed simp

lemma length_concat_filter:
  "length (filter P (concat xss)) + length (concat (map (filter (\<lambda>x. \<not> P x)) xss)) = length (concat xss)"
proof (induction xss)
  case (Cons xs xss)
  then show ?case using filter_lengths [of xs P] by simp
qed simp

text \<open>\<^verbatim>\<open>timer_wheel_cancel\<close> takes exactly the entries of the given connection out of the wheel,
  frees each of them once, in slot order, returns their number, leaves the other entries in place and
  keeps the invariant: the counter is still the number of entries.\<close>

theorem timer_cancel_correct:
  assumes "tw_inv w"
  shows "\<exists>w'. timer_wheel_cancel release ctx (w, st) =
      (int (length (filter (\<lambda>e. te_ctx e = ctx) (entries w))), w',
       fold (\<lambda>e. release (te_id e)) (filter (\<lambda>e. te_ctx e = ctx) (entries w)) st) \<and>
    slots_of w' = map (filter (\<lambda>e. te_ctx e \<noteq> ctx)) (slots_of w) \<and> current_tick w' = current_tick w \<and> tw_inv w'"
proof -
  have l: "length (slots_of w) = 256" using assms by (simp add: tw_inv_def TW_SLOTS_def)
  note F = cancel_slots [of TW_SLOTS w release ctx st, unfolded TW_SLOTS_def l, simplified, simplified l]
  have c: "int (length (concat (slots_of w))) - int (length (filter (\<lambda>e. te_ctx e = ctx) (concat (slots_of w)))) =
      int (length (concat (map (filter (\<lambda>e. te_ctx e \<noteq> ctx)) (slots_of w))))"
    using length_concat_filter [of "\<lambda>e. te_ctx e = ctx" "slots_of w"] by simp
  show ?thesis
    using assms c l by (simp add: timer_wheel_cancel_def TW_SLOTS_def F Let_def entries_def tw_inv_def)
qed

theorem timer_cancel_correct_witness:
  "\<exists>w'. timer_wheel_cancel (\<lambda>_ st. st) 5 (snd (timer_wheel_init 0), ()) =
      (int (length (filter (\<lambda>e. te_ctx e = 5) (entries (snd (timer_wheel_init 0))))), w',
       fold (\<lambda>e. (\<lambda>_ st. st) (te_id e)) (filter (\<lambda>e. te_ctx e = 5) (entries (snd (timer_wheel_init 0)))) ()) \<and>
    slots_of w' = map (filter (\<lambda>e. te_ctx e \<noteq> 5)) (slots_of (snd (timer_wheel_init 0))) \<and>
    current_tick w' = current_tick (snd (timer_wheel_init 0)) \<and> tw_inv w'"
  by (rule timer_cancel_correct) (rule tw_init_inv)

definition rearm :: "unit tw_callbacks" where
  "rearm = \<lparr>net_tcp_retransmit = \<lambda>c ws. (case timer_wheel_add give_seven 1 c 256 ws of
       Some (_, ws') \<Rightarrow> ws' | None \<Rightarrow> ws),
     net_tcp_keepalive_probe = \<lambda>_ ws. ws\<rparr>"

text \<open>A callback that arms a timer of 256 ms for its own slot loses it: the new entry is pushed on the
  slot's list while the old list is being walked, and the final store of the kept entries overwrites it.
  The wheel is then empty and its counter is 1.\<close>

theorem timer_rearm_lost:
  "\<exists>w'. timer_wheel_add give_seven 1 5 1 (snd (timer_wheel_init 0), ()) = Some (0, w', ()) \<and>
    entries (fst (tw_tick_once rearm (\<lambda>_ st. st) (w', ()))) = [] \<and>
    timer_wheel_active_count (fst (tw_tick_once rearm (\<lambda>_ st. st) (w', ()))) = 1"
proof -
  have r: "(replicate 256 ([] :: tw_entry list))[1 := a, 1 := b, 1 := []] = replicate 256 []" for a b
    by (rule nth_equalityI) (auto simp: nth_list_update)
  show ?thesis
    by (simp add: timer_wheel_add_def give_seven_def timer_wheel_init_def tw_offset_def tw_rounds_def TW_SLOTS_def
        tw_tick_once_def tw_process_slot_def tw_fire_def rearm_def entries_def timer_wheel_active_count_def Let_def
        r [simplified])
qed

end
