(* ===== verification/Uaccess.thy ===== *)
theory Uaccess
  imports Prelude
begin

unbundle bit_operations_syntax

section \<open>Access to user memory (\<^verbatim>\<open>include/kernel/uaccess.h\<close>, \<^verbatim>\<open>src/arch/x86_64/cpu/uaccess.c\<close>)\<close>

text \<open>
  User memory is a partial map: an address that is not in it faults, and so does a write to a byte
  that is not writable. A copy is a \<^verbatim>\<open>rep movsb\<close>: byte by byte upwards, and a fault ends it at the
  byte it hit, with the bytes before it already copied.
\<close>

type_synonym umem = "nat \<Rightarrow> (bool \<times> u8) option"

definition USER_LIMIT :: nat where "USER_LIMIT = 0x800000000000"

definition user_ok :: "nat \<Rightarrow> nat \<Rightarrow> bool" where
  "user_ok addr len \<longleftrightarrow>
     addr < USER_LIMIT \<and> (addr + len) mod 2 ^ 64 \<le> USER_LIMIT \<and> addr \<le> (addr + len) mod 2 ^ 64"

definition copy_from_user :: "umem \<Rightarrow> nat \<Rightarrow> nat \<Rightarrow> u8 list result" where
  "copy_from_user m addr len =
     (if \<not> user_ok addr len then Inl EFAULT
      else case those (map (\<lambda>i. map_option snd (m (addr + i))) [0..<len]) of
             None \<Rightarrow> Inl EFAULT
           | Some bs \<Rightarrow> Inr bs)"

fun movsb :: "umem \<Rightarrow> nat \<Rightarrow> u8 list \<Rightarrow> unit result \<times> umem" where
  "movsb m addr [] = (Inr (), m)"
| "movsb m addr (b # bs) =
     (case m addr of
        Some (True, _) \<Rightarrow> movsb (m(addr \<mapsto> (True, b))) (addr + 1) bs
      | _ \<Rightarrow> (Inl EFAULT, m))"

definition copy_to_user :: "umem \<Rightarrow> nat \<Rightarrow> u8 list \<Rightarrow> unit result \<times> umem" where
  "copy_to_user m addr bs =
     (if \<not> user_ok addr (length bs) then (Inl EFAULT, m) else movsb m addr bs)"

fun path_bytes :: "umem \<Rightarrow> nat \<Rightarrow> nat \<Rightarrow> u8 list \<Rightarrow> u8 list result" where
  "path_bytes m addr 0 acc = Inl ENAMETOOLONG"
| "path_bytes m addr (Suc n) acc =
     (case m addr of
        None \<Rightarrow> Inl EFAULT
      | Some (_, b) \<Rightarrow>
          if b = 0 then (if acc = [] then Inl ENOENT else Inr (rev acc))
          else path_bytes m (addr + 1) n (b # acc))"

text \<open>The result is the string without its terminator; its length is the value the C function returns.\<close>

definition copy_path_from_user :: "umem \<Rightarrow> nat \<Rightarrow> nat \<Rightarrow> u8 list result" where
  "copy_path_from_user m upath n =
     (if \<not> user_ok upath n then Inl EFAULT else path_bytes m upath n [])"

text \<open>Little-endian words in byte lists, as the structures read from user memory have them.\<close>

definition u32_of :: "u8 list \<Rightarrow> u32" where
  "u32_of bs = word_of_nat (foldr (\<lambda>b n. unat b + 256 * n) (take 4 bs) 0)"

definition bytes_of_u32 :: "u32 \<Rightarrow> u8 list" where
  "bytes_of_u32 w = map (\<lambda>i. word_of_nat (unat w div 256 ^ i)) [0..<4]"

subsection \<open>What a copy can touch\<close>

lemma user_ok_range: "user_ok addr len \<Longrightarrow> len < 2 ^ 64 \<Longrightarrow> addr + len \<le> USER_LIMIT"
proof -
  assume u: "user_ok addr len" and l: "len < 2 ^ 64"
  have a: "addr < 2 ^ 47" using u by (simp add: user_ok_def USER_LIMIT_def)
  show "addr + len \<le> USER_LIMIT"
  proof (cases "addr + len < 2 ^ 64")
    case False
    have "(addr + len) mod 2 ^ 64 = addr + len - 2 ^ 64" using False a l by (simp add: mod_if)
    then have "addr \<le> addr + len - 2 ^ 64" using u by (simp add: user_ok_def)
    then show ?thesis using l False by linarith
  qed (use u in \<open>simp add: user_ok_def\<close>)
qed

lemma movsb_outside: "x < addr \<or> addr + length bs \<le> x \<Longrightarrow> snd (movsb m addr bs) x = m x"
  by (induction m addr bs rule: movsb.induct) (auto split: option.splits bool.splits)

lemma movsb_ok: "fst (movsb m addr bs) = Inr () \<Longrightarrow> i < length bs \<Longrightarrow>
    snd (movsb m addr bs) (addr + i) = Some (True, bs ! i)"
proof (induction bs arbitrary: m addr i)
  case (Cons b bs)
  from Cons.prems(1) obtain c where c: "m addr = Some (True, c)"
    by (auto split: option.splits bool.splits)
  have e: "movsb m addr (b # bs) = movsb (m(addr \<mapsto> (True, b))) (addr + 1) bs" using c by simp
  show ?case
  proof (cases i)
    case 0
    then show ?thesis unfolding e using movsb_outside [of addr "addr + 1" bs "m(addr \<mapsto> (True, b))"] by simp
  next
    case (Suc j)
    have f: "fst (movsb (m(addr \<mapsto> (True, b))) (addr + 1) bs) = Inr ()" and l: "j < length bs"
      using Cons.prems Suc unfolding e by simp_all
    have "snd (movsb (m(addr \<mapsto> (True, b))) (addr + 1) bs) (addr + 1 + j) = Some (True, bs ! j)" by (rule Cons.IH [OF f l])
    then show ?thesis unfolding e by (simp add: Suc)
  qed
qed simp

lemma movsb_changes: "snd (movsb m addr bs) x \<noteq> m x \<Longrightarrow> \<exists>c. m x = Some (True, c)"
proof (induction bs arbitrary: m addr)
  case (Cons b bs)
  show ?case
  proof (cases "\<exists>c. m addr = Some (True, c)")
    case True
    have e: "movsb m addr (b # bs) = movsb (m(addr \<mapsto> (True, b))) (addr + 1) bs" using True by auto
    show ?thesis
    proof (cases "x = addr")
      case False
      have "snd (movsb (m(addr \<mapsto> (True, b))) (addr + 1) bs) x \<noteq> (m(addr \<mapsto> (True, b))) x"
        using Cons.prems False unfolding e by simp
      from Cons.IH [OF this] show ?thesis using False by simp
    qed (use True in simp)
  next
    case False
    then have "movsb m addr (b # bs) = (Inl EFAULT, m)" by (auto split: option.splits bool.splits)
    then show ?thesis using Cons.prems by simp
  qed
qed simp

lemma those_map: "(\<And>i. i < n \<Longrightarrow> f i = Some (g i)) \<Longrightarrow> those (map f [0..<n]) = Some (map g [0..<n])"
proof -
  assume f: "\<And>i. i < n \<Longrightarrow> f i = Some (g i)"
  have "those (map f xs) = Some (map g xs)" if "\<forall>i\<in>set xs. i < n" for xs
    using that f by (induction xs) auto
  then show ?thesis by simp
qed

definition changed :: "umem \<Rightarrow> umem \<Rightarrow> nat set" where
  "changed m m' = {x. m' x \<noteq> m x}"

definition writable :: "umem \<Rightarrow> nat set" where
  "writable m = {x. \<exists>b. m x = Some (True, b)}"

lemma movsb_result: "fst (movsb m addr bs) = Inl EFAULT \<or> fst (movsb m addr bs) = Inr ()"
  by (induction bs arbitrary: m addr) (auto split: option.splits bool.splits)

text \<open>C22: Whatever pointer a program passes, \<^verbatim>\<open>copy_to_user\<close> changes no byte at or above the user limit, no
  byte outside the buffer and no byte that is not writable; unless it reports a fault,
  \<^verbatim>\<open>copy_from_user\<close> reads back what was written.\<close>

theorem copy_to_user_confined:
  assumes "length bs < 2 ^ 64"
  shows "changed m (snd (copy_to_user m addr bs)) \<subseteq> {..<USER_LIMIT} \<inter> {addr..<addr + length bs} \<inter> writable m \<and>
    (fst (copy_to_user m addr bs) = Inl EFAULT \<or>
     copy_from_user (snd (copy_to_user m addr bs)) addr (length bs) = Inr bs)"
proof (cases "user_ok addr (length bs)")
  case True
  have e: "copy_to_user m addr bs = movsb m addr bs" using True by (simp add: copy_to_user_def)
  have r: "addr + length bs \<le> USER_LIMIT" by (rule user_ok_range [OF True assms])
  have "x \<in> {..<USER_LIMIT} \<inter> {addr..<addr + length bs} \<inter> writable m" if ne: "snd (movsb m addr bs) x \<noteq> m x" for x
  proof -
    have "addr \<le> x \<and> x < addr + length bs" using movsb_outside [of x addr bs m] ne by (meson not_le)
    moreover have "\<exists>b. m x = Some (True, b)" by (rule movsb_changes [OF ne])
    ultimately show ?thesis using r by (simp add: writable_def)
  qed
  moreover have "copy_from_user (snd (movsb m addr bs)) addr (length bs) = Inr bs" if "fst (movsb m addr bs) = Inr ()"
    using those_map [of "length bs" "\<lambda>i. map_option snd (snd (movsb m addr bs) (addr + i))" "\<lambda>i. bs ! i"] movsb_ok [OF that] True
    by (simp add: copy_from_user_def map_nth)
  ultimately show ?thesis using movsb_result [of m addr bs] unfolding e changed_def by blast
qed (simp add: copy_to_user_def changed_def)

definition eight_bytes :: umem where
  "eight_bytes x = (if x < 8 then Some (True, 0) else None)"

theorem copy_to_user_confined_witness:
  "changed eight_bytes (snd (copy_to_user eight_bytes 4 [1, 2])) \<subseteq>
     {..<USER_LIMIT} \<inter> {4..<4 + length [1, 2 :: u8]} \<inter> writable eight_bytes \<and>
   (fst (copy_to_user eight_bytes 4 [1, 2]) = Inl EFAULT \<or>
    copy_from_user (snd (copy_to_user eight_bytes 4 [1, 2])) 4 (length [1, 2 :: u8]) = Inr [1, 2])"
  by (rule copy_to_user_confined) simp

lemma path_bytes_spec:
  "path_bytes m addr n acc = Inr p \<Longrightarrow> 0 \<notin> set acc \<Longrightarrow> 0 \<notin> set p \<and> p \<noteq> [] \<and> length p < n + length acc"
proof (induction m addr n acc rule: path_bytes.induct)
  case (2 m addr n acc)
  then show ?case by (auto split: option.splits if_splits prod.splits)
qed simp

end
