(* ===== verification/Cred.thy ===== *)
theory Cred
  imports Uaccess
begin

unbundle bit_operations_syntax

section \<open>Credentials (\<^verbatim>\<open>src/kernel/sys/sys_id.c\<close>, \<^verbatim>\<open>process.c\<close>, \<^verbatim>\<open>sys/stubs.c\<close>)\<close>

text \<open>
  The identities, groups and capabilities of a process and the system calls that change them. The
  current process is an option: a call without one is the branch of the code for a null pointer.
  The pages of the group array come from a page source, which is an argument; \<^const>\<open>length\<close> of
  \<open>groups\<close> is the C field \<^verbatim>\<open>ngroups\<close>, and \<open>groups\<close> holds the entries the array has in use.
\<close>

record cred =
  ruid :: u32
  euid :: u32
  suid :: u32
  fsuid :: u32
  rgid :: u32
  egid :: u32
  sgid :: u32
  fsgid :: u32
  groups :: "u32 list"
  groups_ptr :: nat
  groups_pages :: nat
  cap_effective :: u64
  cap_permitted :: u64
  cap_inheritable :: u64
  cap_bounding :: u64
  cred_pid :: nat
  umask_val :: u32
  personality :: u32

definition UID_ROOT :: u32 where "UID_ROOT = 0"
definition NGROUPS_MAX :: int where "NGROUPS_MAX = 65536"

definition on_self :: "(cred \<Rightarrow> int result \<times> cred) \<Rightarrow> cred option \<Rightarrow> int result \<times> cred option" where
  "on_self f self = (case self of None \<Rightarrow> (Inl EFAULT, None) | Some p \<Rightarrow> map_prod id Some (f p))"

definition cap_emulate_setxuid :: "u32 \<Rightarrow> u32 \<Rightarrow> u32 \<Rightarrow> cred \<Rightarrow> cred" where
  "cap_emulate_setxuid old_ruid old_euid old_suid p =
     (let had_root = (old_ruid = UID_ROOT \<or> old_euid = UID_ROOT \<or> old_suid = UID_ROOT);
          has_root = (ruid p = UID_ROOT \<or> euid p = UID_ROOT \<or> suid p = UID_ROOT);
          p1 = (if had_root \<and> \<not> has_root then p\<lparr>cap_permitted := 0, cap_effective := 0\<rparr> else p);
          p2 = (if old_euid \<noteq> UID_ROOT \<and> euid p1 = UID_ROOT then p1\<lparr>cap_effective := 0\<rparr> else p1)
      in if old_euid = UID_ROOT \<and> euid p2 \<noteq> UID_ROOT then p2\<lparr>cap_effective := 0\<rparr> else p2)"

definition do_getuid :: "cred option \<Rightarrow> int" where
  "do_getuid self = (case self of None \<Rightarrow> 0 | Some p \<Rightarrow> uint (ruid p))"

definition do_getgid :: "cred option \<Rightarrow> int" where
  "do_getgid self = (case self of None \<Rightarrow> 0 | Some p \<Rightarrow> uint (rgid p))"

definition do_geteuid :: "cred option \<Rightarrow> int" where
  "do_geteuid self = (case self of None \<Rightarrow> 0 | Some p \<Rightarrow> uint (euid p))"

definition do_getegid :: "cred option \<Rightarrow> int" where
  "do_getegid self = (case self of None \<Rightarrow> 0 | Some p \<Rightarrow> uint (egid p))"

subsection \<open>Changing user and group identities\<close>

definition setuid_self :: "u32 \<Rightarrow> cred \<Rightarrow> int result \<times> cred" where
  "setuid_self u p =
     (let emulate = cap_emulate_setxuid (ruid p) (euid p) (suid p) in
      if euid p = UID_ROOT then (Inr 0, emulate (p\<lparr>ruid := u, euid := u, suid := u, fsuid := u\<rparr>))
      else if u = ruid p \<or> u = suid p then (Inr 0, emulate (p\<lparr>euid := u, fsuid := u\<rparr>))
      else (Inl EPERM, p))"

definition do_setuid :: "int \<Rightarrow> cred option \<Rightarrow> int result \<times> cred option" where
  "do_setuid uid self = (if uid < 0 then (Inl EINVAL, self) else on_self (setuid_self (word_of_int uid)) self)"

definition setgid_self :: "u32 \<Rightarrow> cred \<Rightarrow> int result \<times> cred" where
  "setgid_self g p =
     (if euid p = UID_ROOT then (Inr 0, p\<lparr>rgid := g, egid := g, sgid := g, fsgid := g\<rparr>)
      else if g = rgid p \<or> g = sgid p then (Inr 0, p\<lparr>egid := g, fsgid := g\<rparr>)
      else (Inl EPERM, p))"

definition do_setgid :: "int \<Rightarrow> cred option \<Rightarrow> int result \<times> cred option" where
  "do_setgid gid self = (if gid < 0 then (Inl EINVAL, self) else on_self (setgid_self (word_of_int gid)) self)"

text \<open>An argument of \<^verbatim>\<open>-1\<close> keeps the old identity.\<close>

definition id_arg :: "int \<Rightarrow> u32 \<Rightarrow> u32" where
  "id_arg v old = (if v = - 1 then old else word_of_int v)"

definition setreuid_self :: "int \<Rightarrow> int \<Rightarrow> cred \<Rightarrow> int result \<times> cred" where
  "setreuid_self r e p =
     (let new_ruid = id_arg r (ruid p); new_euid = id_arg e (euid p) in
      if euid p \<noteq> UID_ROOT \<and> r \<noteq> - 1 \<and> new_ruid \<noteq> ruid p \<and> new_ruid \<noteq> euid p then (Inl EPERM, p)
      else if euid p \<noteq> UID_ROOT \<and> e \<noteq> - 1 \<and> new_euid \<noteq> ruid p \<and> new_euid \<noteq> euid p \<and> new_euid \<noteq> suid p
      then (Inl EPERM, p)
      else
        let set_saved = (r \<noteq> - 1 \<or> (e \<noteq> - 1 \<and> new_euid \<noteq> ruid p));
            p1 = p\<lparr>ruid := new_ruid, euid := new_euid, fsuid := new_euid\<rparr>;
            p2 = (if set_saved then p1\<lparr>suid := new_euid\<rparr> else p1)
        in (Inr 0, cap_emulate_setxuid (ruid p) (euid p) (suid p) p2))"

definition do_setreuid :: "int \<Rightarrow> int \<Rightarrow> cred option \<Rightarrow> int result \<times> cred option" where
  "do_setreuid r e = on_self (setreuid_self r e)"

definition setregid_self :: "int \<Rightarrow> int \<Rightarrow> cred \<Rightarrow> int result \<times> cred" where
  "setregid_self r e p =
     (let new_rgid = id_arg r (rgid p); new_egid = id_arg e (egid p) in
      if euid p \<noteq> UID_ROOT \<and> r \<noteq> - 1 \<and> new_rgid \<noteq> rgid p \<and> new_rgid \<noteq> egid p then (Inl EPERM, p)
      else if euid p \<noteq> UID_ROOT \<and> e \<noteq> - 1 \<and> new_egid \<noteq> rgid p \<and> new_egid \<noteq> egid p \<and> new_egid \<noteq> sgid p
      then (Inl EPERM, p)
      else
        let set_saved = (r \<noteq> - 1 \<or> (e \<noteq> - 1 \<and> new_egid \<noteq> rgid p));
            p1 = p\<lparr>rgid := new_rgid, egid := new_egid, fsgid := new_egid\<rparr>
        in (Inr 0, if set_saved then p1\<lparr>sgid := new_egid\<rparr> else p1))"

definition do_setregid :: "int \<Rightarrow> int \<Rightarrow> cred option \<Rightarrow> int result \<times> cred option" where
  "do_setregid r e = on_self (setregid_self r e)"

definition setresuid_self :: "int \<Rightarrow> int \<Rightarrow> int \<Rightarrow> cred \<Rightarrow> int result \<times> cred" where
  "setresuid_self r e s p =
     (let new_ruid = id_arg r (ruid p); new_euid = id_arg e (euid p); new_suid = id_arg s (suid p);
          other = (\<lambda>v n. v \<noteq> - 1 \<and> n \<noteq> ruid p \<and> n \<noteq> euid p \<and> n \<noteq> suid p)
      in if euid p \<noteq> UID_ROOT \<and> (other r new_ruid \<or> other e new_euid \<or> other s new_suid) then (Inl EPERM, p)
         else (Inr 0, cap_emulate_setxuid (ruid p) (euid p) (suid p)
           (p\<lparr>ruid := new_ruid, euid := new_euid, suid := new_suid, fsuid := new_euid\<rparr>)))"

definition do_setresuid :: "int \<Rightarrow> int \<Rightarrow> int \<Rightarrow> cred option \<Rightarrow> int result \<times> cred option" where
  "do_setresuid r e s = on_self (setresuid_self r e s)"

definition setresgid_self :: "int \<Rightarrow> int \<Rightarrow> int \<Rightarrow> cred \<Rightarrow> int result \<times> cred" where
  "setresgid_self r e s p =
     (let new_rgid = id_arg r (rgid p); new_egid = id_arg e (egid p); new_sgid = id_arg s (sgid p);
          other = (\<lambda>v n. v \<noteq> - 1 \<and> n \<noteq> rgid p \<and> n \<noteq> egid p \<and> n \<noteq> sgid p)
      in if euid p \<noteq> UID_ROOT \<and> (other r new_rgid \<or> other e new_egid \<or> other s new_sgid) then (Inl EPERM, p)
         else (Inr 0, p\<lparr>rgid := new_rgid, egid := new_egid, sgid := new_sgid, fsgid := new_egid\<rparr>))"

definition do_setresgid :: "int \<Rightarrow> int \<Rightarrow> int \<Rightarrow> cred option \<Rightarrow> int result \<times> cred option" where
  "do_setresgid r e s = on_self (setresgid_self r e s)"

definition setfsuid_self :: "int \<Rightarrow> cred \<Rightarrow> int result \<times> cred" where
  "setfsuid_self uid p =
     (let u = word_of_int uid in
      (Inr (uint (fsuid p)),
       if uid < 0 then p
       else if euid p = UID_ROOT \<or> u = ruid p \<or> u = euid p \<or> u = suid p \<or> u = fsuid p then p\<lparr>fsuid := u\<rparr>
       else p))"

definition do_setfsuid :: "int \<Rightarrow> cred option \<Rightarrow> int result \<times> cred option" where
  "do_setfsuid uid self = (case self of None \<Rightarrow> (Inr 0, None) | Some p \<Rightarrow> map_prod id Some (setfsuid_self uid p))"

definition setfsgid_self :: "int \<Rightarrow> cred \<Rightarrow> int result \<times> cred" where
  "setfsgid_self gid p =
     (let g = word_of_int gid in
      (Inr (uint (fsgid p)),
       if gid < 0 then p
       else if euid p = UID_ROOT \<or> g = rgid p \<or> g = egid p \<or> g = sgid p \<or> g = fsgid p then p\<lparr>fsgid := g\<rparr>
       else p))"

definition do_setfsgid :: "int \<Rightarrow> cred option \<Rightarrow> int result \<times> cred option" where
  "do_setfsgid gid self = (case self of None \<Rightarrow> (Inr 0, None) | Some p \<Rightarrow> map_prod id Some (setfsgid_self gid p))"

text \<open>Each identity is written when its pointer is not null and lies in user space; a fault of the copy
  is ignored.\<close>

definition put_id :: "nat \<Rightarrow> u32 \<Rightarrow> umem \<Rightarrow> umem" where
  "put_id a v m = (if a \<noteq> 0 \<and> user_ok a 4 then snd (copy_to_user m a (bytes_of_u32 v)) else m)"

definition do_getresuid :: "nat \<Rightarrow> nat \<Rightarrow> nat \<Rightarrow> cred option \<Rightarrow> umem \<Rightarrow> int result \<times> umem" where
  "do_getresuid r e s self m =
     (case self of
        None \<Rightarrow> (Inl EFAULT, m)
      | Some p \<Rightarrow> (Inr 0, put_id s (suid p) (put_id e (euid p) (put_id r (ruid p) m))))"

definition do_getresgid :: "nat \<Rightarrow> nat \<Rightarrow> nat \<Rightarrow> cred option \<Rightarrow> umem \<Rightarrow> int result \<times> umem" where
  "do_getresgid r e s self m =
     (case self of
        None \<Rightarrow> (Inl EFAULT, m)
      | Some p \<Rightarrow> (Inr 0, put_id s (sgid p) (put_id e (egid p) (put_id r (rgid p) m))))"

subsection \<open>Supplementary groups\<close>

function pow2_for :: "nat \<Rightarrow> nat \<Rightarrow> nat" where
  "pow2_for p2 pages = (if 0 < p2 \<and> p2 < pages then pow2_for (p2 * 2) pages else p2)"
  by auto
termination by (relation "measure (\<lambda>(p2, pages). pages - p2)") auto

declare pow2_for.simps [simp del]

definition cred_groups_pages_for :: "int \<Rightarrow> nat" where
  "cred_groups_pages_for count = (if count \<le> 0 then 0 else pow2_for 1 ((nat count * 4 + 4095) div 4096))"

definition cred_groups_free :: "(nat \<Rightarrow> nat \<Rightarrow> 's \<Rightarrow> 's) \<Rightarrow> cred \<times> 's \<Rightarrow> cred \<times> 's" where
  "cred_groups_free release ps =
     (let (p, st) = ps in
      if groups_ptr p = 0 then (p, st)
      else (p\<lparr>groups_ptr := 0, groups_pages := 0, groups := []\<rparr>, release (groups_ptr p) (groups_pages p) st))"

definition cred_groups_set ::
  "(nat \<Rightarrow> 's \<Rightarrow> nat option \<times> 's) \<Rightarrow> (nat \<Rightarrow> nat \<Rightarrow> 's \<Rightarrow> 's) \<Rightarrow> u32 list \<Rightarrow> int \<Rightarrow> cred \<times> 's \<Rightarrow> int result \<times> cred \<times> 's" where
  "cred_groups_set acquire release list count ps =
     (let (p, st) = ps in
      if count < 0 \<or> NGROUPS_MAX < count then (Inl EINVAL, p, st)
      else if count = 0 then (Inr 0, cred_groups_free release (p, st))
      else let need = cred_groups_pages_for count in
        if need \<noteq> groups_pages p then
          (case acquire need st of
             (None, st1) \<Rightarrow> (Inl ENOMEM, p, st1)
           | (Some fresh, st1) \<Rightarrow>
               (Inr 0, p\<lparr>groups_ptr := fresh, groups_pages := need, groups := take (nat count) list\<rparr>,
                if groups_ptr p \<noteq> 0 then release (groups_ptr p) (groups_pages p) st1 else st1))
        else (Inr 0, p\<lparr>groups := take (nat count) list\<rparr>, st))"

definition cred_in_group :: "cred option \<Rightarrow> u32 \<Rightarrow> bool" where
  "cred_in_group self gid = (case self of None \<Rightarrow> False | Some p \<Rightarrow> egid p = gid \<or> gid \<in> set (groups p))"

definition cred_owns :: "cred option \<Rightarrow> u32 \<Rightarrow> bool" where
  "cred_owns self owner_uid = (case self of None \<Rightarrow> False | Some p \<Rightarrow> euid p = owner_uid)"

definition cred_can_chmod :: "cred option \<Rightarrow> u32 \<Rightarrow> bool" where
  "cred_can_chmod self owner_uid =
     (case self of None \<Rightarrow> True | Some p \<Rightarrow> if euid p = 0 then True else euid p = owner_uid)"

definition cred_can_chown_gid :: "cred option \<Rightarrow> u32 \<Rightarrow> u32 \<Rightarrow> bool \<Rightarrow> bool" where
  "cred_can_chown_gid self owner_uid target_gid gid_specified =
     (case self of
        None \<Rightarrow> False
      | Some p \<Rightarrow>
          if euid p = 0 then True
          else if euid p \<noteq> owner_uid then False
          else if \<not> gid_specified then True
          else cred_in_group self target_gid)"

definition cred_may_access :: "cred option \<Rightarrow> u32 \<Rightarrow> u32 \<Rightarrow> u32 \<Rightarrow> u32 \<Rightarrow> int result" where
  "cred_may_access self owner_uid owner_gid mode want =
     (case self of
        None \<Rightarrow> Inr 0
      | Some p \<Rightarrow>
          if euid p = 0 then Inr 0
          else
            let perms = (if euid p = owner_uid then drop_bit 6 mode AND 7
                         else if cred_in_group self owner_gid then drop_bit 3 mode AND 7
                         else mode AND 7)
            in if want AND perms \<noteq> want then Inl EACCES else Inr 0)"

definition words_of :: "u8 list \<Rightarrow> nat \<Rightarrow> u32 list" where
  "words_of bs n = map (\<lambda>i. u32_of (drop (4 * i) bs)) [0..<n]"

definition do_getgroups :: "int \<Rightarrow> nat \<Rightarrow> cred option \<Rightarrow> umem \<Rightarrow> int result \<times> umem" where
  "do_getgroups sz list self m =
     (case self of
        None \<Rightarrow> (Inl EFAULT, m)
      | Some p \<Rightarrow>
          let ngroups = length (groups p) in
          if sz = 0 then (Inr (int ngroups), m)
          else if sz < int ngroups then (Inl EINVAL, m)
          else if \<not> user_ok list (ngroups * 4) then (Inl EFAULT, m)
          else if 0 < ngroups then
            (case copy_to_user m list (concat (map bytes_of_u32 (groups p))) of
               (Inl _, m') \<Rightarrow> (Inl EFAULT, m')
             | (Inr _, m') \<Rightarrow> (Inr (int ngroups), m'))
          else (Inr (int ngroups), m))"

definition setgroups_self ::
  "(nat \<Rightarrow> 's \<Rightarrow> nat option \<times> 's) \<Rightarrow> (nat \<Rightarrow> nat \<Rightarrow> 's \<Rightarrow> 's) \<Rightarrow> umem \<Rightarrow> int \<Rightarrow> nat \<Rightarrow> cred \<times> 's \<Rightarrow> int result \<times> cred \<times> 's" where
  "setgroups_self acquire release m sz list ps =
     (let (p, st) = ps in
      if euid p \<noteq> 0 then (Inl EPERM, p, st)
      else if sz < 0 \<or> NGROUPS_MAX < sz then (Inl EINVAL, p, st)
      else if sz = 0 then (Inr 0, cred_groups_free release (p, st))
      else let bytes = nat sz * 4 in
        if \<not> user_ok list bytes then (Inl EFAULT, p, st)
        else let p2 = pow2_for 1 ((bytes + 4095) div 4096) in
          case acquire p2 st of
            (None, st1) \<Rightarrow> (Inl ENOMEM, p, st1)
          | (Some tmp, st1) \<Rightarrow>
              (case copy_from_user m list bytes of
                 Inl _ \<Rightarrow> (Inl EFAULT, p, release tmp p2 st1)
               | Inr bs \<Rightarrow>
                   let (r, p', st2) = cred_groups_set acquire release (words_of bs (nat sz)) sz (p, st1)
                   in (r, p', release tmp p2 st2)))"

definition do_setgroups ::
  "(nat \<Rightarrow> 's \<Rightarrow> nat option \<times> 's) \<Rightarrow> (nat \<Rightarrow> nat \<Rightarrow> 's \<Rightarrow> 's) \<Rightarrow> umem \<Rightarrow> int \<Rightarrow> nat \<Rightarrow> cred option \<times> 's
     \<Rightarrow> int result \<times> cred option \<times> 's" where
  "do_setgroups acquire release m sz list x =
     (case fst x of
        None \<Rightarrow> (Inl EFAULT, x)
      | Some p \<Rightarrow> let (r, p', st) = setgroups_self acquire release m sz list (p, snd x) in (r, Some p', st))"

subsection \<open>Capabilities, umask and personality\<close>

definition cap_version_u32s :: "u32 \<Rightarrow> nat" where
  "cap_version_u32s ver =
     (if ver = 0x19980330 then 1 else if ver = 0x20071026 then 2 else if ver = 0x20080522 then 2 else 0)"

definition s32 :: "u32 \<Rightarrow> int" where "s32 w = sint w"

text \<open>The header is a version and a thread id; an unknown version is answered with version 3.\<close>

definition cap_header :: "umem \<Rightarrow> nat \<Rightarrow> ((u32 \<times> int) \<times> nat) result \<times> umem" where
  "cap_header m hdrp =
     (if hdrp = 0 then (Inl EFAULT, m)
      else if \<not> user_ok hdrp 8 then (Inl EFAULT, m)
      else case copy_from_user m hdrp 8 of
        Inl e \<Rightarrow> (Inl e, m)
      | Inr bs \<Rightarrow>
          let version = u32_of bs; pid = s32 (u32_of (drop 4 bs)); u32s = cap_version_u32s version in
          if u32s = 0 then (Inl EINVAL, snd (copy_to_user m hdrp (bytes_of_u32 0x20080522 @ drop 4 bs)))
          else if pid < 0 then (Inl EINVAL, m)
          else (Inr ((version, pid), u32s), m))"

definition cap_words :: "u64 \<Rightarrow> u32 \<times> u32" where
  "cap_words c = (ucast c, ucast (drop_bit 32 c))"

definition cap_data :: "cred \<Rightarrow> u32 list" where
  "cap_data p =
     (let e = cap_words (cap_effective p); q = cap_words (cap_permitted p); i = cap_words (cap_inheritable p)
      in [fst e, fst q, fst i, snd e, snd q, snd i])"

text \<open>\<open>target\<close> looks a thread or process id up; \<open>None\<close> is \<^verbatim>\<open>ESRCH\<close>.\<close>

definition do_capget :: "(int \<Rightarrow> cred option) \<Rightarrow> cred option \<Rightarrow> nat \<Rightarrow> nat \<Rightarrow> umem \<Rightarrow> int result \<times> umem" where
  "do_capget target self hdrp datap m =
     (case cap_header m hdrp of
        (Inl e, m') \<Rightarrow> (Inl e, m')
      | (Inr ((version, pid), u32s), m') \<Rightarrow>
          (case (if pid = 0 then self else target pid) of
             None \<Rightarrow> (Inl (if 0 < pid then ESRCH else EFAULT), m')
           | Some p \<Rightarrow>
               if datap = 0 then (Inr 0, m')
               else if \<not> user_ok datap (u32s * 12) then (Inl EFAULT, m')
               else map_prod (map_sum id (\<lambda>_. 0)) id
                 (copy_to_user m' datap (concat (map bytes_of_u32 (take (3 * u32s) (cap_data p)))))))"

definition capset_rule :: "u64 \<Rightarrow> u64 \<Rightarrow> u64 \<Rightarrow> cred \<Rightarrow> int result \<times> cred" where
  "capset_rule eff perm inh p =
     (if perm AND NOT (cap_permitted p) \<noteq> 0 then (Inl EPERM, p)
      else if eff AND NOT perm \<noteq> 0 then (Inl EPERM, p)
      else if inh AND NOT (cap_inheritable p OR (cap_permitted p AND cap_bounding p)) \<noteq> 0 then (Inl EPERM, p)
      else (Inr 0, p\<lparr>cap_effective := eff, cap_permitted := perm, cap_inheritable := inh\<rparr>))"

definition cap_field :: "u32 list \<Rightarrow> nat \<Rightarrow> nat \<Rightarrow> u64" where
  "cap_field ws u32s k = ucast (ws ! k) OR (if 1 < u32s then push_bit 32 (ucast (ws ! (k + 3))) else 0)"

definition capset_data :: "u8 list \<Rightarrow> nat \<Rightarrow> cred \<Rightarrow> int result \<times> cred" where
  "capset_data bs u32s p =
     (let ws = words_of bs (3 * u32s)
      in capset_rule (cap_field ws u32s 0) (cap_field ws u32s 1) (cap_field ws u32s 2) p)"

text \<open>\<open>tid_owner\<close> gives the process a thread id belongs to.\<close>

definition do_capset ::
  "(int \<Rightarrow> nat option) \<Rightarrow> nat \<Rightarrow> nat \<Rightarrow> cred option \<times> umem \<Rightarrow> int result \<times> cred option \<times> umem" where
  "do_capset tid_owner hdrp datap x =
     (let (self, m) = x in
      case cap_header m hdrp of
        (Inl e, m') \<Rightarrow> (Inl e, self, m')
      | (Inr ((version, pid), u32s), m') \<Rightarrow>
          (case self of
             None \<Rightarrow> (Inl EFAULT, self, m')
           | Some p \<Rightarrow>
               if 0 < pid \<and> pid \<noteq> int (cred_pid p) \<and> tid_owner pid \<noteq> Some (cred_pid p) then (Inl EPERM, self, m')
               else if datap = 0 \<or> \<not> user_ok datap (u32s * 12) then (Inl EFAULT, self, m')
               else (case copy_from_user m' datap (u32s * 12) of
                       Inl e \<Rightarrow> (Inl e, self, m')
                     | Inr bs \<Rightarrow> let (r, p') = capset_data bs u32s p in (r, Some p', m'))))"

definition do_umask :: "u32 \<Rightarrow> cred option \<Rightarrow> int \<times> cred option" where
  "do_umask um self =
     (case self of
        None \<Rightarrow> (18, None)
      | Some p \<Rightarrow>
          (if umask_val p \<noteq> 0 then uint (umask_val p) else 18, Some (p\<lparr>umask_val := um AND 511\<rparr>)))"

definition do_personality :: "u64 \<Rightarrow> cred option \<Rightarrow> int result \<times> cred option" where
  "do_personality persona =
     on_self (\<lambda>p. (Inr (uint (personality p)),
       if persona \<noteq> 0xFFFFFFFF then p\<lparr>personality := ucast persona\<rparr> else p))"

subsection \<open>Privileges never grow\<close>

text \<open>The calls above as steps of one process.\<close>

datatype cred_call =
    Setuid int | Setgid int | Setreuid int int | Setregid int int | Setresuid int int int
  | Setresgid int int int | Setfsuid int | Setfsgid int | Setgroups umem int nat
  | Capset "u8 list" nat

fun cred_step ::
  "(nat \<Rightarrow> 's \<Rightarrow> nat option \<times> 's) \<Rightarrow> (nat \<Rightarrow> nat \<Rightarrow> 's \<Rightarrow> 's) \<Rightarrow> cred_call \<Rightarrow> cred \<times> 's \<Rightarrow> cred \<times> 's" where
  "cred_step acquire release (Setuid u) (p, st) = (if u < 0 then p else snd (setuid_self (word_of_int u) p), st)"
| "cred_step acquire release (Setgid g) (p, st) = (if g < 0 then p else snd (setgid_self (word_of_int g) p), st)"
| "cred_step acquire release (Setreuid r e) (p, st) = (snd (setreuid_self r e p), st)"
| "cred_step acquire release (Setregid r e) (p, st) = (snd (setregid_self r e p), st)"
| "cred_step acquire release (Setresuid r e s) (p, st) = (snd (setresuid_self r e s p), st)"
| "cred_step acquire release (Setresgid r e s) (p, st) = (snd (setresgid_self r e s p), st)"
| "cred_step acquire release (Setfsuid u) (p, st) = (snd (setfsuid_self u p), st)"
| "cred_step acquire release (Setfsgid g) (p, st) = (snd (setfsgid_self g p), st)"
| "cred_step acquire release (Setgroups m n l) ps = snd (setgroups_self acquire release m n l ps)"
| "cred_step acquire release (Capset bs n) (p, st) = (snd (capset_data bs n p), st)"

definition uids :: "cred \<Rightarrow> u32 set" where "uids p = {ruid p, euid p, suid p}"
definition gids :: "cred \<Rightarrow> u32 set" where "gids p = {rgid p, egid p, sgid p}"

definition caps_le :: "u64 \<Rightarrow> u64 \<Rightarrow> bool" where
  "caps_le a b \<longleftrightarrow> a AND NOT b = 0"

text \<open>\<open>q\<close> has no privilege that \<open>p\<close> lacks.\<close>

definition no_more :: "cred \<Rightarrow> cred \<Rightarrow> bool" where
  "no_more p q \<longleftrightarrow>
     uids q \<subseteq> uids p \<and> gids q \<subseteq> gids p \<and> fsuid q \<in> insert (fsuid p) (uids p) \<and> fsgid q \<in> insert (fsgid p) (gids p) \<and>
     groups q = groups p \<and> cap_bounding q = cap_bounding p \<and>
     caps_le (cap_permitted q) (cap_permitted p) \<and>
     caps_le (cap_effective q) (cap_effective p OR cap_permitted p)"

lemma caps_le_bits: "caps_le a b \<longleftrightarrow> (\<forall>n<64. bit a n \<longrightarrow> bit b n)"
proof
  assume "caps_le a b"
  then have "bit (a AND NOT b) n = bit (0 :: u64) n" for n by (simp add: caps_le_def)
  then show "\<forall>n<64. bit a n \<longrightarrow> bit b n" by (auto simp: bit_and_iff bit_not_iff)
next
  assume "\<forall>n<64. bit a n \<longrightarrow> bit b n"
  then show "caps_le a b" unfolding caps_le_def by (intro bit_word_eqI) (auto simp: bit_and_iff bit_not_iff)
qed

lemma caps_le_simps [simp]: "caps_le 0 b" "caps_le a a" "caps_le a (a OR b)" "caps_le b (a OR b)"
  by (auto simp: caps_le_bits bit_or_iff)

lemma caps_le_trans: "caps_le a b \<Longrightarrow> caps_le b c \<Longrightarrow> caps_le a c"
  by (simp add: caps_le_bits)

lemma caps_le_or: "caps_le a (b OR c) \<Longrightarrow> caps_le b d \<Longrightarrow> caps_le c d \<Longrightarrow> caps_le a d"
  by (auto simp: caps_le_bits bit_or_iff)

lemma no_more_refl [simp]: "no_more p p"
  by (simp add: no_more_def)

lemma no_more_trans:
  assumes "no_more p q" and "no_more q r" shows "no_more p r"
proof -
  have p: "caps_le (cap_permitted r) (cap_permitted p)" using assms caps_le_trans unfolding no_more_def by blast
  have "caps_le (cap_permitted q) (cap_effective p OR cap_permitted p)"
    using assms(1) caps_le_trans [OF _ caps_le_simps(4)] unfolding no_more_def by blast
  then have "caps_le (cap_effective r) (cap_effective p OR cap_permitted p)"
    using assms caps_le_or unfolding no_more_def by blast
  with p show ?thesis using assms unfolding no_more_def by auto
qed

lemma emulate_ids [simp]:
  "ruid (cap_emulate_setxuid a b c p) = ruid p" "euid (cap_emulate_setxuid a b c p) = euid p"
  "suid (cap_emulate_setxuid a b c p) = suid p" "fsuid (cap_emulate_setxuid a b c p) = fsuid p"
  "gids (cap_emulate_setxuid a b c p) = gids p" "fsgid (cap_emulate_setxuid a b c p) = fsgid p"
  "groups (cap_emulate_setxuid a b c p) = groups p" "cap_bounding (cap_emulate_setxuid a b c p) = cap_bounding p"
  by (simp_all add: cap_emulate_setxuid_def Let_def gids_def)

lemma emulate_caps:
  "cap_permitted (cap_emulate_setxuid a b c p) \<in> {0, cap_permitted p}"
  "cap_effective (cap_emulate_setxuid a b c p) \<in> {0, cap_effective p}"
  by (simp_all add: cap_emulate_setxuid_def Let_def)

lemma no_more_uids:
  assumes "uids q \<subseteq> uids p" and "fsuid q \<in> uids p" and "gids q = gids p" and "fsgid q = fsgid p" and "groups q = groups p"
    and "cap_bounding q = cap_bounding p" and "cap_permitted q = cap_permitted p" and "cap_effective q = cap_effective p"
  shows "no_more p (cap_emulate_setxuid a b c q)"
proof -
  have "uids (cap_emulate_setxuid a b c q) = uids q" by (simp add: uids_def)
  then show ?thesis
    using assms emulate_caps [of a b c q] by (auto simp: no_more_def)
qed

lemma no_more_gids:
  assumes "gids q \<subseteq> gids p" and "fsgid q \<in> gids p" and "uids q = uids p" and "fsuid q = fsuid p" and "groups q = groups p"
    and "cap_bounding q = cap_bounding p" and "cap_permitted q = cap_permitted p" and "cap_effective q = cap_effective p"
  shows "no_more p q"
  using assms by (simp add: no_more_def)

lemma id_arg_cases: "id_arg v old = old \<or> v \<noteq> - 1"
  by (simp add: id_arg_def)

lemma setuid_no_more:
  assumes "euid p \<noteq> UID_ROOT" shows "no_more p (snd (setuid_self u p))"
proof (cases "u = ruid p \<or> u = suid p")
  case True
  then have "snd (setuid_self u p) = cap_emulate_setxuid (ruid p) (euid p) (suid p) (p\<lparr>euid := u, fsuid := u\<rparr>)"
    using assms by (auto simp: setuid_self_def Let_def)
  then show ?thesis using True by (auto simp: uids_def gids_def intro: no_more_uids)
qed (use assms in \<open>simp add: setuid_self_def\<close>)

lemma setreuid_no_more:
  assumes "euid p \<noteq> UID_ROOT" shows "no_more p (snd (setreuid_self r e p))"
proof -
  let ?r = "id_arg r (ruid p)" and ?e = "id_arg e (euid p)"
  let ?A = "euid p \<noteq> UID_ROOT \<and> r \<noteq> - 1 \<and> ?r \<noteq> ruid p \<and> ?r \<noteq> euid p"
  let ?B = "euid p \<noteq> UID_ROOT \<and> e \<noteq> - 1 \<and> ?e \<noteq> ruid p \<and> ?e \<noteq> euid p \<and> ?e \<noteq> suid p"
  define q where "q = (if r \<noteq> - 1 \<or> (e \<noteq> - 1 \<and> ?e \<noteq> ruid p)
    then p\<lparr>ruid := ?r, euid := ?e, fsuid := ?e\<rparr>\<lparr>suid := ?e\<rparr> else p\<lparr>ruid := ?r, euid := ?e, fsuid := ?e\<rparr>)"
  have eq: "setreuid_self r e p = (if ?A then (Inl EPERM, p) else if ?B then (Inl EPERM, p) else (Inr 0, cap_emulate_setxuid (ruid p) (euid p) (suid p) q))"
    unfolding setreuid_self_def Let_def q_def ..
  show ?thesis
  proof (cases "?A \<or> ?B")
    case True
    then have "setreuid_self r e p = (Inl EPERM, p)" unfolding eq by (cases ?A) (simp_all only: if_True if_False simp_thms)
    then show ?thesis by simp
  next
    case False
    then have r: "setreuid_self r e p = (Inr 0, cap_emulate_setxuid (ruid p) (euid p) (suid p) q)" unfolding eq by (simp only: if_False simp_thms de_Morgan_disj)
    have ids: "?r \<in> uids p" "?e \<in> uids p"
      using False assms id_arg_cases [of r "ruid p"] id_arg_cases [of e "euid p"] unfolding uids_def by blast+
    have "uids q \<subseteq> {?r, ?e, suid p}" by (simp add: q_def uids_def)
    moreover have "suid p \<in> uids p" by (simp add: uids_def)
    ultimately have "uids q \<subseteq> uids p" using ids by blast
    moreover have "fsuid q = ?e" "gids q = gids p" "fsgid q = fsgid p" "groups q = groups p" "cap_bounding q = cap_bounding p"
      "cap_permitted q = cap_permitted p" "cap_effective q = cap_effective p" by (simp_all add: q_def gids_def)
    ultimately show ?thesis using no_more_uids [of q p] r ids by simp
  qed
qed

lemma setresuid_no_more:
  assumes "euid p \<noteq> UID_ROOT" shows "no_more p (snd (setresuid_self r e s p))"
proof -
  let ?r = "id_arg r (ruid p)" and ?e = "id_arg e (euid p)" and ?s = "id_arg s (suid p)"
  let ?q = "p\<lparr>ruid := ?r, euid := ?e, suid := ?s, fsuid := ?e\<rparr>"
  let ?bad = "\<lambda>v n. v \<noteq> - 1 \<and> n \<noteq> ruid p \<and> n \<noteq> euid p \<and> n \<noteq> suid p"
  let ?A = "euid p \<noteq> UID_ROOT \<and> (?bad r ?r \<or> ?bad e ?e \<or> ?bad s ?s)"
  have eq: "setresuid_self r e s p = (if ?A then (Inl EPERM, p) else (Inr 0, cap_emulate_setxuid (ruid p) (euid p) (suid p) ?q))"
    unfolding setresuid_self_def Let_def ..
  show ?thesis
  proof (cases ?A)
    case True
    then have "setresuid_self r e s p = (Inl EPERM, p)" unfolding eq by (rule if_P)
    then show ?thesis by simp
  next
    case False
    then have "setresuid_self r e s p = (Inr 0, cap_emulate_setxuid (ruid p) (euid p) (suid p) ?q)" unfolding eq by (rule if_not_P)
    moreover have "?r \<in> uids p" "?e \<in> uids p" "?s \<in> uids p"
      using False assms id_arg_cases [of r "ruid p"] id_arg_cases [of e "euid p"] id_arg_cases [of s "suid p"]
      unfolding uids_def by blast+
    ultimately show ?thesis using no_more_uids [of ?q p] by (simp add: uids_def gids_def)
  qed
qed

lemma setgid_no_more:
  assumes "euid p \<noteq> UID_ROOT" shows "no_more p (snd (setgid_self g p))"
proof (cases "g = rgid p \<or> g = sgid p")
  case True
  then have "snd (setgid_self g p) = p\<lparr>egid := g, fsgid := g\<rparr>" using assms by (simp add: setgid_self_def)
  moreover have "gids (p\<lparr>egid := g, fsgid := g\<rparr>) \<subseteq> gids p" "g \<in> gids p" using True by (auto simp: gids_def)
  ultimately show ?thesis using no_more_gids [of "p\<lparr>egid := g, fsgid := g\<rparr>" p] by (simp add: uids_def)
qed (use assms in \<open>simp add: setgid_self_def\<close>)

lemma setregid_no_more:
  assumes "euid p \<noteq> UID_ROOT" shows "no_more p (snd (setregid_self r e p))"
proof -
  let ?r = "id_arg r (rgid p)" and ?e = "id_arg e (egid p)"
  let ?A = "euid p \<noteq> UID_ROOT \<and> r \<noteq> - 1 \<and> ?r \<noteq> rgid p \<and> ?r \<noteq> egid p"
  let ?B = "euid p \<noteq> UID_ROOT \<and> e \<noteq> - 1 \<and> ?e \<noteq> rgid p \<and> ?e \<noteq> egid p \<and> ?e \<noteq> sgid p"
  define q where "q = (if r \<noteq> - 1 \<or> (e \<noteq> - 1 \<and> ?e \<noteq> rgid p)
    then p\<lparr>rgid := ?r, egid := ?e, fsgid := ?e\<rparr>\<lparr>sgid := ?e\<rparr> else p\<lparr>rgid := ?r, egid := ?e, fsgid := ?e\<rparr>)"
  have eq: "setregid_self r e p = (if ?A then (Inl EPERM, p) else if ?B then (Inl EPERM, p) else (Inr 0, q))"
    unfolding setregid_self_def Let_def q_def ..
  show ?thesis
  proof (cases "?A \<or> ?B")
    case True
    then have "setregid_self r e p = (Inl EPERM, p)" unfolding eq by (cases ?A) (simp_all only: if_True if_False simp_thms)
    then show ?thesis by simp
  next
    case False
    then have r: "setregid_self r e p = (Inr 0, q)" unfolding eq by (simp only: if_False simp_thms de_Morgan_disj)
    have ids: "?r \<in> gids p" "?e \<in> gids p"
      using False assms id_arg_cases [of r "rgid p"] id_arg_cases [of e "egid p"] unfolding gids_def by blast+
    have "gids q \<subseteq> {?r, ?e, sgid p}" by (simp add: q_def gids_def)
    moreover have "sgid p \<in> gids p" by (simp add: gids_def)
    ultimately have "gids q \<subseteq> gids p" using ids by blast
    moreover have "fsgid q = ?e" "uids q = uids p" "fsuid q = fsuid p" "groups q = groups p" "cap_bounding q = cap_bounding p"
      "cap_permitted q = cap_permitted p" "cap_effective q = cap_effective p" by (simp_all add: q_def uids_def)
    ultimately show ?thesis using no_more_gids [of q p] r ids by simp
  qed
qed

lemma setresgid_no_more:
  assumes "euid p \<noteq> UID_ROOT" shows "no_more p (snd (setresgid_self r e s p))"
proof -
  let ?r = "id_arg r (rgid p)" and ?e = "id_arg e (egid p)" and ?s = "id_arg s (sgid p)"
  let ?q = "p\<lparr>rgid := ?r, egid := ?e, sgid := ?s, fsgid := ?e\<rparr>"
  let ?bad = "\<lambda>v n. v \<noteq> - 1 \<and> n \<noteq> rgid p \<and> n \<noteq> egid p \<and> n \<noteq> sgid p"
  let ?A = "euid p \<noteq> UID_ROOT \<and> (?bad r ?r \<or> ?bad e ?e \<or> ?bad s ?s)"
  have eq: "setresgid_self r e s p = (if ?A then (Inl EPERM, p) else (Inr 0, ?q))"
    unfolding setresgid_self_def Let_def ..
  show ?thesis
  proof (cases ?A)
    case True
    then have "setresgid_self r e s p = (Inl EPERM, p)" unfolding eq by (rule if_P)
    then show ?thesis by simp
  next
    case False
    then have "setresgid_self r e s p = (Inr 0, ?q)" unfolding eq by (rule if_not_P)
    moreover have "?r \<in> gids p" "?e \<in> gids p" "?s \<in> gids p"
      using False assms id_arg_cases [of r "rgid p"] id_arg_cases [of e "egid p"] id_arg_cases [of s "sgid p"]
      unfolding gids_def by blast+
    ultimately show ?thesis using no_more_gids [of ?q p] by (simp add: uids_def gids_def)
  qed
qed

lemma setfs_no_more:
  assumes "euid p \<noteq> UID_ROOT" shows "no_more p (snd (setfsuid_self v p))" and "no_more p (snd (setfsgid_self v p))"
  using assms by (auto simp: setfsuid_self_def setfsgid_self_def Let_def no_more_def uids_def gids_def)

lemma capset_no_more: "no_more p (snd (capset_rule eff perm inh p))"
proof -
  let ?C = "caps_le inh (cap_inheritable p OR (cap_permitted p AND cap_bounding p))"
  let ?q = "p\<lparr>cap_effective := eff, cap_permitted := perm, cap_inheritable := inh\<rparr>"
  have eq: "capset_rule eff perm inh p =
    (if \<not> caps_le perm (cap_permitted p) then (Inl EPERM, p) else if \<not> caps_le eff perm then (Inl EPERM, p)
     else if \<not> ?C then (Inl EPERM, p) else (Inr 0, ?q))"
    unfolding capset_rule_def caps_le_def ..
  show ?thesis
  proof (cases "caps_le perm (cap_permitted p) \<and> caps_le eff perm \<and> ?C")
    case True
    then have "caps_le eff (cap_effective p OR cap_permitted p)" using caps_le_trans caps_le_simps(4) by blast
    moreover have "capset_rule eff perm inh p = (Inr 0, ?q)" using True unfolding eq by (simp only: simp_thms if_False)
    ultimately show ?thesis using True by (simp add: no_more_def uids_def gids_def)
  next
    case False
    then have "snd (capset_rule eff perm inh p) = p" unfolding eq by (auto simp only: snd_conv simp_thms split: if_split)
    then show ?thesis by simp
  qed
qed

lemma unprivileged_step:
  assumes "UID_ROOT \<notin> uids p"
  shows "no_more p (fst (cred_step acquire release c (p, st)))"
proof -
  have e: "euid p \<noteq> UID_ROOT" "euid p \<noteq> 0" using assms by (simp_all add: uids_def UID_ROOT_def)
  show ?thesis
    by (cases c) (simp_all add: e setuid_no_more setgid_no_more setreuid_no_more setregid_no_more setresuid_no_more
        setresgid_no_more setfs_no_more capset_no_more capset_data_def setgroups_self_def Let_def)
qed

lemma unprivileged_run:
  assumes "UID_ROOT \<notin> uids p"
  shows "no_more p (fst (fold (cred_step acquire release) cs (p, st)))"
proof (induction cs rule: rev_induct)
  case (snoc c cs)
  let ?q = "fold (cred_step acquire release) cs (p, st)"
  have "UID_ROOT \<notin> uids (fst ?q)" using snoc assms by (auto simp: no_more_def)
  from unprivileged_step [OF this, of acquire release c "snd ?q"] show ?case using no_more_trans [OF snoc] by simp
qed simp

subsection \<open>Properties\<close>

text \<open>Fixtures: a process of user 1000, the superuser, and a source without pages.\<close>

definition user_cred :: cred where
  "user_cred = \<lparr>ruid = 1000, euid = 1000, suid = 1000, fsuid = 1000, rgid = 100, egid = 100, sgid = 100, fsgid = 100,
     groups = [4], groups_ptr = 0x1000, groups_pages = 1, cap_effective = 0, cap_permitted = 0, cap_inheritable = 0,
     cap_bounding = 0, cred_pid = 7, umask_val = 18, personality = 0\<rparr>"

definition root_cred :: cred where
  "root_cred = user_cred\<lparr>ruid := 0, euid := 0, suid := 0, fsuid := 0, cap_effective := 3, cap_permitted := 3\<rparr>"

definition no_pages :: "nat \<Rightarrow> unit \<Rightarrow> nat option \<times> unit" where "no_pages n st = (None, st)"

text \<open>C20: No sequence of identity, group and capability calls gives a process without a root identity
  anything it did not have: its user and group identities stay within those it started with, its
  groups stay the same, and its capabilities only shrink.\<close>

theorem cred_no_escalation:
  assumes "UID_ROOT \<notin> uids p"
  shows "let q = fst (fold (cred_step acquire release) cs (p, st)) in
    uids q \<subseteq> uids p \<and> gids q \<subseteq> gids p \<and> groups q = groups p \<and>
    caps_le (cap_permitted q) (cap_permitted p) \<and> caps_le (cap_effective q) (cap_effective p OR cap_permitted p)"
  using unprivileged_run [OF assms, of acquire release cs st] unfolding no_more_def Let_def by simp

theorem cred_no_escalation_witness:
  "let q = fst (fold (cred_step no_pages (\<lambda>_ _ st. st)) [Setuid 0, Setreuid (- 1) 0] (user_cred, ())) in
    uids q \<subseteq> uids user_cred \<and> gids q \<subseteq> gids user_cred \<and> groups q = groups user_cred \<and>
    caps_le (cap_permitted q) (cap_permitted user_cred) \<and>
    caps_le (cap_effective q) (cap_effective user_cred OR cap_permitted user_cred)"
  by (rule cred_no_escalation) (simp add: uids_def user_cred_def UID_ROOT_def)

lemma setuid_drops:
  assumes "euid p = UID_ROOT" and "u \<noteq> UID_ROOT"
  shows "fst (setuid_self u p) = Inr 0" and "uids (snd (setuid_self u p)) = {u}"
    and "cap_permitted (snd (setuid_self u p)) = 0" and "cap_effective (snd (setuid_self u p)) = 0"
  using assms by (simp_all add: setuid_self_def Let_def uids_def cap_emulate_setxuid_def)

lemma caps_le_zero: "caps_le a 0 \<Longrightarrow> a = 0"
  by (simp add: caps_le_def)

text \<open>C21: When the superuser calls \<^verbatim>\<open>setuid\<close> with another user, the privilege is gone for good: every
  later sequence of calls leaves all three identities at that user and both capability sets empty.\<close>

theorem setuid_irrevocable:
  assumes "euid p = UID_ROOT" and "0 \<le> uid" and "(word_of_int uid :: u32) \<noteq> UID_ROOT"
  shows "\<exists>q. do_setuid uid (Some p) = (Inr 0, Some q) \<and>
    (\<forall>cs st. let q' = fst (fold (cred_step acquire release) cs (q, st)) in
      uids q' = {word_of_int uid} \<and> cap_permitted q' = 0 \<and> cap_effective q' = 0)"
proof -
  let ?u = "word_of_int uid :: u32"
  let ?q = "snd (setuid_self ?u p)"
  note D = setuid_drops [OF assms(1,3)]
  have "do_setuid uid (Some p) = (Inr 0, Some ?q)"
    using assms(2) D(1) by (simp add: do_setuid_def on_self_def map_prod_def split_beta)
  moreover have "uids q' = {?u} \<and> cap_permitted q' = 0 \<and> cap_effective q' = 0"
    if "q' = fst (fold (cred_step acquire release) cs (?q, st))" for cs st q'
  proof -
    have "no_more ?q q'" unfolding that by (rule unprivileged_run) (use D(2) assms(3) in auto)
    then have "uids q' \<subseteq> {?u}" "caps_le (cap_permitted q') 0" "caps_le (cap_effective q') (0 OR 0)"
      unfolding no_more_def D by simp_all
    moreover have "uids q' \<noteq> {}" by (simp add: uids_def)
    ultimately show ?thesis using caps_le_zero by auto
  qed
  ultimately show ?thesis unfolding Let_def by blast
qed

theorem setuid_irrevocable_witness:
  "\<exists>q. do_setuid 1000 (Some root_cred) = (Inr 0, Some q) \<and>
    (\<forall>cs st. let q' = fst (fold (cred_step no_pages (\<lambda>_ _ st. st)) cs (q, st)) in
      uids q' = {word_of_int 1000} \<and> cap_permitted q' = 0 \<and> cap_effective q' = 0)"
  by (rule setuid_irrevocable) (simp_all add: root_cred_def user_cred_def UID_ROOT_def)

lemma pow2_for_ge: "0 < p2 \<Longrightarrow> pages \<le> pow2_for p2 pages"
  by (induction p2 pages rule: pow2_for.induct) (subst pow2_for.simps, auto)

text \<open>The pages allocated for a group array hold all its entries.\<close>

lemma groups_fit: "0 < count \<Longrightarrow> nat count * 4 \<le> cred_groups_pages_for count * 4096"
  using pow2_for_ge [of 1 "(nat count * 4 + 4095) div 4096"] by (simp add: cred_groups_pages_for_def)

text \<open>A mask of zero is read back as 022: zero stands for a mask that was never set.\<close>

lemma umask_zero_forgotten: "fst (do_umask m (snd (do_umask 0 (Some p)))) = 18"
  by (simp add: do_umask_def)

end
