(* ===== verification/Page_Cache.thy ===== *)
theory Page_Cache
  imports Mm_Props "HOL-Library.Multiset"
begin

unbundle bit_operations_syntax

section \<open>The page cache (\<^verbatim>\<open>src/kernel/mm/page_cache.c\<close>)\<close>

text \<open>
  A hash table of 4096 chains that maps a file offset of an inode to a page. The page operations, the
  slab of entries and the file read are arguments. Loading a page runs without the lock:
  \<open>other\<close> is what the other processors do meanwhile. \<open>None\<close> is a fault of the page allocator.
\<close>

definition PC_HASH_SIZE :: nat where "PC_HASH_SIZE = 4096"

record pc_entry =
  pc_id :: nat
  pc_ino :: u64
  pc_offset :: u64
  pc_phys :: nat

record page_cache =
  pc_hash :: "pc_entry list list"
  pc_slab_ready :: bool
  pc_stat_hit :: nat
  pc_stat_miss :: nat

record ('s, 't) pc_env =
  op_incref :: "nat \<Rightarrow> 's \<Rightarrow> 's"
  op_free :: "nat \<Rightarrow> 's \<Rightarrow> 's option"
  op_alloc :: "'s \<Rightarrow> nat option \<times> 's"
  op_pread :: "int \<Rightarrow> u64 \<Rightarrow> nat \<Rightarrow> u64 \<Rightarrow> 's \<Rightarrow> int \<times> 's"
  op_zero :: "nat \<Rightarrow> nat \<Rightarrow> 's \<Rightarrow> 's"
  op_new :: "'t \<Rightarrow> nat option \<times> 't"
  op_drop :: "nat \<Rightarrow> 't \<Rightarrow> 't"

type_synonym ('s, 't) pc_state = "page_cache \<times> 's \<times> 't"

definition pc_hash_fn :: "u64 \<Rightarrow> u64 \<Rightarrow> nat" where
  "pc_hash_fn ino offset =
     unat ((ino * 2654435761 + drop_bit 12 offset * 2246822519) AND 4095)"

definition pc_ensure_slab :: "page_cache \<Rightarrow> page_cache" where
  "pc_ensure_slab c = (if pc_slab_ready c then c else c\<lparr>pc_slab_ready := True\<rparr>)"

definition pc_key :: "pc_entry \<Rightarrow> u64 \<times> u64" where
  "pc_key e = (pc_ino e, pc_offset e)"

definition pc_find_locked :: "page_cache \<Rightarrow> u64 \<Rightarrow> u64 \<Rightarrow> pc_entry option" where
  "pc_find_locked c ino offset =
     find (\<lambda>e. pc_ino e = ino \<and> pc_offset e = offset) (pc_hash c ! pc_hash_fn ino offset)"

definition page_cache_lookup :: "page_cache \<Rightarrow> u64 \<Rightarrow> u64 \<Rightarrow> nat" where
  "page_cache_lookup c ino offset =
     (case pc_find_locked c ino offset of None \<Rightarrow> 0 | Some e \<Rightarrow> pc_phys e)"

definition pc_link :: "pc_entry \<Rightarrow> page_cache \<Rightarrow> page_cache" where
  "pc_link e c =
     (let idx = pc_hash_fn (pc_ino e) (pc_offset e) in c\<lparr>pc_hash := (pc_hash c)[idx := e # pc_hash c ! idx]\<rparr>)"

definition page_cache_insert ::
  "('s, 't) pc_env \<Rightarrow> u64 \<Rightarrow> u64 \<Rightarrow> nat \<Rightarrow> ('s, 't) pc_state \<Rightarrow> ('s, 't) pc_state option" where
  "page_cache_insert env ino offset phys x =
     (let (c0, s, t) = x; c = pc_ensure_slab c0 in
      case op_new env t of
        (None, t1) \<Rightarrow> Some (c, s, t1)
      | (Some e, t1) \<Rightarrow>
          let s1 = op_incref env phys s in
          (case pc_find_locked c ino offset of
             Some _ \<Rightarrow> map_option (\<lambda>s2. (c, s2, op_drop env e t1)) (op_free env phys s1)
           | None \<Rightarrow> Some (pc_link \<lparr>pc_id = e, pc_ino = ino, pc_offset = offset, pc_phys = phys\<rparr> c, s1, t1)))"

text \<open>The second locked section of \<^verbatim>\<open>page_cache_get_or_load\<close>, for the loaded page \<open>pg\<close>.\<close>

definition pc_publish ::
  "('s, 't) pc_env \<Rightarrow> u64 \<Rightarrow> u64 \<Rightarrow> nat \<Rightarrow> ('s, 't) pc_state \<Rightarrow> (nat \<times> ('s, 't) pc_state) option" where
  "pc_publish env ino offset pg x =
     (let (c, s, t) = x in
      case op_new env t of
        (None, t1) \<Rightarrow> map_option (\<lambda>s1. (pg, c, s1, t1)) (op_free env pg (op_incref env pg s))
      | (Some e, t1) \<Rightarrow>
          (case pc_find_locked c ino offset of
             Some winner \<Rightarrow>
               map_option (\<lambda>s1. (pc_phys winner, c, s1, op_drop env e t1))
                 (op_free env pg (op_incref env (pc_phys winner) s))
           | None \<Rightarrow>
               Some (pg, pc_link \<lparr>pc_id = e, pc_ino = ino, pc_offset = offset, pc_phys = pg\<rparr> c, op_incref env pg s, t1)))"

definition page_cache_get_or_load ::
  "('s, 't) pc_env \<Rightarrow> (('s, 't) pc_state \<Rightarrow> ('s, 't) pc_state) \<Rightarrow> int \<Rightarrow> u64 \<Rightarrow> u64 \<Rightarrow> ('s, 't) pc_state
     \<Rightarrow> (nat \<times> ('s, 't) pc_state) option" where
  "page_cache_get_or_load env other backend ino offset x =
     (let (c0, s, t) = x; c = pc_ensure_slab c0 in
      case pc_find_locked c ino offset of
        Some e \<Rightarrow> Some (pc_phys e, c\<lparr>pc_stat_hit := pc_stat_hit c + 1\<rparr>, op_incref env (pc_phys e) s, t)
      | None \<Rightarrow>
          let c1 = c\<lparr>pc_stat_miss := pc_stat_miss c + 1\<rparr> in
          (case op_alloc env s of
             (None, s1) \<Rightarrow> Some (0, c1, s1, t)
           | (Some pg, s1) \<Rightarrow>
               let (rd, s2) = op_pread env backend ino pg offset s1 in
               if rd < 0 then map_option (\<lambda>s3. (0, c1, s3, t)) (op_free env pg s2)
               else
                 let s3 = (if rd < 4096 then op_zero env (pg + nat rd) (nat (4096 - rd)) s2 else s2)
                 in pc_publish env ino offset pg (other (c1, s3, t))))"

text \<open>\<^verbatim>\<open>page_cache_remove\<close> unlinks the first entry of the chain with the key.\<close>

definition page_cache_remove ::
  "('s, 't) pc_env \<Rightarrow> u64 \<Rightarrow> u64 \<Rightarrow> ('s, 't) pc_state \<Rightarrow> ('s, 't) pc_state option" where
  "page_cache_remove env ino offset x =
     (let (c, s, t) = x; idx = pc_hash_fn ino offset in
      case pc_find_locked c ino offset of
        None \<Rightarrow> Some x
      | Some e \<Rightarrow>
          map_option (\<lambda>s1. (c\<lparr>pc_hash := (pc_hash c)[idx := remove1 e (pc_hash c ! idx)]\<rparr>, s1, op_drop env (pc_id e) t))
            (op_free env (pc_phys e) s))"

fun pc_release_all :: "('s, 't) pc_env \<Rightarrow> pc_entry list \<Rightarrow> 's \<times> 't \<Rightarrow> ('s \<times> 't) option" where
  "pc_release_all env [] st = Some st"
| "pc_release_all env (e # es) st =
     (case op_free env (pc_phys e) (fst st) of
        None \<Rightarrow> None
      | Some s1 \<Rightarrow> pc_release_all env es (s1, op_drop env (pc_id e) (snd st)))"

definition page_cache_invalidate_ino ::
  "('s, 't) pc_env \<Rightarrow> u64 \<Rightarrow> ('s, 't) pc_state \<Rightarrow> ('s, 't) pc_state option" where
  "page_cache_invalidate_ino env ino x =
     (let (c, s, t) = x in
      if \<not> pc_slab_ready c then Some x
      else let victims = rev (filter (\<lambda>e. pc_ino e = ino) (concat (pc_hash c))) in
        map_option (\<lambda>st. (c\<lparr>pc_hash := map (filter (\<lambda>e. pc_ino e \<noteq> ino)) (pc_hash c)\<rparr>, st))
          (pc_release_all env victims (s, t)))"

subsection \<open>The table as a finite map\<close>

definition ents :: "page_cache \<Rightarrow> pc_entry multiset" where
  "ents c = mset (concat (pc_hash c))"

definition pc_wf :: "page_cache \<Rightarrow> bool" where
  "pc_wf c \<longleftrightarrow>
     length (pc_hash c) = PC_HASH_SIZE \<and>
     (\<forall>i<PC_HASH_SIZE. \<forall>e\<in>set (pc_hash c ! i). pc_hash_fn (pc_ino e) (pc_offset e) = i) \<and>
     (\<forall>k. count (image_mset pc_key (ents c)) k \<le> 1)"

definition cache_map :: "page_cache \<Rightarrow> u64 \<times> u64 \<Rightarrow> nat option" where
  "cache_map c k = (if \<exists>e. e \<in># ents c \<and> pc_key e = k then Some (page_cache_lookup c (fst k) (snd k)) else None)"

lemma hash_bound [simp]: "pc_hash_fn ino offset < 4096"
proof -
  have "unat ((x :: u64) AND 4095) \<le> 4095" for x using word_and_le1 [of x 4095] by (simp add: word_le_nat_alt)
  then have "pc_hash_fn ino offset \<le> 4095" unfolding pc_hash_fn_def by blast
  then show ?thesis by simp
qed

lemma mset_concat_update:
  "i < length xss \<Longrightarrow> mset (concat (xss[i := ys])) + mset (xss ! i) = mset (concat xss) + mset ys"
  by (induction xss arbitrary: i) (auto split: nat.splits)

lemma mset_concat_filter: "mset (concat (map (filter P) xss)) = filter_mset P (mset (concat xss))"
  by (induction xss) auto

lemma ents_link: "pc_wf c \<Longrightarrow> ents (pc_link e c) = add_mset e (ents c)"
proof -
  assume "pc_wf c"
  then have "pc_hash_fn (pc_ino e) (pc_offset e) < length (pc_hash c)" by (simp add: pc_wf_def PC_HASH_SIZE_def)
  from mset_concat_update [OF this, of "e # pc_hash c ! pc_hash_fn (pc_ino e) (pc_offset e)"]
  show ?thesis by (simp add: ents_def pc_link_def Let_def)
qed

lemma find_locked:
  assumes "pc_wf c"
  shows "pc_find_locked c ino offset = Some e \<Longrightarrow> e \<in># ents c \<and> pc_key e = (ino, offset)"
    and "pc_find_locked c ino offset = None \<Longrightarrow> e \<in># ents c \<Longrightarrow> pc_key e \<noteq> (ino, offset)"
proof -
  have len: "pc_hash_fn ino offset < length (pc_hash c)" using assms by (simp add: pc_wf_def PC_HASH_SIZE_def)
  {
    assume "pc_find_locked c ino offset = Some e"
    then have "e \<in> set (pc_hash c ! pc_hash_fn ino offset)" "pc_key e = (ino, offset)"
      by (auto simp: pc_find_locked_def find_Some_iff pc_key_def)
    then show "e \<in># ents c \<and> pc_key e = (ino, offset)" using nth_mem [OF len] unfolding ents_def by auto
  }
  assume n: "pc_find_locked c ino offset = None" and m: "e \<in># ents c"
  from m obtain i where i: "i < 4096" "e \<in> set (pc_hash c ! i)"
    using assms by (auto simp: ents_def in_set_conv_nth [of _ "pc_hash c"] pc_wf_def PC_HASH_SIZE_def)
  then have "i = pc_hash_fn (pc_ino e) (pc_offset e)" using assms by (auto simp: pc_wf_def PC_HASH_SIZE_def)
  then show "pc_key e \<noteq> (ino, offset)" using n i(2) by (auto simp: pc_find_locked_def find_None_iff pc_key_def)
qed

lemma key_unique:
  assumes "pc_wf c" and "e \<in># ents c" and "f \<in># ents c" and "pc_key e = pc_key f"
  shows "e = f"
proof (rule ccontr)
  assume ne: "e \<noteq> f"
  then obtain M where M: "ents c = add_mset e (add_mset f M)"
    using assms(2,3) by (metis insert_DiffM insert_noteq_member)
  have "2 \<le> count (image_mset pc_key (ents c)) (pc_key e)" unfolding M using assms(4) by simp
  moreover have "count (image_mset pc_key (ents c)) (pc_key e) \<le> 1" using assms(1) unfolding pc_wf_def by blast
  ultimately show False by linarith
qed

lemma cache_map_eq:
  assumes "pc_wf c"
  shows "cache_map c k = Some p \<longleftrightarrow> (\<exists>e. e \<in># ents c \<and> pc_key e = k \<and> pc_phys e = p)"
proof -
  have "page_cache_lookup c (fst k) (snd k) = pc_phys e" if e: "e \<in># ents c" "pc_key e = k" for e
  proof (cases "pc_find_locked c (fst k) (snd k)")
    case None
    then show ?thesis using find_locked(2) [OF assms None e(1)] e(2) by simp
  next
    case (Some f)
    have "f = e" using key_unique [OF assms] find_locked(1) [OF assms Some] e by simp
    then show ?thesis using Some by (simp add: page_cache_lookup_def)
  qed
  then show ?thesis unfolding cache_map_def by auto
qed

lemma cache_map_None: "cache_map c k = None \<longleftrightarrow> (\<forall>e. e \<in># ents c \<longrightarrow> pc_key e \<noteq> k)"
  by (auto simp: cache_map_def)

lemma lookup_cache_map:
  assumes "pc_wf c"
  shows "page_cache_lookup c ino offset = (case cache_map c (ino, offset) of None \<Rightarrow> 0 | Some p \<Rightarrow> p)"
proof (cases "pc_find_locked c ino offset")
  case None
  then have "cache_map c (ino, offset) = None" using find_locked(2) [OF assms None] by (auto simp: cache_map_None)
  then show ?thesis using None by (simp add: page_cache_lookup_def)
next
  case (Some e)
  then have "cache_map c (ino, offset) = Some (pc_phys e)" using find_locked(1) [OF assms Some] cache_map_eq [OF assms] by blast
  then show ?thesis using Some by (simp add: page_cache_lookup_def)
qed

lemma option_ext: "(\<And>p. x = Some p \<longleftrightarrow> y = Some p) \<Longrightarrow> x = y"
  by (cases x; cases y) auto

lemma wf_link:
  assumes "pc_wf c" and "\<And>f. f \<in># ents c \<Longrightarrow> pc_key f \<noteq> pc_key e"
  shows "pc_wf (pc_link e c)"
proof -
  have "pc_key e \<notin># image_mset pc_key (ents c)" using assms(2) by (metis imageE set_image_mset)
  then have z: "count (image_mset pc_key (ents c)) (pc_key e) = 0" by (simp only: not_in_iff)
  have u: "count (image_mset pc_key (ents c)) k \<le> 1" for k using assms(1) unfolding pc_wf_def by blast
  have "count (image_mset pc_key (ents (pc_link e c))) k \<le> 1" for k
    using z u [of k] by (cases "pc_key e = k") (auto simp: ents_link [OF assms(1)])
  moreover have "\<forall>i<4096. \<forall>f\<in>set (pc_hash (pc_link e c) ! i). pc_hash_fn (pc_ino f) (pc_offset f) = i"
    using assms(1) by (auto simp: pc_link_def Let_def pc_wf_def PC_HASH_SIZE_def nth_list_update)
  moreover have "length (pc_hash (pc_link e c)) = 4096"
    using assms(1) by (simp add: pc_link_def Let_def pc_wf_def PC_HASH_SIZE_def)
  ultimately show ?thesis unfolding pc_wf_def PC_HASH_SIZE_def by blast
qed

lemma cache_map_link:
  assumes "pc_wf c" and "\<And>f. f \<in># ents c \<Longrightarrow> pc_key f \<noteq> pc_key e"
  shows "cache_map (pc_link e c) = (cache_map c)(pc_key e \<mapsto> pc_phys e)"
proof (rule ext, rule option_ext)
  fix k p
  show "cache_map (pc_link e c) k = Some p \<longleftrightarrow> ((cache_map c)(pc_key e \<mapsto> pc_phys e)) k = Some p"
    using assms(2) by (auto simp: cache_map_eq [OF wf_link [OF assms]] cache_map_eq [OF assms(1)] ents_link [OF assms(1)])
qed

lemma wf_sub:
  assumes "pc_wf c" and "length (pc_hash c') = 4096" and "\<And>i. i < 4096 \<Longrightarrow> set (pc_hash c' ! i) \<subseteq> set (pc_hash c ! i)"
    and "ents c' \<subseteq># ents c"
  shows "pc_wf c'"
proof -
  have "count (image_mset pc_key (ents c')) k \<le> 1" for k
  proof -
    have "count (image_mset pc_key (ents c')) k \<le> count (image_mset pc_key (ents c)) k"
      by (rule mset_subset_eq_count [OF image_mset_subseteq_mono [OF assms(4)]])
    also have "\<dots> \<le> 1" using assms(1) unfolding pc_wf_def by blast
    finally show ?thesis .
  qed
  then show ?thesis using assms(1-3) unfolding pc_wf_def PC_HASH_SIZE_def by blast
qed

lemma map_of_ents:
  assumes "pc_wf c" and "pc_wf c'" and "\<And>e. e \<in># ents c' \<longleftrightarrow> e \<in># ents c \<and> P (pc_key e)"
  shows "cache_map c' = (\<lambda>k. if P k then cache_map c k else None)"
proof (rule ext, rule option_ext)
  fix k p
  show "cache_map c' k = Some p \<longleftrightarrow> (if P k then cache_map c k else None) = Some p"
    by (auto simp: cache_map_eq [OF assms(1)] cache_map_eq [OF assms(2)] assms(3))
qed

text \<open>Unlinking one entry, and all entries of an inode.\<close>

definition pc_unlink :: "pc_entry \<Rightarrow> page_cache \<Rightarrow> page_cache" where
  "pc_unlink e c =
     (let idx = pc_hash_fn (pc_ino e) (pc_offset e) in c\<lparr>pc_hash := (pc_hash c)[idx := remove1 e (pc_hash c ! idx)]\<rparr>)"

definition pc_purge :: "u64 \<Rightarrow> page_cache \<Rightarrow> page_cache" where
  "pc_purge ino c = c\<lparr>pc_hash := map (filter (\<lambda>e. pc_ino e \<noteq> ino)) (pc_hash c)\<rparr>"

lemma entry_chain:
  assumes "pc_wf c" and "e \<in># ents c" shows "e \<in> set (pc_hash c ! pc_hash_fn (pc_ino e) (pc_offset e))"
proof -
  from assms obtain i where "i < 4096" "e \<in> set (pc_hash c ! i)"
    by (auto simp: ents_def in_set_conv_nth [of _ "pc_hash c"] pc_wf_def PC_HASH_SIZE_def)
  moreover from this have "i = pc_hash_fn (pc_ino e) (pc_offset e)" using assms(1) by (auto simp: pc_wf_def PC_HASH_SIZE_def)
  ultimately show ?thesis by simp
qed

lemma mset_cut: "A + M = B + (M - {#e#}) \<Longrightarrow> e \<in># M \<Longrightarrow> A = B - {#e#}"
proof -
  assume eq: "A + M = B + (M - {#e#})" and "e \<in># M"
  then obtain N where "M = add_mset e N" by (meson multi_member_split)
  with eq have "add_mset e A + N = B + N" by simp
  then have "add_mset e A = B" by (simp only: add_right_cancel)
  then show "A = B - {#e#}" by auto
qed

lemma unlink_spec:
  assumes "pc_wf c" and "e \<in># ents c"
  shows "ents (pc_unlink e c) = ents c - {#e#}" and "pc_wf (pc_unlink e c)"
    and "cache_map (pc_unlink e c) = (cache_map c)(pc_key e := None)"
proof -
  let ?i = "pc_hash_fn (pc_ino e) (pc_offset e)"
  have len: "length (pc_hash c) = 4096" using assms(1) by (simp add: pc_wf_def PC_HASH_SIZE_def)
  have "mset (concat ((pc_hash c)[?i := remove1 e (pc_hash c ! ?i)])) + mset (pc_hash c ! ?i) =
      mset (concat (pc_hash c)) + (mset (pc_hash c ! ?i) - {#e#})"
    using mset_concat_update [of ?i "pc_hash c" "remove1 e (pc_hash c ! ?i)"] len by (simp add: mset_remove1)
  then show E: "ents (pc_unlink e c) = ents c - {#e#}"
    using mset_cut entry_chain [OF assms] unfolding ents_def pc_unlink_def Let_def by (metis page_cache.select_convs(1)
        page_cache.surjective page_cache.update_convs(1) set_mset_mset)
  have sub: "set (pc_hash (pc_unlink e c) ! i) \<subseteq> set (pc_hash c ! i)" if "i < 4096" for i
    using that len set_remove1_subset [of e "pc_hash c ! i"] by (simp add: pc_unlink_def Let_def nth_list_update)
  show W: "pc_wf (pc_unlink e c)"
    by (rule wf_sub [OF assms(1)]) (use sub len E in \<open>simp_all add: pc_unlink_def Let_def\<close>)
  have "count (image_mset pc_key (ents c)) (pc_key e) \<le> 1" using assms(1) unfolding pc_wf_def by blast
  moreover obtain N where N: "ents c = add_mset e N" using multi_member_split [OF assms(2)] by blast
  ultimately have "count (image_mset pc_key N) (pc_key e) = 0" by simp
  then have "pc_key e \<notin># image_mset pc_key N" by (simp only: not_in_iff)
  then have "pc_key f \<noteq> pc_key e" if "f \<in># N" for f using that by (metis image_eqI set_image_mset)
  then have "f \<in># ents (pc_unlink e c) \<longleftrightarrow> f \<in># ents c \<and> pc_key f \<noteq> pc_key e" for f
    unfolding E N by auto
  from map_of_ents [OF assms(1) W this] show "cache_map (pc_unlink e c) = (cache_map c)(pc_key e := None)" by auto
qed

lemma purge_spec:
  assumes "pc_wf c"
  shows "ents (pc_purge ino c) = filter_mset (\<lambda>e. pc_ino e \<noteq> ino) (ents c)" and "pc_wf (pc_purge ino c)"
    and "cache_map (pc_purge ino c) = (\<lambda>k. if fst k \<noteq> ino then cache_map c k else None)"
proof -
  show E: "ents (pc_purge ino c) = filter_mset (\<lambda>e. pc_ino e \<noteq> ino) (ents c)"
    by (simp add: ents_def pc_purge_def mset_concat_filter)
  show W: "pc_wf (pc_purge ino c)"
    by (rule wf_sub [OF assms]) (use assms E in \<open>auto simp: pc_purge_def pc_wf_def PC_HASH_SIZE_def\<close>)
  show "cache_map (pc_purge ino c) = (\<lambda>k. if fst k \<noteq> ino then cache_map c k else None)"
    by (rule map_of_ents [OF assms W]) (simp add: E pc_key_def)
qed

subsection \<open>Reference accounting\<close>

text \<open>
  What the cache relies on: reference counts \<open>refs\<close> that \<open>op_incref\<close> and \<open>op_free\<close> change by one, an
  allocator that hands out pages without references, and page contents that do not matter to either.
\<close>

locale paged_cache =
  fixes env :: "('s, 't) pc_env" and good :: "'s \<Rightarrow> bool" and refs :: "'s \<Rightarrow> nat \<Rightarrow> nat"
  assumes incref_law: "good s \<Longrightarrow> 0 < refs s p \<Longrightarrow> refs s p < 65535 \<Longrightarrow>
      good (op_incref env p s) \<and> refs (op_incref env p s) = (refs s)(p := refs s p + 1)"
    and free_law: "good s \<Longrightarrow> 0 < refs s p \<Longrightarrow>
      \<exists>s'. op_free env p s = Some s' \<and> good s' \<and> refs s' = (refs s)(p := refs s p - 1)"
    and alloc_law: "good s \<Longrightarrow> op_alloc env s = (Some p, s') \<Longrightarrow>
      good s' \<and> p \<noteq> 0 \<and> refs s p = 0 \<and> refs s' = (refs s)(p := 1)"
    and alloc_none: "good s \<Longrightarrow> op_alloc env s = (None, s') \<Longrightarrow> good s' \<and> refs s' = refs s"
    and pread_law: "good s \<Longrightarrow> good (snd (op_pread env b ino p off s)) \<and> refs (snd (op_pread env b ino p off s)) = refs s"
    and never_zero: "good s \<Longrightarrow> refs s 0 = 0"
    and zero_law: "good s \<Longrightarrow> good (op_zero env a n s) \<and> refs (op_zero env a n s) = refs s"

definition cached :: "page_cache \<Rightarrow> nat \<Rightarrow> nat" where
  "cached c p = count (image_mset pc_phys (ents c)) p"

text \<open>The references to a page that are not the cache's own.\<close>

definition ledger :: "('s \<Rightarrow> nat \<Rightarrow> nat) \<Rightarrow> ('s, 't) pc_state \<Rightarrow> nat \<Rightarrow> int" where
  "ledger refs x p = int (refs (fst (snd x)) p) - int (cached (fst x) p)"

definition pc_ok :: "('s \<Rightarrow> bool) \<Rightarrow> ('s \<Rightarrow> nat \<Rightarrow> nat) \<Rightarrow> ('s, 't) pc_state \<Rightarrow> bool" where
  "pc_ok good refs x \<longleftrightarrow>
     pc_wf (fst x) \<and> good (fst (snd x)) \<and> (\<forall>p. cached (fst x) p \<le> refs (fst (snd x)) p \<and> refs (fst (snd x)) p < 65535)"

lemma pc_okD:
  assumes "pc_ok good refs (c, s, t)"
  shows "pc_wf c" "good s" "cached c p \<le> refs s p" "refs s p < 65535"
  using assms by (simp_all add: pc_ok_def)

lemma cached_link: "pc_wf c \<Longrightarrow> cached (pc_link e c) p = cached c p + of_bool (p = pc_phys e)"
  by (simp add: cached_def ents_link)

lemma cached_pos: "e \<in># ents c \<Longrightarrow> 0 < cached c (pc_phys e)"
  by (auto simp: cached_def)

lemma cached_unlink: "pc_wf c \<Longrightarrow> e \<in># ents c \<Longrightarrow> cached (pc_unlink e c) p + of_bool (p = pc_phys e) = cached c p"
  using multi_member_split [of e "ents c"] by (auto simp: cached_def unlink_spec)

lemma stats_irrelevant [simp]:
  "ents (c\<lparr>pc_stat_hit := h\<rparr>) = ents c" "ents (c\<lparr>pc_stat_miss := n\<rparr>) = ents c" "ents (pc_ensure_slab c) = ents c"
  "pc_wf (c\<lparr>pc_stat_hit := h\<rparr>) = pc_wf c" "pc_wf (c\<lparr>pc_stat_miss := n\<rparr>) = pc_wf c" "pc_wf (pc_ensure_slab c) = pc_wf c"
  "cached (c\<lparr>pc_stat_hit := h\<rparr>) = cached c" "cached (c\<lparr>pc_stat_miss := n\<rparr>) = cached c" "cached (pc_ensure_slab c) = cached c"
  by (auto simp: ents_def pc_wf_def cached_def pc_ensure_slab_def fun_eq_iff)

context paged_cache
begin

text \<open>Publishing a page on which the caller holds a reference moves that reference to the page that is
  returned, in any state the other processors may have left.\<close>

lemma publish_ledger:
  assumes ok: "pc_ok good refs x" and own: "0 < ledger refs x pg" and room: "\<forall>p. refs (fst (snd x)) p < 65534"
  obtains p x' where "pc_publish env ino off pg x = Some (p, x')" "pc_ok good refs x'" "p = pg \<or> 0 < cached (fst x) p"
    "\<And>q. ledger refs x' q = ledger refs x q - of_bool (q = pg) + of_bool (q = p)"
proof -
  obtain c s t where x: "x = (c, s, t)" by (cases x)
  note D = pc_okD [OF ok [unfolded x]]
  have pg: "cached c pg < refs s pg" using own by (simp add: x ledger_def)
  have lt: "refs s p < 65534" for p using room by (simp add: x)
  obtain e t1 where n: "op_new env t = (e, t1)" by fastforce
  show thesis
  proof (cases e)
    case None
    have i: "good (op_incref env pg s)" "refs (op_incref env pg s) = (refs s)(pg := refs s pg + 1)"
      using incref_law [OF D(2), of pg] pg D(4) by auto
    obtain s' where s': "op_free env pg (op_incref env pg s) = Some s'" "good s'"
      "refs s' = (refs (op_incref env pg s))(pg := refs (op_incref env pg s) pg - 1)"
      using free_law [OF i(1), of pg] i(2) by auto
    have r: "refs s' = refs s" using s'(3) i(2) by auto
    show thesis
      by (rule that [of pg "(c, s', t1)"]) (use s' r D n None in \<open>simp_all add: x pc_publish_def pc_ok_def ledger_def\<close>)
  next
    case (Some en)
    show thesis
    proof (cases "pc_find_locked c ino off")
      case None
      let ?e = "\<lparr>pc_id = en, pc_ino = ino, pc_offset = off, pc_phys = pg\<rparr>"
      have i: "good (op_incref env pg s)" "refs (op_incref env pg s) = (refs s)(pg := refs s pg + 1)"
        using incref_law [OF D(2), of pg] pg D(4) by auto
      have "f \<in># ents c \<Longrightarrow> pc_key f \<noteq> pc_key ?e" for f using find_locked(2) [OF D(1) None] by (simp add: pc_key_def)
      from wf_link [OF D(1) this] have w: "pc_wf (pc_link ?e c)" .
      have le: "cached c p + of_bool (p = pg) \<le> (refs (op_incref env pg s)) p \<and> refs (op_incref env pg s) p < 65535" for p
        using D(3) [of p] lt [of p] pg unfolding i(2) by (cases "p = pg") simp_all
      show thesis
        by (rule that [of pg "(pc_link ?e c, op_incref env pg s, t1)"])
          (use i w le n Some None cached_link [OF D(1), of ?e] in \<open>simp_all add: x pc_publish_def pc_ok_def ledger_def\<close>)
    next
      case (Some w)
      have w: "w \<in># ents c" using find_locked(1) [OF D(1) Some] by simp
      have wp: "0 < cached c (pc_phys w)" by (rule cached_pos [OF w])
      let ?w = "pc_phys w"
      have i: "good (op_incref env ?w s)" "refs (op_incref env ?w s) = (refs s)(?w := refs s ?w + 1)"
        using incref_law [OF D(2), of ?w] wp D(3) [of ?w] D(4) by auto
      have pos: "0 < refs (op_incref env ?w s) pg" using pg unfolding i(2) by simp
      obtain s' where s': "op_free env pg (op_incref env ?w s) = Some s'" "good s'"
        "refs s' = (refs (op_incref env ?w s))(pg := refs (op_incref env ?w s) pg - 1)"
        using free_law [OF i(1) pos] by blast
      have le: "cached c p \<le> refs s' p \<and> refs s' p < 65535" for p
        using D(3) [of p] lt [of p] pg unfolding s'(3) i(2) by (cases "p = pg"; cases "p = ?w") (simp; linarith)+
      have l: "int (refs s' q) = int (refs s q) - of_bool (q = pg) + of_bool (q = ?w)" for q
        using pg unfolding s'(3) i(2) by (cases "q = pg"; cases "q = ?w") auto
      show thesis
        by (rule that [of ?w "(c, s', op_drop env en t1)"])
          (use s' le D wp n Some \<open>e = Some en\<close> l in \<open>simp_all add: x pc_publish_def pc_ok_def ledger_def\<close>)
    qed
  qed
qed

text \<open>A page from the cache carries one new reference for the caller; a failed call changes no count.\<close>

lemma get_ledger:
  assumes ok: "pc_ok good refs x" and room: "\<forall>p. refs (fst (snd x)) p < 65534"
  obtains p x' where "page_cache_get_or_load env (\<lambda>x. x) b ino off x = Some (p, x')" "pc_ok good refs x'"
    "\<And>q. ledger refs x' q = ledger refs x q + of_bool (q = p \<and> p \<noteq> 0)"
proof -
  obtain c0 s t where x: "x = (c0, s, t)" by (cases x)
  define c where "c = pc_ensure_slab c0"
  note D0 = pc_okD [OF ok [unfolded x]]
  have D: "pc_wf c" "good s" "cached c p \<le> refs s p" "refs s p < 65534" "cached c = cached c0" "refs s p < 65535" for p
    using D0 room by (simp_all add: c_def x)
  show thesis
  proof (cases "pc_find_locked c ino off")
    case (Some e)
    let ?p = "pc_phys e" and ?c = "c\<lparr>pc_stat_hit := pc_stat_hit c + 1\<rparr>"
    have e: "e \<in># ents c" using find_locked(1) [OF D(1) Some] by simp
    have pos: "0 < refs s ?p" using cached_pos [OF e] D(3) [of ?p] by linarith
    have nz: "?p \<noteq> 0" using never_zero [OF D(2)] pos by (metis less_irrefl)
    have i: "good (op_incref env ?p s)" "refs (op_incref env ?p s) = (refs s)(?p := refs s ?p + 1)"
      using incref_law [OF D(2) pos] D(4) [of ?p] by auto
    have le: "cached c p \<le> refs (op_incref env ?p s) p \<and> refs (op_incref env ?p s) p < 65535" for p
      using D(3,4) [of p] unfolding i(2) by auto
    show thesis
      by (rule that [of ?p "(?c, op_incref env ?p s, t)"])
        (use D i le nz Some in \<open>simp_all add: x page_cache_get_or_load_def pc_ok_def ledger_def flip: c_def\<close>)
  next
    case None
    let ?c = "c\<lparr>pc_stat_miss := pc_stat_miss c + 1\<rparr>"
    obtain a s1 where a: "op_alloc env s = (a, s1)" by fastforce
    show thesis
    proof (cases a)
      case n: None
      have "good s1" "refs s1 = refs s" using alloc_none [OF D(2)] a n by auto
      then show thesis
        by (intro that [of 0 "(?c, s1, t)"])
          (use D a n None in \<open>simp_all add: x page_cache_get_or_load_def pc_ok_def ledger_def flip: c_def\<close>)
    next
      case pg: (Some pg)
      have A: "good s1" "pg \<noteq> 0" "refs s pg = 0" "refs s1 = (refs s)(pg := 1)" using alloc_law [OF D(2)] a pg by auto
      obtain rd s2 where rd: "op_pread env b ino pg off s1 = (rd, s2)" by fastforce
      have R: "good s2" "refs s2 = (refs s)(pg := 1)" using pread_law [OF A(1), of b ino pg off] rd A(4) by auto
      have z: "cached c pg = 0" using D(3) [of pg] A(3) by simp
      show thesis
      proof (cases "rd < 0")
        case True
        obtain s3 where s3: "op_free env pg s2 = Some s3" "good s3" "refs s3 = (refs s2)(pg := refs s2 pg - 1)"
          using free_law [OF R(1), of pg] R(2) by auto
        have r: "refs s3 = refs s" using s3(3) R(2) A(3) by auto
        show thesis
          by (rule that [of 0 "(?c, s3, t)"])
            (use D a pg rd True None s3 r in \<open>simp_all add: x page_cache_get_or_load_def pc_ok_def ledger_def flip: c_def\<close>)
      next
        case False
        define s3 where "s3 = (if rd < 4096 then op_zero env (pg + nat rd) (nat (4096 - rd)) s2 else s2)"
        have Z: "good s3" "refs s3 = (refs s)(pg := 1)" using zero_law [OF R(1)] R by (auto simp: s3_def)
        have e: "page_cache_get_or_load env (\<lambda>x. x) b ino off x = pc_publish env ino off pg (?c, s3, t)"
          using a pg rd False None by (simp add: x page_cache_get_or_load_def s3_def flip: c_def)
        have le: "cached c p \<le> refs s3 p \<and> refs s3 p < 65534" for p using D(3,4) [of p] z unfolding Z(2) by auto
        have ok3: "pc_ok good refs (?c, s3, t)" using D(1) Z(1) le by (auto simp: pc_ok_def intro: less_trans)
        have own: "0 < ledger refs (?c, s3, t) pg" using z by (simp add: ledger_def Z(2))
        have rm: "\<forall>p. refs (fst (snd (?c, s3, t))) p < 65534" using le by simp
        obtain p x' where P: "pc_publish env ino off pg (?c, s3, t) = Some (p, x')" "pc_ok good refs x'"
          "p = pg \<or> 0 < cached (fst (?c, s3, t)) p" "\<And>q. ledger refs x' q = ledger refs (?c, s3, t) q - of_bool (q = pg) + of_bool (q = p)"
          by (rule publish_ledger [OF ok3 own rm, of ino off]) (rule that)
        have "p \<noteq> 0"
        proof
          assume "p = 0"
          then have "0 < refs s3 0" using P(3) A(2) le [of 0] by auto
          then show False using never_zero [OF Z(1)] by simp
        qed
        moreover have "ledger refs (?c, s3, t) q = ledger refs x q + of_bool (q = pg)" for q
          using z A(3) D(5) by (simp add: ledger_def Z(2) x)
        ultimately show thesis using that [of p x'] P e by simp
      qed
    qed
  qed
qed

lemma insert_ledger:
  assumes ok: "pc_ok good refs x" and own: "0 < ledger refs x p" and room: "\<forall>p. refs (fst (snd x)) p < 65534"
  obtains x' where "page_cache_insert env ino off p x = Some x'" "pc_ok good refs x'" "ledger refs x' = ledger refs x"
proof -
  obtain c0 s t where x: "x = (c0, s, t)" by (cases x)
  define c where "c = pc_ensure_slab c0"
  have D: "pc_wf c" "good s" "cached c q \<le> refs s q" "refs s q < 65534" "cached c = cached c0" "refs s q < 65535" for q
    using pc_okD [OF ok [unfolded x]] room by (simp_all add: c_def x)
  have pg: "cached c p < refs s p" using own by (simp add: x ledger_def D(5))
  obtain e t1 where n: "op_new env t = (e, t1)" by fastforce
  show thesis
  proof (cases e)
    case None
    show thesis
      by (rule that [of "(c, s, t1)"]) (use D n None in \<open>simp_all add: x page_cache_insert_def pc_ok_def ledger_def fun_eq_iff flip: c_def\<close>)
  next
    case (Some en)
    have i: "good (op_incref env p s)" "refs (op_incref env p s) = (refs s)(p := refs s p + 1)"
      using incref_law [OF D(2), of p] pg D(6) by auto
    show thesis
    proof (cases "pc_find_locked c ino off")
      case None
      let ?e = "\<lparr>pc_id = en, pc_ino = ino, pc_offset = off, pc_phys = p\<rparr>"
      have "f \<in># ents c \<Longrightarrow> pc_key f \<noteq> pc_key ?e" for f using find_locked(2) [OF D(1) None] by (simp add: pc_key_def)
      from wf_link [OF D(1) this] have w: "pc_wf (pc_link ?e c)" .
      have le: "cached c q + of_bool (q = p) \<le> (refs (op_incref env p s)) q \<and> refs (op_incref env p s) q < 65535" for q
        using D(3,4) [of q] pg unfolding i(2) by (cases "q = p") simp_all
      show thesis
        by (rule that [of "(pc_link ?e c, op_incref env p s, t1)"])
          (use i w le n Some None D(5) cached_link [OF D(1), of ?e] in
            \<open>simp_all add: x page_cache_insert_def pc_ok_def ledger_def fun_eq_iff flip: c_def\<close>)
    next
      case (Some f)
      obtain s' where s': "op_free env p (op_incref env p s) = Some s'" "good s'"
        "refs s' = (refs (op_incref env p s))(p := refs (op_incref env p s) p - 1)"
        using free_law [OF i(1), of p] i(2) by auto
      have r: "refs s' = refs s" using s'(3) i(2) by auto
      show thesis
        by (rule that [of "(c, s', op_drop env en t1)"])
          (use s' r D n Some \<open>e = Some en\<close> in \<open>simp_all add: x page_cache_insert_def pc_ok_def ledger_def fun_eq_iff flip: c_def\<close>)
    qed
  qed
qed

lemma remove_ledger:
  assumes ok: "pc_ok good refs x"
  obtains x' where "page_cache_remove env ino off x = Some x'" "pc_ok good refs x'" "ledger refs x' = ledger refs x"
    "cache_map (fst x') = (cache_map (fst x))((ino, off) := None)"
proof -
  obtain c s t where x: "x = (c, s, t)" by (cases x)
  note D = pc_okD [OF ok [unfolded x]]
  show thesis
  proof (cases "pc_find_locked c ino off")
    case None
    then have "cache_map c (ino, off) = None" using find_locked(2) [OF D(1) None] by (auto simp: cache_map_None)
    then show thesis by (intro that [of x]) (use None ok in \<open>auto simp: x page_cache_remove_def\<close>)
  next
    case (Some e)
    have e: "e \<in># ents c" "pc_key e = (ino, off)" using find_locked(1) [OF D(1) Some] by simp_all
    have pos: "0 < refs s (pc_phys e)" using cached_pos [OF e(1)] D(3) [of "pc_phys e"] by linarith
    obtain s' where s': "op_free env (pc_phys e) s = Some s'" "good s'" "refs s' = (refs s)(pc_phys e := refs s (pc_phys e) - 1)"
      using free_law [OF D(2) pos] by blast
    note U = unlink_spec [OF D(1) e(1)]
    have un: "page_cache_remove env ino off x = Some (pc_unlink e c, s', op_drop env (pc_id e) t)"
      using Some s'(1) e(2) by (simp add: x page_cache_remove_def pc_unlink_def Let_def pc_key_def)
    have cu: "cached (pc_unlink e c) q + of_bool (q = pc_phys e) = cached c q" for q by (rule cached_unlink [OF D(1) e(1)])
    have le: "cached (pc_unlink e c) q \<le> refs s' q \<and> refs s' q < 65535" for q
      using cu [of q] D(3,4) [of q] unfolding s'(3) by auto
    have l: "int (refs s' q) - int (cached (pc_unlink e c) q) = int (refs s q) - int (cached c q)" for q
      using cu [of q] pos unfolding s'(3) by auto
    show thesis
      by (rule that [OF un]) (use s'(2) U le l e(2) in \<open>simp_all add: x pc_ok_def ledger_def fun_eq_iff\<close>)
  qed
qed

lemma release_all:
  assumes "good s" and "\<And>p. count (image_mset pc_phys (mset es)) p \<le> refs s p"
  obtains s' t' where "pc_release_all env es (s, t) = Some (s', t')" "good s'"
    "\<And>p. refs s' p + count (image_mset pc_phys (mset es)) p = refs s p"
  using assms
proof (induction es arbitrary: s t thesis)
  case (Cons e es)
  let ?p = "pc_phys e"
  have pos: "0 < refs s ?p" using Cons.prems(3) [of ?p] by simp
  obtain s1 where s1: "op_free env ?p s = Some s1" "good s1" "refs s1 = (refs s)(?p := refs s ?p - 1)"
    using free_law [OF Cons.prems(2) pos] by blast
  have le: "count (image_mset pc_phys (mset es)) q \<le> refs s1 q" for q
    using Cons.prems(3) [of q] unfolding s1(3) by (cases "q = ?p") auto
  obtain s' t' where I: "pc_release_all env es (s1, op_drop env (pc_id e) t) = Some (s', t')" "good s'"
    "\<And>q. refs s' q + count (image_mset pc_phys (mset es)) q = refs s1 q"
    by (rule Cons.IH [OF _ s1(2) le, of "op_drop env (pc_id e) t"]) blast
  have "refs s' q + count (image_mset pc_phys (mset (e # es))) q = refs s q" for q
    using I(3) [of q] pos unfolding s1(3) by (cases "q = ?p") auto
  with I s1(1) show ?case by (intro Cons.prems(1) [of s' t']) simp_all
qed simp

lemma invalidate_ledger:
  assumes ok: "pc_ok good refs x"
  obtains x' where "page_cache_invalidate_ino env ino x = Some x'" "pc_ok good refs x'" "ledger refs x' = ledger refs x"
    "pc_slab_ready (fst x) \<Longrightarrow> cache_map (fst x') = (\<lambda>k. if fst k \<noteq> ino then cache_map (fst x) k else None)"
proof -
  obtain c s t where x: "x = (c, s, t)" by (cases x)
  note D = pc_okD [OF ok [unfolded x]]
  show thesis
  proof (cases "pc_slab_ready c")
    case False
    then show thesis by (intro that [of x]) (use ok in \<open>auto simp: x page_cache_invalidate_ino_def\<close>)
  next
    case True
    let ?vs = "rev (filter (\<lambda>e. pc_ino e = ino) (concat (pc_hash c)))"
    have vs: "mset ?vs = filter_mset (\<lambda>e. pc_ino e = ino) (ents c)" by (simp add: ents_def)
    note P = purge_spec [OF D(1), of ino]
    have split: "cached (pc_purge ino c) q + count (image_mset pc_phys (mset ?vs)) q = cached c q" for q
    proof -
      have "ents c = ents (pc_purge ino c) + mset ?vs" unfolding P(1) vs by (simp add: multiset_partition [of _ "\<lambda>e. pc_ino e \<noteq> ino", symmetric])
      then show ?thesis unfolding cached_def by (metis count_union image_mset_union)
    qed
    have le: "count (image_mset pc_phys (mset ?vs)) q \<le> refs s q" for q using split [of q] D(3) [of q] by linarith
    obtain s' t' where R: "pc_release_all env ?vs (s, t) = Some (s', t')" "good s'"
      "\<And>q. refs s' q + count (image_mset pc_phys (mset ?vs)) q = refs s q"
      by (rule release_all [OF D(2) le, of t]) (rule that)
    have un: "page_cache_invalidate_ino env ino x = Some (pc_purge ino c, s', t')"
      using True R(1) by (simp add: x page_cache_invalidate_ino_def pc_purge_def)
    have l: "int (refs s' q) - int (cached (pc_purge ino c) q) = int (refs s q) - int (cached c q)" for q
      using split [of q] R(3) [of q] by linarith
    have le': "cached (pc_purge ino c) q \<le> refs s' q \<and> refs s' q < 65535" for q
      using split [of q] R(3) [of q] D(3,4) [of q] by linarith
    show thesis
      by (rule that [OF un]) (use R(2) P le' l in \<open>simp_all add: x pc_ok_def ledger_def fun_eq_iff\<close>)
  qed
qed

end

subsection \<open>The cache on the page allocator\<close>

text \<open>The page allocator without reclaim provides what the cache relies on. Frame 0 is never handed
  out, since the cache reports a failure as address 0. The file read is a function from the file and
  the offset to a result and the bytes it stores.\<close>

definition frame_refs :: "buddy \<Rightarrow> nat \<Rightarrow> nat" where
  "frame_refs s a = (if 4096 dvd a \<and> pfn_of a < max_pfn s then unat (page_refcounts s ! pfn_of a) else 0)"

definition counted :: "buddy \<Rightarrow> bool" where
  "counted s \<longleftrightarrow>
     buddy_inv s \<and> 0 \<notin> free_pages s \<and> frame_refs s 0 = 0 \<and> (\<forall>p\<in>free_pages s. page_refcounts s ! p = 0)"

definition store_page :: "u8 list \<Rightarrow> nat \<Rightarrow> mem \<Rightarrow> mem" where
  "store_page bs a m = (\<lambda>x. if a \<le> x \<and> x < a + length bs then bs ! (x - a) else m x)"

definition buddy_env ::
  "(int \<Rightarrow> u64 \<Rightarrow> u64 \<Rightarrow> int \<times> u8 list) \<Rightarrow> ('t \<Rightarrow> nat option \<times> 't) \<Rightarrow> (nat \<Rightarrow> 't \<Rightarrow> 't) \<Rightarrow> (buddy, 't) pc_env" where
  "buddy_env rdf new drp =
     \<lparr>op_incref = \<lambda>p s. page_incref s p,
      op_free = \<lambda>p s. page_free s (Some p),
      op_alloc = page_alloc idle_hooks None,
      op_pread = \<lambda>b ino p off s. (fst (rdf b ino off), s\<lparr>phys_mem := store_page (snd (rdf b ino off)) p (phys_mem s)\<rparr>),
      op_zero = \<lambda>a n s. s\<lparr>phys_mem := kmemset (phys_mem s) a 0 n\<rparr>,
      op_new = new, op_drop = drp\<rparr>"

lemma counted_phys_mem [simp]: "counted (s\<lparr>phys_mem := m\<rparr>) = counted s" "frame_refs (s\<lparr>phys_mem := m\<rparr>) = frame_refs s"
proof -
  show r: "frame_refs (s\<lparr>phys_mem := m\<rparr>) = frame_refs s" by (simp add: frame_refs_def fun_eq_iff)
  have "buddy_inv (s\<lparr>phys_mem := m\<rparr>) = buddy_inv s"
    using buddy_inv_frame [of s "s\<lparr>phys_mem := m\<rparr>"] buddy_inv_frame [of "s\<lparr>phys_mem := m\<rparr>" s] by auto
  then show "counted (s\<lparr>phys_mem := m\<rparr>) = counted s" by (simp add: counted_def r)
qed

lemma frame_refs_not_free:
  assumes "counted s" and "0 < frame_refs s a"
  shows "4096 dvd a" "pfn_of a < max_pfn s" "pfn_of a \<notin> free_pages s" "frame_refs s a = unat (page_refcounts s ! pfn_of a)"
  using assms by (auto simp: frame_refs_def counted_def split: if_splits)

lemma pfn_inj: "4096 dvd a \<Longrightarrow> 4096 dvd b \<Longrightarrow> pfn_of a = pfn_of b \<Longrightarrow> a = b"
  by (metis dvd_div_mult_self pfn_of_div)

lemma frame_refs_update:
  assumes "4096 dvd a" and "pfn_of a < max_pfn s" and "length (page_refcounts s) = max_pfn s"
    and "page_refcounts t = (page_refcounts s)[pfn_of a := v]" and "max_pfn t = max_pfn s"
  shows "frame_refs t = (frame_refs s)(a := unat v)"
  using assms pfn_inj [of a] by (auto simp: frame_refs_def fun_eq_iff nth_list_update)

lemma counted_update:
  assumes "counted s" and "a \<noteq> 0" and "4096 dvd a" and "pfn_of a < max_pfn s"
    and "buddy_inv t" and "page_refcounts t = (page_refcounts s)[pfn_of a := v]" and "max_pfn t = max_pfn s"
    and "free_pages t = free_pages s - {pfn_of a} \<or> (free_pages t = insert (pfn_of a) (free_pages s) \<and> v = 0)
      \<or> (free_pages t = free_pages s \<and> pfn_of a \<notin> free_pages s)"
  shows "counted t"
proof -
  have len: "length (page_refcounts s) = max_pfn s" using assms(1) by (simp add: counted_def buddy_inv_def)
  have "0 < pfn_of a" using assms(2,3) by (auto simp: pfn_of_div)
  moreover have "frame_refs t 0 = 0"
    using frame_refs_update [OF assms(3,4) len assms(6,7)] assms(1,2) by (simp add: counted_def)
  ultimately show ?thesis
    using assms(1,4-8) len by (auto simp: counted_def nth_list_update)
qed

lemma buddy_incref_law:
  assumes "counted s" and "0 < frame_refs s p" and "frame_refs s p < 65535"
  shows "counted (page_incref s p) \<and> frame_refs (page_incref s p) = (frame_refs s)(p := frame_refs s p + 1)"
proof -
  note F = frame_refs_not_free [OF assms(1,2)]
  have inv: "buddy_inv s" using assms(1) by (simp add: counted_def)
  have len: "length (page_refcounts s) = max_pfn s" by (rule buddy_invD(3) [OF inv])
  have nz: "p \<noteq> 0" using assms(1,2) by (metis counted_def less_irrefl)
  let ?v = "page_refcounts s ! pfn_of p + 1"
  have e: "page_incref s p = s\<lparr>page_refcounts := (page_refcounts s)[pfn_of p := ?v]\<rparr>"
    using F(2) by (simp add: page_incref_def Let_def)
  have v: "unat ?v = frame_refs s p + 1" using assms(3) F(4) by (simp add: unat_word_ariths)
  have i: "buddy_inv (page_incref s p)" unfolding e by (rule buddy_inv_frame [OF inv]) simp_all
  have c: "counted (page_incref s p)"
    by (rule counted_update [OF assms(1) nz F(1,2) i, of ?v]) (use F(3) in \<open>simp_all add: e\<close>)
  have "frame_refs (page_incref s p) = (frame_refs s)(p := unat ?v)"
    by (rule frame_refs_update [OF F(1,2) len]) (simp_all add: e)
  with c v show ?thesis by simp
qed

lemma buddy_free_law:
  assumes "counted s" and "0 < frame_refs s p"
  shows "\<exists>s'. page_free s (Some p) = Some s' \<and> counted s' \<and> frame_refs s' = (frame_refs s)(p := frame_refs s p - 1)"
proof -
  note F = frame_refs_not_free [OF assms]
  have inv: "buddy_inv s" using assms(1) by (simp add: counted_def)
  have len: "length (page_refcounts s) = max_pfn s" by (rule buddy_invD(3) [OF inv])
  have nz: "p \<noteq> 0" using assms by (metis counted_def less_irrefl)
  let ?o = "page_refcounts s ! pfn_of p"
  show ?thesis
  proof (cases "1 < ?o")
    case True
    let ?t = "s\<lparr>page_refcounts := (page_refcounts s)[pfn_of p := ?o - 1]\<rparr>"
    have e: "page_free s (Some p) = Some ?t" using True F(2) by (simp add: page_free_def Let_def)
    have v: "unat (?o - 1) = frame_refs s p - 1"
      using True F(4) by (simp add: unat_sub word_le_nat_alt word_less_nat_alt)
    have i: "buddy_inv ?t" by (rule buddy_inv_frame [OF inv]) simp_all
    have "counted ?t" by (rule counted_update [OF assms(1) nz F(1,2) i, of "?o - 1"]) (use F(3) in simp_all)
    moreover have "frame_refs ?t = (frame_refs s)(p := unat (?o - 1))" by (rule frame_refs_update [OF F(1,2) len]) simp_all
    ultimately show ?thesis using e v by simp
  next
    case False
    have one: "frame_refs s p = 1" using False assms(2) F(4) by (simp add: word_less_nat_alt)
    define t where "t = s\<lparr>page_refcounts := (page_refcounts s)[pfn_of p := 0]\<rparr>"
    have t: "buddy_inv t" "free_pages t = free_pages s" "max_pfn t = max_pfn s"
      by (auto simp: t_def intro: buddy_inv_frame [OF inv])
    obtain u where u: "buddy_free_order t p 0 = Some u" "buddy_inv u" "same_frame t u"
      "free_pages u = insert (pfn_of p) (free_pages t)"
      by (rule buddy_free_page [OF t(1), of p]) (use F t(2,3) in auto)
    have e: "page_free s (Some p) = Some u" using False F(2) u(1) by (simp add: page_free_def t_def Let_def)
    have r: "page_refcounts u = (page_refcounts s)[pfn_of p := 0]" "max_pfn u = max_pfn s"
      using u(3) by (simp_all add: same_frame_def t_def)
    have "counted u" by (rule counted_update [OF assms(1) nz F(1,2) u(2) r]) (use u(4) t(2) in simp)
    moreover have "frame_refs u = (frame_refs s)(p := unat (0 :: u16))" by (rule frame_refs_update [OF F(1,2) len r])
    ultimately show ?thesis using e one by simp
  qed
qed

lemma idle_page_alloc:
  "page_alloc idle_hooks None s =
     (case buddy_alloc_order s 0 of
        (None, s') \<Rightarrow> (None, s')
      | (Some p, s') \<Rightarrow>
          (Some p, let s1 = s'\<lparr>phys_mem := page_zero (phys_mem s') p\<rparr> in
             if pfn_of p < max_pfn s1 then s1\<lparr>page_refcounts := (page_refcounts s1)[pfn_of p := 1]\<rparr> else s1))"
  using buddy_alloc_order_None(1) [of s 0]
  by (auto simp: page_alloc_def alloc_retry_def idle_hooks_def try_oom_reclaim_def oom_safe_context_def Let_def
      split: prod.splits option.splits)

lemma buddy_alloc_law:
  assumes "counted s" and "page_alloc idle_hooks None s = (Some p, s')"
  shows "counted s' \<and> p \<noteq> 0 \<and> frame_refs s p = 0 \<and> frame_refs s' = (frame_refs s)(p := 1)"
proof -
  have inv: "buddy_inv s" using assms(1) by (simp add: counted_def)
  have len: "length (page_refcounts s) = max_pfn s" by (rule buddy_invD(3) [OF inv])
  obtain t where t: "buddy_alloc_order s 0 = (Some p, t)"
    using assms(2) by (auto simp: idle_page_alloc split: prod.splits option.splits)
  note A = buddy_alloc_order_ok [OF inv t]
  have blk: "blk_pages 0 p = {pfn_of p}" by (auto simp: blk_pages_def)
  have m: "max_pfn t = max_pfn s" "page_refcounts t = page_refcounts s" using A(2) by (simp_all add: same_frame_def)
  have lt: "pfn_of p < max_pfn s" and al: "4096 dvd p" using A(3,4) by simp_all
  have s': "s' = t\<lparr>phys_mem := page_zero (phys_mem t) p, page_refcounts := (page_refcounts t)[pfn_of p := 1]\<rparr>"
    using assms(2) t lt m by (auto simp: idle_page_alloc Let_def)
  have fr: "pfn_of p \<in> free_pages s" using A(5) blk by simp
  have nz: "p \<noteq> 0" using fr assms(1) by (metis counted_def div_0 pfn_of_div)
  have z: "frame_refs s p = 0" using fr assms(1) by (simp add: frame_refs_def counted_def)
  have i: "buddy_inv s'" unfolding s' by (rule buddy_inv_frame [OF A(1)]) simp_all
  have "counted s'"
    by (rule counted_update [OF assms(1) nz al lt i, of 1]) (use A(6) blk m in \<open>simp_all add: s'\<close>)
  moreover have "frame_refs s' = (frame_refs s)(p := unat (1 :: u16))"
    by (rule frame_refs_update [OF al lt len]) (simp_all add: s' m)
  ultimately show ?thesis using nz z by simp
qed

lemma buddy_alloc_none:
  assumes "counted s" and "page_alloc idle_hooks None s = (None, s')"
  shows "s' = s"
  using assms(2) buddy_alloc_order_None(1) [of s 0] by (auto simp: idle_page_alloc split: prod.splits option.splits)

lemma buddy_env_simps [simp]:
  "op_incref (buddy_env rdf new drp) p s = page_incref s p"
  "op_free (buddy_env rdf new drp) p s = page_free s (Some p)"
  "op_alloc (buddy_env rdf new drp) = page_alloc idle_hooks None"
  "snd (op_pread (buddy_env rdf new drp) b ino p off s) = s\<lparr>phys_mem := store_page (snd (rdf b ino off)) p (phys_mem s)\<rparr>"
  "op_zero (buddy_env rdf new drp) a n s = s\<lparr>phys_mem := kmemset (phys_mem s) a 0 n\<rparr>"
  by (simp_all add: buddy_env_def)

interpretation buddy_cache: paged_cache "buddy_env rdf new drp" counted frame_refs for rdf new drp
proof (unfold_locales, goal_cases)
  case (1 s p) then show ?case using buddy_incref_law by simp
next
  case (2 s p) then show ?case using buddy_free_law by simp
next
  case (3 s p s') then show ?case using buddy_alloc_law by simp
next
  case (4 s s') then show ?case using buddy_alloc_none [of s s'] by simp
next
  case (5 s b ino p off) then show ?case by simp
next
  case (6 s) then show ?case by (simp add: counted_def)
next
  case (7 s a n) then show ?case by simp
qed

subsection \<open>Properties\<close>

text \<open>Fixtures: an empty cache over a small memory whose frame 0 is not counted.\<close>

definition empty_cache :: page_cache where
  "empty_cache = \<lparr>pc_hash = replicate PC_HASH_SIZE [], pc_slab_ready = False, pc_stat_hit = 0, pc_stat_miss = 0\<rparr>"

definition counted_buddy :: buddy where
  "counted_buddy = small_buddy\<lparr>page_refcounts := [0, 1, 1, 1, 0, 0, 0, 0]\<rparr>"

definition seven_bytes :: "int \<Rightarrow> u64 \<Rightarrow> u64 \<Rightarrow> int \<times> u8 list" where
  "seven_bytes b ino off = (7, [1, 2, 3, 4, 5, 6, 7])"

definition next_id :: "nat \<Rightarrow> nat option \<times> nat" where "next_id n = (Some n, n + 1)"
definition keep_ids :: "nat \<Rightarrow> nat \<Rightarrow> nat" where "keep_ids i n = n"

lemma empty_cache_wf: "pc_wf empty_cache" "cached empty_cache p = 0" "ents empty_cache = {#}"
proof -
  show e: "ents empty_cache = {#}" by (simp add: ents_def empty_cache_def)
  then show "pc_wf empty_cache" "cached empty_cache p = 0"
    by (simp_all add: pc_wf_def cached_def) (simp add: empty_cache_def)
qed

lemma counted_buddy_refs: "frame_refs counted_buddy p \<le> 1"
proof -
  have "n < 8 \<Longrightarrow> unat ([0, 1, 1, 1, 0, 0, 0, 0 :: u16] ! n) \<le> 1" for n :: nat
    by (auto simp: below_8)
  then show ?thesis by (simp add: frame_refs_def counted_buddy_def small_buddy_def)
qed

lemma counted_buddy_ok: "counted counted_buddy"
proof -
  have "buddy_inv counted_buddy" unfolding counted_buddy_def by (rule buddy_inv_frame [OF small_inv]) (simp_all add: small_buddy_def)
  moreover have "free_pages counted_buddy = {4, 5, 6, 7}" by (simp add: counted_buddy_def small_free_pages)
  ultimately show ?thesis by (simp add: counted_def frame_refs_def counted_buddy_def pfn_of_div)
qed

lemma start_ok: "pc_ok counted frame_refs (empty_cache, counted_buddy, n)"
proof -
  have "frame_refs counted_buddy p < 65535" for p using counted_buddy_refs [of p] by linarith
  then show ?thesis by (simp add: pc_ok_def empty_cache_wf counted_buddy_ok)
qed

lemma start_room: "\<forall>p. frame_refs (fst (snd (empty_cache, counted_buddy, n))) p < 65534"
proof
  fix p show "frame_refs (fst (snd (empty_cache, counted_buddy, n))) p < 65534" using counted_buddy_refs [of p] by simp
qed

text \<open>C23: A page obtained through \<^verbatim>\<open>page_cache_get_or_load\<close>, by a hit or by a load, carries exactly one new
  reference for the caller, besides the one of the cache; when the call fails no page keeps a
  reference. No count of any other page changes, on any path.\<close>

theorem page_cache_get_references:
  assumes "pc_ok counted frame_refs x" and "\<forall>p. frame_refs (fst (snd x)) p < 65534"
  shows "\<exists>p x'. page_cache_get_or_load (buddy_env rdf new drp) (\<lambda>x. x) b ino off x = Some (p, x') \<and>
    pc_ok counted frame_refs x' \<and>
    (\<forall>q. ledger frame_refs x' q = ledger frame_refs x q + of_bool (q = p \<and> p \<noteq> 0))"
  by (rule buddy_cache.get_ledger [OF assms, of rdf new drp b ino off]) blast

theorem page_cache_get_references_witness:
  "\<exists>p x'. page_cache_get_or_load (buddy_env seven_bytes next_id keep_ids) (\<lambda>x. x) 0 5 0 (empty_cache, counted_buddy, 9) =
      Some (p, x') \<and> pc_ok counted frame_refs x' \<and>
    (\<forall>q. ledger frame_refs x' q = ledger frame_refs (empty_cache, counted_buddy, 9 :: nat) q + of_bool (q = p \<and> p \<noteq> 0))"
  by (rule page_cache_get_references [OF start_ok start_room])

text \<open>Two processors may load the same page. Whatever the others left in the cache while the page
  was read, the second locked section returns a page with the caller's reference, gives up the loaded page if
  another one is cached already, and leaves all other counts alone.\<close>

theorem page_cache_race:
  assumes "pc_ok counted frame_refs x" and "0 < ledger frame_refs x pg" and "\<forall>p. frame_refs (fst (snd x)) p < 65534"
  shows "\<exists>p x'. pc_publish (buddy_env rdf new drp) ino off pg x = Some (p, x') \<and> pc_ok counted frame_refs x' \<and>
    (p = pg \<or> 0 < cached (fst x) p) \<and>
    (\<forall>q. ledger frame_refs x' q = ledger frame_refs x q - of_bool (q = pg) + of_bool (q = p))"
  by (rule buddy_cache.publish_ledger [OF assms, of rdf new drp ino off]) blast

theorem page_cache_race_witness:
  "\<exists>p x'. pc_publish (buddy_env seven_bytes next_id keep_ids) 5 0 0x1000 (empty_cache, counted_buddy, 9) = Some (p, x') \<and>
    pc_ok counted frame_refs x' \<and> (p = 0x1000 \<or> 0 < cached (fst (empty_cache, counted_buddy, 9 :: nat)) p) \<and>
    (\<forall>q. ledger frame_refs x' q =
      ledger frame_refs (empty_cache, counted_buddy, 9 :: nat) q - of_bool (q = 0x1000) + of_bool (q = p))"
  by (rule page_cache_race [OF start_ok _ start_room])
    (simp add: ledger_def empty_cache_wf frame_refs_def counted_buddy_def small_buddy_def pfn_of_div)

text \<open>C24: The hash table implements a finite map from file offsets to pages: removing an entry deletes
  exactly its key and releases exactly the cache's reference to its page.\<close>

theorem page_cache_remove_map:
  assumes "pc_ok counted frame_refs x"
  shows "\<exists>x'. page_cache_remove (buddy_env rdf new drp) ino off x = Some x' \<and> pc_ok counted frame_refs x' \<and>
    cache_map (fst x') = (cache_map (fst x))((ino, off) := None) \<and> ledger frame_refs x' = ledger frame_refs x \<and>
    page_cache_lookup (fst x') ino off = 0"
proof -
  obtain x' where x': "page_cache_remove (buddy_env rdf new drp) ino off x = Some x'" "pc_ok counted frame_refs x'"
    "ledger frame_refs x' = ledger frame_refs x" "cache_map (fst x') = (cache_map (fst x))((ino, off) := None)"
    by (rule buddy_cache.remove_ledger [OF assms, of rdf new drp ino off]) (rule that)
  moreover have "page_cache_lookup (fst x') ino off = 0"
    using x'(2,4) lookup_cache_map [of "fst x'" ino off] by (simp add: pc_ok_def)
  ultimately show ?thesis by blast
qed

theorem page_cache_remove_map_witness:
  "\<exists>x'. page_cache_remove (buddy_env seven_bytes next_id keep_ids) 5 0 (empty_cache, counted_buddy, 9) = Some x' \<and>
    pc_ok counted frame_refs x' \<and>
    cache_map (fst x') = (cache_map (fst (empty_cache, counted_buddy, 9 :: nat)))((5, 0) := None) \<and>
    ledger frame_refs x' = ledger frame_refs (empty_cache, counted_buddy, 9 :: nat) \<and> page_cache_lookup (fst x') 5 0 = 0"
  by (rule page_cache_remove_map [OF start_ok])

end
