(* ===== verification/Eventfd.thy ===== *)
theory Eventfd
  imports Uaccess
begin

unbundle bit_operations_syntax

section \<open>Event counters (\<^verbatim>\<open>src/kernel/event/eventfd.c\<close>)\<close>

text \<open>
  The state of an event counter is its value, its flags, its reference count and the log of the wake-ups
  issued on its two wait queues. A blocking call runs a loop of attempts; each turn is given whether a
  signal is deliverable and what the other threads do to the counter while this one sleeps. A list of
  turns that runs out is a caller that is still asleep (\<open>None\<close>).
\<close>

definition EVENTFD_POOL_MAX :: nat where "EVENTFD_POOL_MAX = 32"
definition EVENTFD_MAX_VAL :: u64 where "EVENTFD_MAX_VAL = 0xFFFFFFFFFFFFFFFE"
definition EFD_SEMAPHORE :: int where "EFD_SEMAPHORE = 1"
definition EFD_CLOEXEC :: int where "EFD_CLOEXEC = 524288"
definition EFD_NONBLOCK :: int where "EFD_NONBLOCK = 2048"
definition O_RDWR :: int where "O_RDWR = 2"

datatype wake = Wake_readers | Wake_writers | Wake_all_readers | Wake_all_writers

record eventfd =
  ev_counter :: u64
  ev_flags :: int
  ev_refcount :: int
  ev_wakes :: "wake list"

text \<open>\<open>acquire\<close> and \<open>release\<close> are the slab of counters, \<open>fd_alloc\<close> installs the object in the descriptor
  table; both act on the rest of the state.\<close>

definition do_eventfd2 ::
  "('s \<Rightarrow> nat option \<times> 's) \<Rightarrow> (nat \<Rightarrow> 's \<Rightarrow> 's) \<Rightarrow> (nat \<Rightarrow> int \<Rightarrow> 's \<Rightarrow> int \<times> 's) \<Rightarrow> bool \<Rightarrow> u32 \<Rightarrow> int
     \<Rightarrow> (nat \<Rightarrow> eventfd option) \<times> 's \<Rightarrow> int result \<times> (nat \<Rightarrow> eventfd option) \<times> 's" where
  "do_eventfd2 acquire release fd_alloc has_proc initval flags x =
     (let (h, st) = x in
      if flags AND NOT (EFD_SEMAPHORE OR EFD_CLOEXEC OR EFD_NONBLOCK) \<noteq> 0 then (Inl EINVAL, h, st)
      else if \<not> has_proc then (Inl EFAULT, h, st)
      else case acquire st of
        (None, st1) \<Rightarrow> (Inl ENOMEM, h, st1)
      | (Some a, st1) \<Rightarrow>
          let efd = \<lparr>ev_counter = ucast initval, ev_flags = flags, ev_refcount = 1, ev_wakes = []\<rparr>;
              fd_flags = O_RDWR OR (if flags AND EFD_CLOEXEC \<noteq> 0 then EFD_CLOEXEC else 0)
                           OR (if flags AND EFD_NONBLOCK \<noteq> 0 then EFD_NONBLOCK else 0);
              (fd, st2) = fd_alloc a fd_flags st1
          in if fd < 0 then (Inl EMFILE, h(a := None), release a st2) else (Inr fd, h(a \<mapsto> efd), st2))"

definition eventfd_try_read :: "eventfd \<Rightarrow> u64 result \<times> eventfd" where
  "eventfd_try_read efd =
     (if ev_counter efd = 0 then (Inl EAGAIN, efd)
      else let (val, rest) =
             (if ev_flags efd AND EFD_SEMAPHORE \<noteq> 0 then (1, ev_counter efd - 1) else (ev_counter efd, 0))
           in (Inr val, efd\<lparr>ev_counter := rest, ev_wakes := ev_wakes efd @ [Wake_writers]\<rparr>))"

definition eventfd_try_write :: "u64 \<Rightarrow> eventfd \<Rightarrow> unit result \<times> eventfd" where
  "eventfd_try_write val efd =
     (if EVENTFD_MAX_VAL - val < ev_counter efd then (Inl EAGAIN, efd)
      else (Inr (), efd\<lparr>ev_counter := ev_counter efd + val, ev_wakes := ev_wakes efd @ [Wake_readers]\<rparr>))"

type_synonym turn = "bool \<times> (eventfd \<Rightarrow> eventfd)"

fun read_loop :: "turn list \<Rightarrow> eventfd \<Rightarrow> (u64 result \<times> eventfd) option" where
  "read_loop [] efd = None"
| "read_loop ((sig, others) # ts) efd =
     (case eventfd_try_read efd of
        (Inr val, efd') \<Rightarrow> Some (Inr val, efd')
      | (Inl _, efd') \<Rightarrow> if sig then Some (Inl EINTR, efd') else read_loop ts (others efd'))"

text \<open>The bytes of a 64-bit value in user memory.\<close>

definition bytes_of_u64 :: "u64 \<Rightarrow> u8 list" where
  "bytes_of_u64 w = map (\<lambda>i. word_of_nat (unat w div 256 ^ i)) [0..<8]"

definition u64_of :: "u8 list \<Rightarrow> u64" where
  "u64_of bs = word_of_nat (foldr (\<lambda>b n. unat b + 256 * n) (take 8 bs) 0)"

definition eventfd_read ::
  "turn list \<Rightarrow> nat \<Rightarrow> int \<Rightarrow> bool \<Rightarrow> eventfd option \<times> umem \<Rightarrow> (int result \<times> eventfd option \<times> umem) option" where
  "eventfd_read ts buf count nonblock x =
     (let (obj, m) = x in
      if count < 8 then Some (Inl EINVAL, obj, m)
      else case obj of
        None \<Rightarrow> Some (Inl EBADF, obj, m)
      | Some efd \<Rightarrow>
          (case eventfd_try_read efd of
             (Inr val, efd') \<Rightarrow> Some (Inr 8, Some efd', snd (copy_to_user m buf (bytes_of_u64 val)))
           | (Inl _, efd') \<Rightarrow>
               if nonblock then Some (Inl EAGAIN, Some efd', m)
               else case read_loop ts efd' of
                      None \<Rightarrow> None
                    | Some (Inl e, efd'') \<Rightarrow> Some (Inl e, Some efd'', m)
                    | Some (Inr val, efd'') \<Rightarrow> Some (Inr 8, Some efd'', snd (copy_to_user m buf (bytes_of_u64 val)))))"

fun write_loop :: "turn list \<Rightarrow> u64 \<Rightarrow> eventfd \<Rightarrow> (unit result \<times> eventfd) option" where
  "write_loop [] val efd = None"
| "write_loop ((sig, others) # ts) val efd =
     (case eventfd_try_write val efd of
        (Inr u, efd') \<Rightarrow> Some (Inr u, efd')
      | (Inl _, efd') \<Rightarrow> if sig then Some (Inl EINTR, efd') else write_loop ts val (others efd'))"

text \<open>The result of \<^verbatim>\<open>copy_from_user\<close> is not checked: after a fault the value is what the stack held,
  here \<open>stale\<close>.\<close>

definition eventfd_write ::
  "turn list \<Rightarrow> u64 \<Rightarrow> nat \<Rightarrow> int \<Rightarrow> bool \<Rightarrow> umem \<Rightarrow> eventfd option \<Rightarrow> (int result \<times> eventfd option) option" where
  "eventfd_write ts stale buf count nonblock m obj =
     (if count < 8 then Some (Inl EINVAL, obj)
      else case obj of
        None \<Rightarrow> Some (Inl EBADF, obj)
      | Some efd \<Rightarrow>
          let val = (case copy_from_user m buf 8 of Inl _ \<Rightarrow> stale | Inr bs \<Rightarrow> u64_of bs) in
          if val = - 1 then Some (Inl EINVAL, obj)
          else (case eventfd_try_write val efd of
                  (Inr _, efd') \<Rightarrow> Some (Inr 8, Some efd')
                | (Inl _, efd') \<Rightarrow>
                    if nonblock then Some (Inl EAGAIN, Some efd')
                    else map_option (map_prod (map_sum id (\<lambda>_. 8)) Some) (write_loop ts val efd')))"

definition eventfd_destroy :: "(nat \<Rightarrow> 's \<Rightarrow> 's) \<Rightarrow> nat \<Rightarrow> (nat \<Rightarrow> eventfd option) \<times> 's \<Rightarrow> (nat \<Rightarrow> eventfd option) \<times> 's" where
  "eventfd_destroy release a x =
     (let (h, st) = x in
      case h a of
        None \<Rightarrow> (h, st)
      | Some efd \<Rightarrow>
          let efd' = efd\<lparr>ev_refcount := ev_refcount efd - 1\<rparr> in
          if ev_refcount efd' \<le> 0 then (h(a := None), release a st)
          else (h(a \<mapsto> efd'), st))"

subsection \<open>Nothing is lost and nothing overflows\<close>

text \<open>A history of attempts by any number of threads; a rejected attempt leaves no trace.\<close>

datatype ev_op = Ev_read | Ev_write u64

fun ev_step :: "ev_op \<Rightarrow> eventfd \<times> nat \<times> nat \<Rightarrow> eventfd \<times> nat \<times> nat" where
  "ev_step Ev_read (efd, got, put) =
     (case eventfd_try_read efd of
        (Inr val, efd') \<Rightarrow> (efd', got + unat val, put) | (Inl _, efd') \<Rightarrow> (efd', got, put))"
| "ev_step (Ev_write val) (efd, got, put) =
     (if val = - 1 then (efd, got, put)
      else case eventfd_try_write val efd of
        (Inr _, efd') \<Rightarrow> (efd', got, put + unat val) | (Inl _, efd') \<Rightarrow> (efd', got, put))"

lemma max_val: "unat EVENTFD_MAX_VAL = 2 ^ 64 - 2"
  by (simp add: EVENTFD_MAX_VAL_def)

lemma try_read_amount:
  assumes "eventfd_try_read efd = (Inr val, efd')"
  shows "unat (ev_counter efd') + unat val = unat (ev_counter efd)" and "0 < unat val"
proof -
  have nz: "ev_counter efd \<noteq> 0" using assms by (auto simp: eventfd_try_read_def split: if_splits)
  then have "1 \<le> ev_counter efd" by (simp add: word_le_nat_alt unat_gt_0 Suc_leI)
  then have s: "unat (ev_counter efd - 1) + 1 = unat (ev_counter efd)"
    using nz by (simp add: unat_sub unat_gt_0 Suc_leI)
  show "unat (ev_counter efd') + unat val = unat (ev_counter efd)" "0 < unat val"
    using assms nz s by (auto simp: eventfd_try_read_def Let_def unat_gt_0 split: if_splits)
qed

lemma try_write_amount:
  assumes "val \<noteq> - 1" and "ev_counter efd \<le> EVENTFD_MAX_VAL" and "eventfd_try_write val efd = (Inr u, efd')"
  shows "unat (ev_counter efd') = unat (ev_counter efd) + unat val" and "ev_counter efd' \<le> EVENTFD_MAX_VAL"
proof -
  have "unat (- 1 :: u64) = 2 ^ 64 - 1" by (simp add: unsigned_minus_1_eq_mask mask_eq_exp_minus_1)
  then have "unat val \<noteq> 2 ^ 64 - 1" using assms(1) by (metis word_unat_eq_iff)
  moreover have "unat val < 2 ^ 64" using unsigned_less [where 'a = nat, of val] by simp
  ultimately have v: "unat val \<le> 2 ^ 64 - 2" by simp
  then have "val \<le> EVENTFD_MAX_VAL" by (simp add: word_le_nat_alt max_val)
  then have "unat (EVENTFD_MAX_VAL - val) = 2 ^ 64 - 2 - unat val" by (simp add: unat_sub max_val)
  then have le: "unat (ev_counter efd) \<le> 2 ^ 64 - 2 - unat val" and e: "ev_counter efd' = ev_counter efd + val"
    using assms(3) by (auto simp: eventfd_try_write_def word_less_nat_alt split: if_splits)
  have "unat (ev_counter efd + val) = unat (ev_counter efd) + unat val"
    using le v by (simp add: unat_word_ariths)
  then show "unat (ev_counter efd') = unat (ev_counter efd) + unat val" "ev_counter efd' \<le> EVENTFD_MAX_VAL"
    using le v by (simp_all add: e word_le_nat_alt max_val)
qed

lemma ev_step_amount:
  assumes "ev_counter efd \<le> EVENTFD_MAX_VAL"
  shows "let (efd', got', put') = ev_step op (efd, got, put) in
    unat (ev_counter efd') + got' + put = unat (ev_counter efd) + got + put' \<and> ev_counter efd' \<le> EVENTFD_MAX_VAL"
proof (cases op)
  case Ev_read
  show ?thesis
  proof (cases "fst (eventfd_try_read efd)")
    case (Inl e)
    then show ?thesis using Ev_read assms by (auto simp: eventfd_try_read_def Let_def split: if_splits)
  next
    case (Inr val)
    then obtain efd' where r: "eventfd_try_read efd = (Inr val, efd')" by (cases "eventfd_try_read efd") auto
    have "ev_counter efd' \<le> EVENTFD_MAX_VAL" using try_read_amount(1) [OF r] assms by (simp add: word_le_nat_alt)
    then show ?thesis using Ev_read r try_read_amount(1) [OF r] by simp
  qed
next
  case (Ev_write val)
  show ?thesis
  proof (cases "val = - 1 \<or> fst (eventfd_try_write val efd) = Inl EAGAIN")
    case True
    then show ?thesis using Ev_write assms by (auto simp: eventfd_try_write_def split: if_splits)
  next
    case False
    then obtain efd' where w: "eventfd_try_write val efd = (Inr (), efd')"
      by (auto simp: eventfd_try_write_def split: if_splits)
    show ?thesis using Ev_write False w try_write_amount [OF _ assms w] by simp
  qed
qed

text \<open>C25: For any sequence of reads and writes by any threads, in either mode, the counter holds exactly
  its first value plus what was accepted minus what was handed out, never exceeds its maximum, and so
  no signal is lost or duplicated and no addition wraps.\<close>

theorem eventfd_conserves:
  assumes "ev_counter efd \<le> EVENTFD_MAX_VAL"
  shows "let (efd', got, put) = fold ev_step ops (efd, 0, 0) in
    unat (ev_counter efd') + got = unat (ev_counter efd) + put \<and> ev_counter efd' \<le> EVENTFD_MAX_VAL"
proof (induction ops rule: rev_induct)
  case (snoc op ops)
  obtain e g p where f: "fold ev_step ops (efd, 0, 0) = (e, g, p)" by (metis prod_cases3)
  then have I: "unat (ev_counter e) + g = unat (ev_counter efd) + p" "ev_counter e \<le> EVENTFD_MAX_VAL" using snoc by simp_all
  show ?case using ev_step_amount [OF I(2), of op g p] I(1) f by (auto simp: Let_def split: prod.splits)
qed (use assms in simp)

definition small_event :: eventfd where
  "small_event = \<lparr>ev_counter = 5, ev_flags = 0, ev_refcount = 1, ev_wakes = []\<rparr>"

theorem eventfd_conserves_witness:
  "let (efd', got, put) = fold ev_step [Ev_write 3, Ev_read, Ev_write (- 2)] (small_event, 0, 0) in
    unat (ev_counter efd') + got = unat (ev_counter small_event) + put \<and> ev_counter efd' \<le> EVENTFD_MAX_VAL"
  by (rule eventfd_conserves) (simp add: small_event_def EVENTFD_MAX_VAL_def)

end
