(* ===== verification/Page_Table.thy ===== *)
theory Page_Table
  imports Prelude
begin

unbundle bit_operations_syntax

section \<open>User page tables (\<^verbatim>\<open>src/kernel/proc/process.c\<close>, \<^verbatim>\<open>sys/sys_mem.c\<close>, \<^verbatim>\<open>mm/gup.c\<close>)\<close>

text \<open>
  A table is a page of entries; the memory that holds tables maps a table's address and an index to the
  64-bit entry. Kernel pointers are physical addresses. The page allocator hands out zeroed pages and is an
  argument, as is the release of a page; the flushing of the translation buffer is left out. User addresses are below
  \<open>2 ^ 47\<close>, so the steps of the walks over a range do not wrap.
\<close>

definition PTE_PRESENT :: u64 where "PTE_PRESENT = 0x1"
definition PTE_WRITE :: u64 where "PTE_WRITE = 0x2"
definition PTE_USER :: u64 where "PTE_USER = 0x4"
definition PTE_PS :: u64 where "PTE_PS = 0x80"
definition PTE_COW :: u64 where "PTE_COW = 0x200"
definition PTE_NX :: u64 where "PTE_NX = 0x8000000000000000"
definition PTE_ADDR_MASK :: u64 where "PTE_ADDR_MASK = 0x000FFFFFFFFFF000"
definition HUGE_PHYS_MASK :: u64 where "HUGE_PHYS_MASK = 0x000FFFFFFFE00000"
definition HUGE_PAGE_MASK :: u64 where "HUGE_PAGE_MASK = NOT 0x1FFFFF"
definition USER_TOP :: nat where "USER_TOP = 0x800000000000"
definition HUGE_PAGE_BYTES :: nat where "HUGE_PAGE_BYTES = 0x200000"
definition PROT_READ :: int where "PROT_READ = 1"
definition PROT_WRITE :: int where "PROT_WRITE = 2"
definition PROT_EXEC :: int where "PROT_EXEC = 4"

type_synonym ptmem = "nat \<Rightarrow> nat \<Rightarrow> u64"

abbreviation set_entry :: "ptmem \<Rightarrow> nat \<Rightarrow> nat \<Rightarrow> u64 \<Rightarrow> ptmem" where
  "set_entry m t i e \<equiv> m(t := (m t)(i := e))"

definition present :: "u64 \<Rightarrow> bool" where "present e \<longleftrightarrow> e AND PTE_PRESENT \<noteq> 0"
definition huge :: "u64 \<Rightarrow> bool" where "huge e \<longleftrightarrow> e AND PTE_PS \<noteq> 0"
definition table_of :: "u64 \<Rightarrow> nat" where "table_of e = unat (e AND PTE_ADDR_MASK)"
definition table_link :: "nat \<Rightarrow> u64" where "table_link t = word_of_nat t OR PTE_PRESENT OR PTE_WRITE OR PTE_USER"

definition pml4_idx :: "nat \<Rightarrow> nat" where "pml4_idx va = va div 2 ^ 39 mod 512"
definition pdpt_idx :: "nat \<Rightarrow> nat" where "pdpt_idx va = va div 2 ^ 30 mod 512"
definition pd_idx :: "nat \<Rightarrow> nat" where "pd_idx va = va div 2 ^ 21 mod 512"
definition pt_idx :: "nat \<Rightarrow> nat" where "pt_idx va = va div 2 ^ 12 mod 512"

definition prot_to_pte :: "int \<Rightarrow> u64" where
  "prot_to_pte prot =
     (if prot AND (PROT_READ OR PROT_WRITE OR PROT_EXEC) = 0 then 0
      else PTE_PRESENT OR PTE_USER OR (if prot AND PROT_WRITE \<noteq> 0 then PTE_WRITE else 0)
             OR (if prot AND PROT_EXEC = 0 then PTE_NX else 0))"

definition create_user_pml4 :: "('s \<Rightarrow> nat option \<times> 's) \<Rightarrow> nat \<Rightarrow> ptmem \<times> 's \<Rightarrow> nat option \<times> ptmem \<times> 's" where
  "create_user_pml4 alloc kernel_pml4 x =
     (let (m, st) = x in
      case alloc st of
        (None, st1) \<Rightarrow> (None, m, st1)
      | (Some t, st1) \<Rightarrow> (Some t, m(t := \<lambda>i. if 256 \<le> i \<and> i < 512 then m kernel_pml4 i else 0), st1))"

definition get_or_alloc_level ::
  "('s \<Rightarrow> nat option \<times> 's) \<Rightarrow> nat \<Rightarrow> nat \<Rightarrow> ptmem \<times> 's \<Rightarrow> nat option \<times> ptmem \<times> 's" where
  "get_or_alloc_level alloc t i x =
     (let (m, st) = x in
      if present (m t i) then (Some (table_of (m t i)), m, st)
      else case alloc st of
        (None, st1) \<Rightarrow> (None, m, st1)
      | (Some n, st1) \<Rightarrow> (Some n, set_entry (m(n := \<lambda>_. 0)) t i (table_link n), st1))"

text \<open>A 2 MB page at \<open>base\<close> becomes a table of 512 pages with the given flags. \<^verbatim>\<open>process.c\<close> and
  \<^verbatim>\<open>sys_mem.c\<close> compute the base with different masks.\<close>

definition fill_split ::
  "('s \<Rightarrow> nat option \<times> 's) \<Rightarrow> nat \<Rightarrow> nat \<Rightarrow> u64 \<Rightarrow> u64 \<Rightarrow> ptmem \<times> 's \<Rightarrow> bool \<times> ptmem \<times> 's" where
  "fill_split alloc pd i base flags x =
     (let (m, st) = x in
      case alloc st of
        (None, st1) \<Rightarrow> (False, m, st1)
      | (Some n, st1) \<Rightarrow>
          (True, set_entry (m(n := \<lambda>j. if j < 512 then (base + word_of_nat j * 4096) OR flags else 0)) pd i (table_link n), st1))"

definition split_flags :: "u64 \<Rightarrow> u64" where
  "split_flags pmd = pmd AND (PTE_PRESENT OR PTE_WRITE OR PTE_USER OR PTE_NX OR PTE_COW)"

text \<open>The part of \<^verbatim>\<open>map_user_page\<close> below the page directory: a huge page in the way is split first.\<close>

definition map_in_pd ::
  "('s \<Rightarrow> nat option \<times> 's) \<Rightarrow> nat \<Rightarrow> nat \<Rightarrow> nat \<Rightarrow> int \<Rightarrow> ptmem \<times> 's \<Rightarrow> bool \<times> ptmem \<times> 's" where
  "map_in_pd alloc pd va phys prot x2 =
     (let e = fst x2 pd (pd_idx va);
          (ok, x3) = (if present e \<and> huge e then fill_split alloc pd (pd_idx va) (e AND HUGE_PHYS_MASK) (split_flags e) x2 else (True, x2))
      in if \<not> ok then (False, x3)
         else (case get_or_alloc_level alloc pd (pd_idx va) x3 of
                 (None, x4) \<Rightarrow> (False, x4)
               | (Some pt, (m4, st4)) \<Rightarrow>
                   (True, set_entry m4 pt (pt_idx va) (word_of_nat phys OR prot_to_pte prot), st4)))"

definition map_user_page ::
  "('s \<Rightarrow> nat option \<times> 's) \<Rightarrow> nat \<Rightarrow> nat \<Rightarrow> nat \<Rightarrow> int \<Rightarrow> ptmem \<times> 's \<Rightarrow> bool \<times> ptmem \<times> 's" where
  "map_user_page alloc pml4 va phys prot x =
     (if USER_TOP \<le> va then (False, x)
      else case get_or_alloc_level alloc pml4 (pml4_idx va) x of
        (None, x1) \<Rightarrow> (False, x1)
      | (Some pdpt, x1) \<Rightarrow>
      (case get_or_alloc_level alloc pdpt (pdpt_idx va) x1 of
        (None, x2) \<Rightarrow> (False, x2)
      | (Some pd, x2) \<Rightarrow> map_in_pd alloc pd va phys prot x2))"

definition pte_or_inplace :: "nat \<Rightarrow> nat \<Rightarrow> u64 \<Rightarrow> ptmem \<Rightarrow> ptmem" where
  "pte_or_inplace pml4 va bits m =
     (if USER_TOP \<le> va then m
      else if \<not> present (m pml4 (pml4_idx va)) then m
      else let pdpt = table_of (m pml4 (pml4_idx va)) in
        if \<not> present (m pdpt (pdpt_idx va)) then m
        else let pd = table_of (m pdpt (pdpt_idx va)) in
          if \<not> present (m pd (pd_idx va)) \<or> huge (m pd (pd_idx va)) then m
          else let pt = table_of (m pd (pd_idx va)) in set_entry m pt (pt_idx va) (m pt (pt_idx va) OR bits))"

definition map_user_huge_page ::
  "('s \<Rightarrow> nat option \<times> 's) \<Rightarrow> nat \<Rightarrow> nat \<Rightarrow> nat \<Rightarrow> int \<Rightarrow> ptmem \<times> 's \<Rightarrow> bool \<times> ptmem \<times> 's" where
  "map_user_huge_page alloc pml4 va phys prot x =
     (if USER_TOP \<le> va \<or> va mod HUGE_PAGE_BYTES \<noteq> 0 \<or> phys mod HUGE_PAGE_BYTES \<noteq> 0 then (False, x)
      else case get_or_alloc_level alloc pml4 (pml4_idx va) x of
        (None, x1) \<Rightarrow> (False, x1)
      | (Some pdpt, x1) \<Rightarrow>
      (case get_or_alloc_level alloc pdpt (pdpt_idx va) x1 of
        (None, x2) \<Rightarrow> (False, x2)
      | (Some pd, (m2, st2)) \<Rightarrow>
          let flags = PTE_PS OR PTE_PRESENT OR PTE_USER OR (if prot AND PROT_WRITE \<noteq> 0 then PTE_WRITE else 0)
                        OR (if prot AND PROT_EXEC = 0 then PTE_NX else 0)
          in (True, set_entry m2 pd (pd_idx va) (word_of_nat phys OR flags), st2)))"

definition read_pte_pub :: "ptmem \<Rightarrow> nat \<Rightarrow> nat \<Rightarrow> u64" where
  "read_pte_pub m pml4 va =
     (let e4 = m pml4 (pml4_idx va) in
      if \<not> present e4 then 0
      else let e3 = m (table_of e4) (pdpt_idx va) in
        if \<not> present e3 then 0
        else let e2 = m (table_of e3) (pd_idx va) in
          if \<not> present e2 then 0
          else if huge e2 then
            ((e2 AND HUGE_PHYS_MASK) + word_of_nat (va mod 2 ^ 21)) OR ((e2 AND NOT HUGE_PHYS_MASK) AND NOT PTE_PS)
          else m (table_of e2) (pt_idx va))"

text \<open>The walk of \<^verbatim>\<open>gup.c\<close> also knows 1 GB pages.\<close>

definition pt_va_to_pa :: "ptmem \<Rightarrow> nat \<Rightarrow> nat \<Rightarrow> u64" where
  "pt_va_to_pa m pml4 va =
     (if pml4 = 0 then 0
      else let e4 = m pml4 (pml4_idx va) in
      if \<not> present e4 then 0
      else let e3 = m (table_of e4) (pdpt_idx va) in
        if \<not> present e3 then 0
        else if huge e3 then (e3 AND PTE_ADDR_MASK) OR word_of_nat (va mod 2 ^ 30)
        else let e2 = m (table_of e3) (pd_idx va) in
          if \<not> present e2 then 0
          else if huge e2 then (e2 AND PTE_ADDR_MASK) OR word_of_nat (va mod 2 ^ 21)
          else let e1 = m (table_of e2) (pt_idx va) in
            if \<not> present e1 then 0 else (e1 AND PTE_ADDR_MASK) OR word_of_nat (va mod 2 ^ 12))"

definition split_huge_pmd ::
  "('s \<Rightarrow> nat option \<times> 's) \<Rightarrow> nat \<Rightarrow> nat \<Rightarrow> u64 \<Rightarrow> ptmem \<times> 's \<Rightarrow> bool \<times> ptmem \<times> 's" where
  "split_huge_pmd alloc pd i prot_override x =
     (let pmd = fst x pd i in
      if \<not> present pmd \<or> \<not> huge pmd then (False, x)
      else fill_split alloc pd i (pmd AND HUGE_PAGE_MASK) (if prot_override = 0 then split_flags pmd else prot_override) x)"

subsection \<open>Walks over a range\<close>

definition next_boundary :: "nat \<Rightarrow> nat \<Rightarrow> nat" where
  "next_boundary k va = (va div 2 ^ k + 1) * 2 ^ k"

lemma next_boundary_gt: "va < next_boundary k va"
  using dividend_less_times_div [of "2 ^ k" va] by (simp add: next_boundary_def algebra_simps)

text \<open>One step of a walk: the entries on the way, or how far to skip.\<close>

datatype walk = Skip nat | Huge_at nat nat | Leaf_at nat nat

definition walk_step :: "ptmem \<Rightarrow> nat \<Rightarrow> nat \<Rightarrow> walk" where
  "walk_step m pml4 va =
     (let e4 = m pml4 (pml4_idx va) in
      if \<not> present e4 then Skip (next_boundary 39 va)
      else let e3 = m (table_of e4) (pdpt_idx va) in
        if \<not> present e3 then Skip (next_boundary 30 va)
        else let pd = table_of e3; e2 = m pd (pd_idx va) in
          if \<not> present e2 then Skip (next_boundary 21 va)
          else if huge e2 then Huge_at pd (pd_idx va)
          else Leaf_at (table_of e2) (pt_idx va))"

definition free_leaf :: "(nat \<Rightarrow> 's \<Rightarrow> 's) \<Rightarrow> nat \<Rightarrow> nat \<Rightarrow> ptmem \<times> 's \<Rightarrow> ptmem \<times> 's" where
  "free_leaf release pt i x =
     (let (m, st) = x; e = m pt i in
      if present e then (set_entry m pt i 0, release (table_of e) st) else x)"

definition free_huge :: "(nat \<Rightarrow> 's \<Rightarrow> 's) \<Rightarrow> nat \<Rightarrow> nat \<Rightarrow> ptmem \<times> 's \<Rightarrow> ptmem \<times> 's" where
  "free_huge release pd i x =
     (let (m, st) = x; phys = unat (m pd i AND HUGE_PAGE_MASK)
      in (set_entry m pd i 0, fold (\<lambda>j. release (phys + j * 4096)) [0..<512] st))"

lemma walk_skip: "walk_step m pml4 va = Skip n \<Longrightarrow> va < n"
  by (auto simp: walk_step_def Let_def next_boundary_gt split: if_splits)

lemma huge_base_gt: "(va :: nat) < va div 2 ^ 21 * 2 ^ 21 + 0x200000"
  using next_boundary_gt [of va 21] by (simp add: next_boundary_def)

function unmap_range ::
  "('s \<Rightarrow> nat option \<times> 's) \<Rightarrow> (nat \<Rightarrow> 's \<Rightarrow> 's) \<Rightarrow> nat \<Rightarrow> nat \<Rightarrow> nat \<Rightarrow> nat \<Rightarrow> ptmem \<times> 's \<Rightarrow> ptmem \<times> 's" where
  "unmap_range alloc release pml4 start end' va x =
     (if end' \<le> va then x
      else case walk_step (fst x) pml4 va of
        Skip n \<Rightarrow> unmap_range alloc release pml4 start end' n x
      | Leaf_at pt i \<Rightarrow> unmap_range alloc release pml4 start end' (va + 4096) (free_leaf release pt i x)
      | Huge_at pd i \<Rightarrow>
          let base = va div 2 ^ 21 * 2 ^ 21 in
          if start \<le> base \<and> base + 0x200000 \<le> end' then
            unmap_range alloc release pml4 start end' (base + 0x200000) (free_huge release pd i x)
          else case split_huge_pmd alloc pd i 0 x of
            (False, x1) \<Rightarrow> unmap_range alloc release pml4 start end' (base + 0x200000) x1
          | (True, x1) \<Rightarrow>
              unmap_range alloc release pml4 start end' (va + 4096)
                (free_leaf release (table_of (fst x1 pd i)) (pt_idx va) x1))"
  by pat_completeness auto
termination
proof (relation "measure (\<lambda>(alloc, release, pml4, start, end', va, x). end' - va)", goal_cases)
  case (2 alloc release pml4 start end' va x n)
  then show ?case using walk_skip [of "fst x" pml4 va n] by auto
qed (use huge_base_gt in \<open>auto simp: not_le intro!: diff_less_mono2\<close>)

declare unmap_range.simps [simp del]

definition prot_to_pte_flags :: "int \<Rightarrow> u64" where
  "prot_to_pte_flags prot =
     (if prot AND (PROT_READ OR PROT_WRITE OR PROT_EXEC) = 0 then 0
      else PTE_PRESENT OR PTE_USER OR (if prot AND PROT_WRITE \<noteq> 0 then PTE_WRITE else 0)
             OR (if prot AND PROT_EXEC = 0 then PTE_NX else 0))"

definition prot_leaf :: "u64 \<Rightarrow> nat \<Rightarrow> nat \<Rightarrow> ptmem \<Rightarrow> ptmem" where
  "prot_leaf flags pt i m =
     (let phys = m pt i AND PTE_ADDR_MASK in if phys \<noteq> 0 then set_entry m pt i (phys OR flags) else m)"

function update_pte_prot ::
  "('s \<Rightarrow> nat option \<times> 's) \<Rightarrow> nat \<Rightarrow> nat \<Rightarrow> nat \<Rightarrow> int \<Rightarrow> nat \<Rightarrow> ptmem \<times> 's \<Rightarrow> ptmem \<times> 's" where
  "update_pte_prot alloc pml4 start end' prot va x =
     (if end' \<le> va then x
      else let flags = prot_to_pte_flags prot in
        case walk_step (fst x) pml4 va of
          Skip n \<Rightarrow> update_pte_prot alloc pml4 start end' prot n x
        | Leaf_at pt i \<Rightarrow> update_pte_prot alloc pml4 start end' prot (va + 4096) (prot_leaf flags pt i (fst x), snd x)
        | Huge_at pd i \<Rightarrow>
            let base = va div 2 ^ 21 * 2 ^ 21 in
            if start \<le> base \<and> base + 0x200000 \<le> end' then
              update_pte_prot alloc pml4 start end' prot (base + 0x200000)
                (set_entry (fst x) pd i ((fst x pd i AND HUGE_PAGE_MASK) OR flags OR PTE_PS), snd x)
            else case split_huge_pmd alloc pd i 0 x of
              (False, x1) \<Rightarrow> update_pte_prot alloc pml4 start end' prot (base + 0x200000) x1
            | (True, x1) \<Rightarrow>
                update_pte_prot alloc pml4 start end' prot (va + 4096)
                  (prot_leaf flags (table_of (fst x1 pd i)) (pt_idx va) (fst x1), snd x1))"
  by pat_completeness auto
termination
proof (relation "measure (\<lambda>(alloc, pml4, start, end', prot, va, x). end' - va)", goal_cases)
  case (2 alloc pml4 start end' prot va x flags n)
  then show ?case using walk_skip [of "fst x" pml4 va n] by auto
qed (use huge_base_gt in \<open>auto simp: not_le intro!: diff_less_mono2\<close>)

declare update_pte_prot.simps [simp del]

end
