(* ===== verification/Page_Table_Inv.thy ===== *)
theory Page_Table_Inv
  imports Page_Table Page_Cache
begin

unbundle bit_operations_syntax

section \<open>Page tables form a tree\<close>

text \<open>
  The tables of the user half of an address space are named by the indices on the way from the root, deepest
  first. While no table is reached on two ways, a change of one entry is seen by the addresses of that entry only.
\<close>

subsection \<open>Entries bit by bit\<close>

lemma bit_pow: "(e :: u64) = 2 ^ k \<Longrightarrow> k < 64 \<Longrightarrow> bit e n \<longleftrightarrow> n = k"
  by (auto simp: bit_exp_iff)

lemma pte_bits [simp]:
  "bit PTE_PRESENT n \<longleftrightarrow> n = 0" "bit PTE_WRITE n \<longleftrightarrow> n = 1" "bit PTE_USER n \<longleftrightarrow> n = 2" "bit PTE_PS n \<longleftrightarrow> n = 7"
  "bit PTE_COW n \<longleftrightarrow> n = 9" "bit PTE_NX n \<longleftrightarrow> n = 63"
  by (rule bit_pow; simp add: PTE_PRESENT_def PTE_WRITE_def PTE_USER_def PTE_PS_def PTE_COW_def PTE_NX_def)+

lemma mask_bits [simp]:
  "bit PTE_ADDR_MASK n \<longleftrightarrow> 12 \<le> n \<and> n < 52" "bit HUGE_PHYS_MASK n \<longleftrightarrow> 21 \<le> n \<and> n < 52"
  "bit HUGE_PAGE_MASK n \<longleftrightarrow> 21 \<le> n \<and> n < 64"
proof -
  have "PTE_ADDR_MASK = push_bit 12 (mask 40)" "HUGE_PHYS_MASK = push_bit 21 (mask 31)" "HUGE_PAGE_MASK = NOT (mask 21)"
    by (simp_all add: PTE_ADDR_MASK_def HUGE_PHYS_MASK_def HUGE_PAGE_MASK_def mask_eq_exp_minus_1 push_bit_eq_mult)
  note masks = this
  show "bit PTE_ADDR_MASK n \<longleftrightarrow> 12 \<le> n \<and> n < 52" by (subst masks(1)) (auto simp: bit_push_bit_iff bit_mask_iff)
  show "bit HUGE_PHYS_MASK n \<longleftrightarrow> 21 \<le> n \<and> n < 52" by (subst masks(2)) (auto simp: bit_push_bit_iff bit_mask_iff)
  show "bit HUGE_PAGE_MASK n \<longleftrightarrow> 21 \<le> n \<and> n < 64" by (subst masks(3)) (auto simp: bit_not_iff bit_mask_iff)
qed

lemma and_pow_iff: "(b :: u64) = 2 ^ k \<Longrightarrow> e AND b = 0 \<longleftrightarrow> \<not> bit e k"
  by (simp only: and_exp_eq_0_iff_not_bit)

lemma and_bit_iff: "e AND PTE_PRESENT = 0 \<longleftrightarrow> \<not> bit e 0" "e AND PTE_PS = 0 \<longleftrightarrow> \<not> bit e 7"
  by (rule and_pow_iff; simp add: PTE_PRESENT_def PTE_PS_def)+

lemma present_bit: "present e \<longleftrightarrow> bit e 0" and huge_bit: "huge e \<longleftrightarrow> bit e 7"
  by (simp_all add: present_def huge_def and_bit_iff)

lemma bit_frame: "4096 dvd t \<Longrightarrow> t < 2 ^ 52 \<Longrightarrow> bit (t :: nat) n \<Longrightarrow> 12 \<le> n \<and> n < 52"
proof -
  assume t: "4096 dvd t" "t < 2 ^ 52" "bit t n"
  have "bit t n \<longleftrightarrow> 12 \<le> n \<and> bit (t div 4096) (n - 12)"
    using t(1) bit_push_bit_iff [of 12 "t div 4096" n] by (simp add: push_bit_eq_mult mult.commute)
  moreover have "n < 52"
  proof (rule ccontr)
    assume "\<not> n < 52"
    then have "t div 2 ^ n = 0" using t(2) power_increasing [of 52 n "2 :: nat"] by (auto intro: div_less less_le_trans)
    then show False using t(3) by (simp add: bit_iff_odd)
  qed
  ultimately show "12 \<le> n \<and> n < 52" using t(3) by simp
qed

lemma table_link_table: "4096 dvd t \<Longrightarrow> t < 2 ^ 52 \<Longrightarrow> table_of (table_link t) = t"
proof -
  assume t: "4096 dvd t" "t < 2 ^ 52"
  have "table_link t AND PTE_ADDR_MASK = word_of_nat t"
    using bit_frame [OF t]
    by (intro bit_word_eqI) (auto simp: table_link_def bit_and_iff bit_or_iff bit_of_nat_iff)
  then show ?thesis using t(2) by (simp add: table_of_def unsigned_of_nat take_bit_nat_eq_self)
qed

lemma table_link_flags: "4096 dvd t \<Longrightarrow> t < 2 ^ 52 \<Longrightarrow> present (table_link t) \<and> \<not> huge (table_link t)"
  using bit_frame [of t 7]
  by (auto simp: table_link_def present_bit huge_bit bit_or_iff bit_of_nat_iff)

subsection \<open>The tree\<close>

fun node :: "ptmem \<Rightarrow> nat \<Rightarrow> nat list \<Rightarrow> nat option" where
  "node m r [] = Some r"
| "node m r (i # p) =
     (case node m r p of
        None \<Rightarrow> None
      | Some t \<Rightarrow>
          if present (m t i) \<and> \<not> (p = [] \<and> 256 \<le> i) \<and> \<not> (length p = 2 \<and> huge (m t i)) then Some (table_of (m t i))
          else None)"

definition nodes :: "ptmem \<Rightarrow> nat \<Rightarrow> nat set" where
  "nodes m r = {t. \<exists>p. length p \<le> 3 \<and> node m r p = Some t}"

definition tree_ok :: "ptmem \<Rightarrow> nat \<Rightarrow> bool" where
  "tree_ok m r \<longleftrightarrow>
     (\<forall>p q t. length p \<le> 3 \<longrightarrow> length q \<le> 3 \<longrightarrow> node m r p = Some t \<longrightarrow> node m r q = Some t \<longrightarrow> p = q)"

lemma nodesI: "length p \<le> 3 \<Longrightarrow> node m r p = Some t \<Longrightarrow> t \<in> nodes m r"
  by (auto simp: nodes_def)

lemma tree_okD: "tree_ok m r \<Longrightarrow> length p \<le> 3 \<Longrightarrow> length q \<le> 3 \<Longrightarrow> node m r p = Some t \<Longrightarrow> node m r q = Some t \<Longrightarrow> p = q"
  by (simp add: tree_ok_def)

text \<open>Hanging a new table into a free place.\<close>

lemma node_add:
  assumes "tree_ok m r" and "length p \<le> 2" and "node m r p = Some t" and "node m r (i # p) = None"
    and "n \<notin> nodes m r" and "4096 dvd n" and "n < 2 ^ 52" and "length p < 2 \<Longrightarrow> \<forall>j. \<not> present (f j)"
    and "p = [] \<Longrightarrow> i < 256"
  defines "m' \<equiv> set_entry (m(n := f)) t i (table_link n)"
  shows "length q \<le> 3 \<Longrightarrow> node m' r q = (if q = i # p then Some n else node m r q)"
proof (induction q)
  case (Cons j q)
  have nt: "n \<noteq> t" using nodesI [OF _ assms(3)] assms(2,5) by auto
  have I: "node m' r q = (if q = i # p then Some n else node m r q)" using Cons by simp
  show ?case
  proof (cases "q = i # p")
    case True
    then have "\<not> present (m' n j)" using Cons.prems assms(8) nt by (simp add: m'_def)
    then show ?thesis using I True assms(4) by simp
  next
    case ne: False
    show ?thesis
    proof (cases "node m r q")
      case None
      then show ?thesis using I ne assms(3) by auto
    next
      case (Some u)
      have u: "u \<noteq> n" using nodesI [OF _ Some] Cons.prems assms(5) by auto
      show ?thesis
      proof (cases "u = t \<and> j = i")
        case True
        then have "q = p" using tree_okD [OF assms(1) _ _ Some, of p] assms(2,3) Cons.prems by auto
        moreover have "m' u j = table_link n" using True by (simp add: m'_def)
        ultimately show ?thesis
          using I ne Some True table_link_flags [OF assms(6,7)] table_link_table [OF assms(6,7)] assms(9) by auto
      next
        case False
        have "j # q \<noteq> i # p" using False Some assms(3) by auto
        moreover have "m' u j = m u j" using False u by (auto simp: m'_def)
        ultimately show ?thesis using I ne Some by auto
      qed
    qed
  qed
qed simp

lemma tree_add:
  assumes "tree_ok m r" and "length p \<le> 2" and "node m r p = Some t" and "node m r (i # p) = None"
    and "n \<notin> nodes m r" and "4096 dvd n" and "n < 2 ^ 52" and "length p < 2 \<Longrightarrow> \<forall>j. \<not> present (f j)"
    and "p = [] \<Longrightarrow> i < 256"
  defines "m' \<equiv> set_entry (m(n := f)) t i (table_link n)"
  shows "tree_ok m' r" and "nodes m' r = insert n (nodes m r)"
proof -
  note N = node_add [OF assms(1-9), folded m'_def]
  have fresh: "node m r q \<noteq> Some n" if "length q \<le> 3" for q using assms(5) that by (auto simp: nodes_def)
  show "tree_ok m' r"
    unfolding tree_ok_def
  proof (intro allI impI)
    fix q q' u assume q: "length q \<le> 3" "length q' \<le> 3" "node m' r q = Some u" "node m' r q' = Some u"
    show "q = q'"
    proof (cases "u = n")
      case True
      then show ?thesis using q N [of q] N [of q'] fresh by (metis)
    next
      case False
      then have "node m r q = Some u" "node m r q' = Some u" using q N [of q] N [of q'] by (auto split: if_splits)
      then show ?thesis by (rule tree_okD [OF assms(1) q(1,2)])
    qed
  qed
  have "u \<in> nodes m' r \<longleftrightarrow> u = n \<or> u \<in> nodes m r" for u
  proof
    assume "u \<in> nodes m' r"
    then obtain q where "length q \<le> 3" "node m' r q = Some u" by (auto simp: nodes_def)
    then show "u = n \<or> u \<in> nodes m r" using N [of q] by (auto simp: nodes_def split: if_splits)
  next
    assume "u = n \<or> u \<in> nodes m r"
    then show "u \<in> nodes m' r"
    proof
      assume "u = n"
      then have "node m' r (i # p) = Some u" "length (i # p) \<le> 3" using N [of "i # p"] assms(2) by simp_all
      then show ?thesis unfolding nodes_def by blast
    next
      assume "u \<in> nodes m r"
      then obtain q where q: "length q \<le> 3" "node m r q = Some u" by (auto simp: nodes_def)
      then have "q \<noteq> i # p" using assms(4) by auto
      then have "node m' r q = Some u" using N [of q] q by simp
      then show ?thesis using q(1) unfolding nodes_def by blast
    qed
  qed
  then show "nodes m' r = insert n (nodes m r)" by blast
qed

subsection \<open>Reading through the tree\<close>

definition path2 :: "nat \<Rightarrow> nat list" where "path2 va = [pdpt_idx va, pml4_idx va]"
definition path3 :: "nat \<Rightarrow> nat list" where "path3 va = pd_idx va # path2 va"

definition huge_read :: "u64 \<Rightarrow> nat \<Rightarrow> u64" where
  "huge_read e va = ((e AND HUGE_PHYS_MASK) + word_of_nat (va mod 2 ^ 21)) OR ((e AND NOT HUGE_PHYS_MASK) AND NOT PTE_PS)"

lemma path_length [simp]: "length (path2 va) = 2" "length (path3 va) = 3" "path2 va \<noteq> []"
  by (simp_all add: path2_def path3_def)

lemma path2_path3 [simp]: "path2 va \<noteq> path3 va'"
  by (simp add: path2_def path3_def)

lemma user_pml4_idx: "va < USER_TOP \<Longrightarrow> pml4_idx va < 256"
  by (simp add: pml4_idx_def USER_TOP_def)

lemma read_node:
  assumes "va < USER_TOP"
  shows "read_pte_pub m r va =
    (case node m r (path2 va) of
       None \<Rightarrow> 0
     | Some pd \<Rightarrow> let e = m pd (pd_idx va) in
         if \<not> present e then 0 else if huge e then huge_read e va else m (table_of e) (pt_idx va))"
  using user_pml4_idx [OF assms] by (auto simp: read_pte_pub_def path2_def huge_read_def Let_def)

lemma read_leaf:
  assumes "va < USER_TOP" and "node m r (path3 va) = Some pt"
  shows "read_pte_pub m r va = m pt (pt_idx va)"
  using assms(2) by (auto simp: read_node [OF assms(1)] path3_def Let_def split: option.splits if_splits)

lemma read_no_leaf:
  assumes "va < USER_TOP" and "node m r (path3 va) = None"
  shows "read_pte_pub m r va =
    (case node m r (path2 va) of
       None \<Rightarrow> 0
     | Some pd \<Rightarrow> if present (m pd (pd_idx va)) \<and> huge (m pd (pd_idx va)) then huge_read (m pd (pd_idx va)) va else 0)"
  using assms(2) by (auto simp: read_node [OF assms(1)] path3_def Let_def split: option.splits if_splits)

text \<open>Two memories agree on an address when its tables and the entries in them agree.\<close>

lemma read_cong:
  assumes "va < USER_TOP" and "node m' r (path2 va) = node m r (path2 va)" and "node m' r (path3 va) = node m r (path3 va)"
    and "\<And>pd. node m r (path2 va) = Some pd \<Longrightarrow> node m r (path3 va) = None \<Longrightarrow> m' pd (pd_idx va) = m pd (pd_idx va)"
    and "\<And>pt. node m r (path3 va) = Some pt \<Longrightarrow> m' pt (pt_idx va) = m pt (pt_idx va)"
  shows "read_pte_pub m' r va = read_pte_pub m r va"
proof (cases "node m r (path3 va)")
  case None
  then show ?thesis
    using read_no_leaf [OF assms(1), of m r] read_no_leaf [OF assms(1), of m' r] assms(2-4) by (auto split: option.splits)
next
  case (Some pt)
  then show ?thesis using read_leaf [OF assms(1), of m r] read_leaf [OF assms(1), of m' r] assms(3,5) by simp
qed

lemma index_step: "(a :: nat) div (k * 512) = b div (k * 512) \<Longrightarrow> a div k mod 512 = b div k mod 512 \<Longrightarrow> a div k = b div k"
  by (metis div_mult2_eq mult_div_mod_eq)

lemma path_pages:
  assumes "va < USER_TOP" and "va' < USER_TOP" and "path3 va = path3 va'"
  shows "va div 2 ^ 21 = va' div 2 ^ 21" and "pt_idx va = pt_idx va' \<Longrightarrow> va div 4096 = va' div 4096"
proof -
  have "va div 2 ^ 39 = va' div 2 ^ 39" "va div 2 ^ 30 mod 512 = va' div 2 ^ 30 mod 512"
    "va div 2 ^ 21 mod 512 = va' div 2 ^ 21 mod 512"
    using assms by (auto simp: path3_def path2_def pml4_idx_def pdpt_idx_def pd_idx_def USER_TOP_def)
  then show P: "va div 2 ^ 21 = va' div 2 ^ 21"
    using index_step [of va "2 ^ 30" va'] index_step [of va "2 ^ 21" va'] by simp
  show "va div 4096 = va' div 4096" if "pt_idx va = pt_idx va'"
    using index_step [of va "2 ^ 12" va'] P that by (simp add: pt_idx_def)
qed

subsection \<open>What the addresses see of a change\<close>

lemma read_add:
  assumes "tree_ok m r" and "length p \<le> 2" and "node m r p = Some t" and "node m r (i # p) = None"
    and "n \<notin> nodes m r" and "4096 dvd n" and "n < 2 ^ 52" and "length p < 2 \<Longrightarrow> \<forall>j. \<not> present (f j)"
    and "p = [] \<Longrightarrow> i < 256" and "va < USER_TOP"
  defines "m' \<equiv> set_entry (m(n := f)) t i (table_link n)"
  shows "read_pte_pub m' r va = (if path3 va = i # p then f (pt_idx va) else read_pte_pub m r va)"
proof -
  note N = node_add [OF assms(1-9), folded m'_def]
  have nt: "n \<noteq> t" using nodesI [OF _ assms(3)] assms(2,5) by auto
  have new: "m' n j = f j" for j using nt by (simp add: m'_def)
  have old: "m' u j = m u j" if "length q \<le> 3" "node m r q = Some u" "j # q \<noteq> i # p" for u j q
    using that tree_okD [OF assms(1) that(1) _ that(2), of p] nodesI [OF that(1,2)] assms(2,3,5) by (auto simp: m'_def)
  consider "path3 va = i # p" | "path2 va = i # p" | "path3 va \<noteq> i # p" "path2 va \<noteq> i # p" by blast
  then show ?thesis
  proof cases
    case 1
    have "node m' r (path3 va) = Some n" by (subst N) (use path_length(2) [of va] in \<open>simp_all add: 1 del: node.simps\<close>)
    then show ?thesis using read_leaf [OF assms(10), of m' r n] new 1 by simp
  next
    case 2
    then have p: "length p = 1" using path_length(1) [of va] by simp
    then have z: "\<not> present (f (pd_idx va))" using assms(8) by simp
    have "node m' r (path2 va) = Some n" by (subst N) (use path_length(1) [of va] in \<open>simp_all add: 2 del: node.simps\<close>)
    then have "read_pte_pub m' r va = 0" using z new by (simp add: read_node [OF assms(10)] Let_def)
    moreover have "read_pte_pub m r va = 0" using 2 assms(4) by (simp add: read_node [OF assms(10)])
    moreover have "path3 va \<noteq> i # p" using p path_length(2) [of va] by (metis One_nat_def length_Cons n_not_Suc_n numeral_3_eq_3)
    ultimately show ?thesis by simp
  next
    case 3
    have "read_pte_pub m' r va = read_pte_pub m r va"
    proof (rule read_cong [OF assms(10)])
      show "node m' r (path2 va) = node m r (path2 va)" using N [of "path2 va"] 3 by simp
      show "node m' r (path3 va) = node m r (path3 va)" using N [of "path3 va"] 3 by simp
      show "m' pd (pd_idx va) = m pd (pd_idx va)" if "node m r (path2 va) = Some pd" for pd
        by (rule old [of "path2 va"]) (use that 3 in \<open>simp_all add: path3_def\<close>)
      show "m' pt (pt_idx va) = m pt (pt_idx va)" if "node m r (path3 va) = Some pt" for pt
        by (rule old [of "path3 va"]) (use that assms(2) path_length(2) [of va] in auto)
    qed
    then show ?thesis using 3 by simp
  qed
qed

lemma node_leaf_write:
  assumes "tree_ok m r" and "length p = 3" and "node m r p = Some pt"
  shows "length q \<le> 3 \<Longrightarrow> node (set_entry m pt i e) r q = node m r q"
proof (induction q)
  case (Cons j q)
  have I: "node (set_entry m pt i e) r q = node m r q" by (rule Cons.IH) (use Cons.prems in simp)
  show ?case
  proof (cases "node m r q")
    case (Some u)
    have "u \<noteq> pt"
      using tree_okD [OF assms(1) _ _ Some, of p] assms(2,3) Cons.prems by auto
    then show ?thesis unfolding node.simps I Some by simp
  qed (unfold node.simps I, simp)
qed simp

lemma leaf_write:
  fixes e :: u64
  assumes "tree_ok m r" and "node m r (path3 va) = Some pt" and "va < USER_TOP"
  defines "m' \<equiv> set_entry m pt (pt_idx va) e"
  shows "tree_ok m' r" and "nodes m' r = nodes m r" and "read_pte_pub m' r va = e"
    and "va' < USER_TOP \<Longrightarrow> va' div 4096 \<noteq> va div 4096 \<Longrightarrow> read_pte_pub m' r va' = read_pte_pub m r va'"
proof -
  have N: "node m' r q = node m r q" if "length q \<le> 3" for q
    unfolding m'_def by (rule node_leaf_write [OF assms(1) path_length(2) assms(2) that])
  show "tree_ok m' r" using assms(1) N by (auto simp: tree_ok_def)
  show "nodes m' r = nodes m r" using N by (auto simp: nodes_def)
  show "read_pte_pub m' r va = e" using read_leaf [OF assms(3), of m' r pt] N [of "path3 va"] assms(2) by (simp add: m'_def)
  assume va': "va' < USER_TOP" "va' div 4096 \<noteq> va div 4096"
  have same: "path3 q = path3 va" if "node m r (path3 q) = Some pt" for q
    using tree_okD [OF assms(1) _ _ that assms(2)] by simp
  show "read_pte_pub m' r va' = read_pte_pub m r va'"
  proof (rule read_cong [OF va'(1)])
    show "node m' r (path2 va') = node m r (path2 va')" "node m' r (path3 va') = node m r (path3 va')"
      using N [of "path2 va'"] N [of "path3 va'"] by simp_all
    fix pd assume "node m r (path2 va') = Some pd"
    then have "pd \<noteq> pt" using tree_okD [OF assms(1) _ _ _ assms(2), of "path2 va'"] path_length(1) [of va'] path_length(2) [of va] by auto
    then show "m' pd (pd_idx va') = m pd (pd_idx va')" by (simp add: m'_def)
  next
    fix u assume u: "node m r (path3 va') = Some u"
    show "m' u (pt_idx va') = m u (pt_idx va')"
    proof (cases "u = pt")
      case True
      then have "pt_idx va' \<noteq> pt_idx va" using path_pages(2) [OF va'(1) assms(3)] same [of va'] u va'(2) by auto
      then show ?thesis using True by (simp add: m'_def)
    qed (simp add: m'_def)
  qed
qed

subsection \<open>Huge pages are aligned\<close>

definition huge_aligned :: "ptmem \<Rightarrow> nat \<Rightarrow> bool" where
  "huge_aligned m r \<longleftrightarrow>
     (\<forall>p pd i. length p = 2 \<longrightarrow> node m r p = Some pd \<longrightarrow> present (m pd i) \<longrightarrow> huge (m pd i) \<longrightarrow>
        (\<forall>n. 12 \<le> n \<and> n < 21 \<longrightarrow> \<not> bit (m pd i) n))"

lemma huge_aligned_cong:
  assumes "huge_aligned m r"
    and "\<And>q pd i. length q = 2 \<Longrightarrow> node m' r q = Some pd \<Longrightarrow> present (m' pd i) \<Longrightarrow> huge (m' pd i) \<Longrightarrow>
      node m r q = Some pd \<and> m' pd i = m pd i"
  shows "huge_aligned m' r"
  using assms unfolding huge_aligned_def by metis

lemma huge_aligned_add:
  assumes "huge_aligned m r"
    and "tree_ok m r" and "length p \<le> 2" and "node m r p = Some t" and "node m r (i # p) = None"
    and "n \<notin> nodes m r" and "4096 dvd n" and "n < 2 ^ 52" and "length p < 2 \<Longrightarrow> \<forall>j. \<not> present (f j)"
    and "p = [] \<Longrightarrow> i < 256"
  defines "m' \<equiv> set_entry (m(n := f)) t i (table_link n)"
  shows "huge_aligned m' r"
proof (rule huge_aligned_cong [OF assms(1)])
  fix q pd j assume q: "length q = 2" "node m' r q = Some pd" "present (m' pd j)" "huge (m' pd j)"
  note N = node_add [OF assms(2-10), of q, folded m'_def]
  have nt: "n \<noteq> t" using nodesI [OF _ assms(4)] assms(3,6) by auto
  have "q \<noteq> i # p"
  proof
    assume "q = i # p"
    then have "pd = n" "length p = 1" using N q(1,2) by simp_all
    then show False using q(3) assms(9) nt by (simp add: m'_def)
  qed
  then have o: "node m r q = Some pd" using N q(1,2) by simp
  have "\<not> (pd = t \<and> j = i)"
    using q(4) table_link_flags [OF assms(7,8)] by (auto simp: m'_def)
  moreover have "pd \<noteq> n" using nodesI [OF _ o] q(1) assms(6) by auto
  ultimately show "node m r q = Some pd \<and> m' pd j = m pd j" using o by (auto simp: m'_def)
qed

text \<open>What an entry says of its page: the frame and the access bits the kernel uses.\<close>

definition xlate :: "u64 \<Rightarrow> u64" where
  "xlate e = e AND (PTE_ADDR_MASK OR PTE_PRESENT OR PTE_WRITE OR PTE_USER OR PTE_NX OR PTE_COW)"

lemma page_offset: "4096 dvd va \<Longrightarrow> va mod 2 ^ 21 = pt_idx va * 4096"
proof -
  assume "4096 dvd va"
  then obtain k where "va = k * 4096" by (auto simp: dvd_def mult.commute)
  moreover have "k * 4096 mod (512 * 4096) = k mod 512 * 4096" by (rule mult_mod_left [symmetric])
  ultimately show ?thesis by (simp add: pt_idx_def)
qed

lemma split_entry:
  assumes "\<And>n. 12 \<le> n \<and> n < 21 \<Longrightarrow> \<not> bit e n" and "4096 dvd va"
  shows "xlate (((e AND HUGE_PHYS_MASK) + word_of_nat (pt_idx va) * 4096) OR split_flags e) = xlate (huge_read e va)"
proof -
  define b where "b = (e AND HUGE_PHYS_MASK) + word_of_nat (pt_idx va) * 4096"
  define k where "k = PTE_ADDR_MASK OR PTE_PRESENT OR PTE_WRITE OR PTE_USER OR PTE_NX OR PTE_COW"
  have h: "huge_read e va = b OR ((e AND NOT HUGE_PHYS_MASK) AND NOT PTE_PS)"
    using page_offset [OF assms(2)] by (simp add: huge_read_def b_def)
  have "split_flags e AND k = ((e AND NOT HUGE_PHYS_MASK) AND NOT PTE_PS) AND k"
    using assms(1)
    by (intro bit_word_eqI)
       (auto simp: split_flags_def k_def bit_and_iff bit_or_iff bit_not_iff not_le not_less)
  then show ?thesis
    unfolding h xlate_def k_def [symmetric] b_def [symmetric] by (simp add: and.commute [of _ k] bit.conj_disj_distrib)
qed

text \<open>Overwriting an entry of a page directory by one that is not a link cuts off at most one table.\<close>

lemma node_pd_write:
  assumes "tree_ok m r" and "length p = 2" and "node m r p = Some pd" and "\<not> present e \<or> huge e"
  shows "length q \<le> 3 \<Longrightarrow> node (set_entry m pd i e) r q = (if q = i # p then None else node m r q)"
proof (induction q)
  case (Cons j q)
  have "q \<noteq> i # p" using Cons.prems assms(2) by auto
  then have I: "node (set_entry m pd i e) r q = node m r q" by (subst Cons.IH) (use Cons.prems in simp_all)
  show ?case
  proof (cases "node m r q")
    case (Some u)
    show ?thesis
    proof (cases "u = pd")
      case True
      then have q: "q = p" using tree_okD [OF assms(1) _ _ Some, of p] assms(2,3) Cons.prems by simp
      show ?thesis unfolding node.simps I Some using True q assms(2,4) by auto
    next
      case False
      then have "q \<noteq> p" using Some assms(3) by auto
      then show ?thesis unfolding node.simps I Some using False by simp
    qed
  qed (unfold node.simps I, auto simp: assms(3))
qed simp

lemma pd_write:
  assumes "tree_ok m r" and "huge_aligned m r" and "length p = 2" and "node m r p = Some pd" and "\<not> present e \<or> huge e"
    and "\<And>n. 12 \<le> n \<and> n < 21 \<Longrightarrow> \<not> bit e n"
  shows "tree_ok (set_entry m pd i e) r" and "nodes (set_entry m pd i e) r \<subseteq> nodes m r" and "huge_aligned (set_entry m pd i e) r"
proof -
  define m' where "m' = set_entry m pd i e"
  have N: "node m' r q = (if q = i # p then None else node m r q)" if "length q \<le> 3" for q
    unfolding m'_def by (rule node_pd_write [OF assms(1,3,4,5) that])
  have S: "node m r q = Some t" if "length q \<le> 3" "node m' r q = Some t" for q t
    using N [OF that(1)] that(2) by (auto split: if_splits)
  have "tree_ok m' r" unfolding tree_ok_def using S assms(1) by (metis tree_okD)
  moreover have "nodes m' r \<subseteq> nodes m r" unfolding nodes_def using S by blast
  moreover have "huge_aligned m' r"
    unfolding huge_aligned_def
  proof (intro allI impI)
    fix q u j and n :: nat assume q: "length q = 2" "node m' r q = Some u" "present (m' u j)" "huge (m' u j)" "12 \<le> n \<and> n < 21"
    have o: "node m r q = Some u" by (rule S) (use q in simp_all)
    show "\<not> bit (m' u j) n"
    proof (cases "u = pd \<and> j = i")
      case True
      then show ?thesis using assms(6) [OF q(5)] by (simp add: m'_def)
    next
      case False
      then have "m' u j = m u j" by (auto simp: m'_def)
      then show ?thesis using assms(2) o q unfolding huge_aligned_def by metis
    qed
  qed
  ultimately show "tree_ok (set_entry m pd i e) r" "nodes (set_entry m pd i e) r \<subseteq> nodes m r" "huge_aligned (set_entry m pd i e) r"
    by (simp_all add: m'_def)
qed

definition huge_entry :: "nat \<Rightarrow> int \<Rightarrow> u64" where
  "huge_entry phys prot =
     word_of_nat phys OR (PTE_PS OR PTE_PRESENT OR PTE_USER OR (if prot AND PROT_WRITE \<noteq> 0 then PTE_WRITE else 0)
       OR (if prot AND PROT_EXEC = 0 then PTE_NX else 0))"

lemma bit_multiple: "2 ^ k dvd (a :: nat) \<Longrightarrow> bit a n \<Longrightarrow> k \<le> n"
  by (metis bit_push_bit_iff_nat dvd_div_mult_self push_bit_eq_mult)

lemma huge_entry_ok:
  assumes "phys mod HUGE_PAGE_BYTES = 0"
  shows "huge (huge_entry phys prot)" and "12 \<le> n \<and> n < 21 \<Longrightarrow> \<not> bit (huge_entry phys prot) n"
proof -
  have "2 ^ 21 dvd phys" using assms by (simp add: HUGE_PAGE_BYTES_def mod_eq_0_iff_dvd)
  then show "12 \<le> n \<and> n < 21 \<Longrightarrow> \<not> bit (huge_entry phys prot) n"
    using bit_multiple [of 21 phys n] by (auto simp: huge_entry_def bit_or_iff bit_of_nat_iff)
qed (simp add: huge_bit huge_entry_def bit_or_iff)

lemma walk_node:
  assumes "va < USER_TOP"
  shows "walk_step m r va = Leaf_at pt i \<Longrightarrow> node m r (path3 va) = Some pt \<and> i = pt_idx va"
    and "walk_step m r va = Huge_at pd i \<Longrightarrow> node m r (path2 va) = Some pd \<and> i = pd_idx va \<and> present (m pd i) \<and> huge (m pd i)"
    and "node m r (path3 va) = Some pt \<Longrightarrow> walk_step m r va = Leaf_at pt (pt_idx va)"
  using user_pml4_idx [OF assms]
  by (auto simp: walk_step_def Let_def path3_def path2_def split: if_splits option.splits)

lemma prot_flag_bits: "bit (prot_to_pte_flags prot) n \<Longrightarrow> n < 3 \<or> n = 63"
  by (auto simp: prot_to_pte_flags_def bit_or_iff split: if_splits)

lemma huge_prot_entry:
  "huge ((e AND HUGE_PAGE_MASK) OR prot_to_pte_flags prot OR PTE_PS)"
  "12 \<le> n \<and> n < 21 \<Longrightarrow> \<not> bit ((e AND HUGE_PAGE_MASK) OR prot_to_pte_flags prot OR PTE_PS) n"
  using prot_flag_bits [of prot n] by (auto simp: huge_bit bit_or_iff bit_and_iff)

subsection \<open>Where tables come from\<close>

text \<open>The contract of the page source: while the tables \<open>K\<close> are in use it does not hand them out again.\<close>

definition pt_ok :: "(nat set \<Rightarrow> 's \<Rightarrow> bool) \<Rightarrow> nat \<Rightarrow> ptmem \<times> 's \<Rightarrow> bool" where
  "pt_ok safe r x \<longleftrightarrow> tree_ok (fst x) r \<and> huge_aligned (fst x) r \<and> safe (nodes (fst x) r) (snd x)"

definition same_view :: "nat \<Rightarrow> ptmem \<Rightarrow> ptmem \<Rightarrow> bool" where
  "same_view r m m' \<longleftrightarrow>
     (\<forall>va. va < USER_TOP \<longrightarrow> 4096 dvd va \<longrightarrow> xlate (read_pte_pub m' r va) = xlate (read_pte_pub m r va))"

definition page_mapped :: "nat \<Rightarrow> nat \<Rightarrow> u64 \<Rightarrow> ptmem \<Rightarrow> ptmem \<Rightarrow> bool" where
  "page_mapped r va e m m' \<longleftrightarrow>
     read_pte_pub m' r va = e \<and>
     (\<forall>va'. va' < USER_TOP \<longrightarrow> 4096 dvd va' \<longrightarrow> va' div 4096 \<noteq> va div 4096 \<longrightarrow>
        xlate (read_pte_pub m' r va') = xlate (read_pte_pub m r va'))"

lemma same_view_refl [simp]: "same_view r m m"
  and same_view_trans: "same_view r m m1 \<Longrightarrow> same_view r m1 m2 \<Longrightarrow> same_view r m m2"
  by (simp_all add: same_view_def)

locale table_source =
  fixes alloc :: "'s \<Rightarrow> nat option \<times> 's" and safe :: "nat set \<Rightarrow> 's \<Rightarrow> bool"
  assumes alloc_none: "safe K s \<Longrightarrow> alloc s = (None, s') \<Longrightarrow> safe K s'"
    and alloc_some: "safe K s \<Longrightarrow> alloc s = (Some n, s') \<Longrightarrow>
      n \<notin> K \<and> 4096 dvd n \<and> n < 2 ^ 52 \<and> safe (insert n K) s'"
    and safe_mono: "L \<subseteq> K \<Longrightarrow> safe K s \<Longrightarrow> safe L s"
begin

lemma add_table:
  assumes "pt_ok safe r (m, st)" and "length p \<le> 2" and "node m r p = Some t" and "node m r (i # p) = None"
    and "length p < 2 \<Longrightarrow> \<forall>j. \<not> present (f j)" and "p = [] \<Longrightarrow> i < 256" and "alloc st = (Some n, st')"
  defines "m' \<equiv> set_entry (m(n := f)) t i (table_link n)"
  shows "pt_ok safe r (m', st')"
    and "length q \<le> 3 \<Longrightarrow> node m' r q = (if q = i # p then Some n else node m r q)"
    and "va < USER_TOP \<Longrightarrow> read_pte_pub m' r va = (if path3 va = i # p then f (pt_idx va) else read_pte_pub m r va)"
proof -
  have s: "tree_ok m r" "huge_aligned m r" "safe (nodes m r) st" using assms(1) by (simp_all add: pt_ok_def)
  have n: "n \<notin> nodes m r" "4096 dvd n" "n < 2 ^ 52" "safe (insert n (nodes m r)) st'"
    using alloc_some [OF s(3) assms(7)] by simp_all
  note A = s(1) assms(2-4) n(1-3) assms(5,6)
  show "pt_ok safe r (m', st')"
    using tree_add [OF A, folded m'_def] huge_aligned_add [OF s(2) A, folded m'_def] n(4) by (simp add: pt_ok_def)
  show "node m' r q = (if q = i # p then Some n else node m r q)" if "length q \<le> 3"
    unfolding m'_def by (rule node_add [OF A that])
  show "read_pte_pub m' r va = (if path3 va = i # p then f (pt_idx va) else read_pte_pub m r va)" if "va < USER_TOP"
    unfolding m'_def by (rule read_add [OF A that])
qed

lemma get_level:
  assumes "pt_ok safe r x" and "length p \<le> 2" and "node (fst x) r p = Some t" and "p = [] \<Longrightarrow> i < 256"
    and "length p = 2 \<Longrightarrow> \<not> (present (fst x t i) \<and> huge (fst x t i))" and "get_or_alloc_level alloc t i x = (res, x')"
  shows "pt_ok safe r x'" and "va < USER_TOP \<Longrightarrow> read_pte_pub (fst x') r va = read_pte_pub (fst x) r va"
    and "res = Some u \<Longrightarrow> node (fst x') r (i # p) = Some u"
proof -
  obtain m st where x: "x = (m, st)" by force
  have "pt_ok safe r x' \<and> (\<forall>va<USER_TOP. read_pte_pub (fst x') r va = read_pte_pub (fst x) r va) \<and>
    (res = Some u \<longrightarrow> node (fst x') r (i # p) = Some u)"
  proof (cases "present (m t i)")
    case True
    then have "res = Some (table_of (m t i))" "x' = x" using assms(6) by (simp_all add: get_or_alloc_level_def x)
    then show ?thesis using assms True by (auto simp: x)
  next
    case False
    have nn: "node m r (i # p) = None" using False assms(3) by (simp add: x)
    obtain q st1 where q: "alloc st = (q, st1)" by force
    show ?thesis
    proof (cases q)
      case None
      then have "res = None" "x' = (m, st1)" using assms(6) q False by (simp_all add: get_or_alloc_level_def x)
      then show ?thesis using assms(1) alloc_none [of _ st st1] q None by (auto simp: pt_ok_def x)
    next
      case (Some n)
      define m' where "m' = set_entry (m(n := \<lambda>_. 0)) t i (table_link n)"
      have r: "res = Some n" "x' = (m', st1)" using assms(6) q Some False by (simp_all add: get_or_alloc_level_def x m'_def)
      have z: "\<forall>j. \<not> present ((\<lambda>_. 0 :: u64) (j :: nat))" by (simp add: present_def)
      note A = add_table [of r m st p t i "\<lambda>_. 0" n st1, folded m'_def, OF assms(1) [unfolded x] assms(2) _ nn z assms(4)]
      have t: "node m r p = Some t" using assms(3) by (simp add: x)
      have "read_pte_pub m r va = 0" if "path3 va = i # p" "va < USER_TOP" for va
        using read_no_leaf [OF that(2), of m r] False t nn that(1) by (auto simp: path3_def)
      then have "read_pte_pub m' r va = read_pte_pub m r va" if "va < USER_TOP" for va using A(3) [OF t] q Some that by simp
      moreover have "node m' r (i # p) = Some n"
        using A(2) [OF t, of "i # p"] q Some assms(2) by (simp del: node.simps)
      ultimately show ?thesis using A(1) [OF t] q Some r by (simp add: x del: node.simps)
    qed
  qed
  then show "pt_ok safe r x'" "va < USER_TOP \<Longrightarrow> read_pte_pub (fst x') r va = read_pte_pub (fst x) r va"
    "res = Some u \<Longrightarrow> node (fst x') r (i # p) = Some u" by blast+
qed

lemma split_page:
  assumes "pt_ok safe r x" and "length p = 2" and "node (fst x) r p = Some pd"
    and "present (fst x pd i)" and "huge (fst x pd i)"
    and "fill_split alloc pd i (fst x pd i AND HUGE_PHYS_MASK) (split_flags (fst x pd i)) x = (ok, x')"
  shows "pt_ok safe r x'"
    and "va < USER_TOP \<Longrightarrow> 4096 dvd va \<Longrightarrow> xlate (read_pte_pub (fst x') r va) = xlate (read_pte_pub (fst x) r va)"
    and "ok \<Longrightarrow> node (fst x') r p = Some pd \<and> \<not> (present (fst x' pd i) \<and> huge (fst x' pd i))"
proof -
  obtain m st where x: "x = (m, st)" by force
  have t: "node m r p = Some pd" using assms(3) by (simp add: x)
  have nn: "node m r (i # p) = None" using assms(2,5) t by (simp add: x)
  have ne: "p \<noteq> []" using assms(2) by auto
  define e where "e = m pd i"
  define f where "f = (\<lambda>j :: nat. if j < 512 then ((e AND HUGE_PHYS_MASK) + word_of_nat j * 4096) OR split_flags e else 0)"
  obtain q st1 where q: "alloc st = (q, st1)" by force
  have "pt_ok safe r x' \<and>
    (\<forall>va. va < USER_TOP \<longrightarrow> 4096 dvd va \<longrightarrow> xlate (read_pte_pub (fst x') r va) = xlate (read_pte_pub (fst x) r va)) \<and>
    (ok \<longrightarrow> node (fst x') r p = Some pd \<and> \<not> (present (fst x' pd i) \<and> huge (fst x' pd i)))"
  proof (cases q)
    case None
    then have "\<not> ok" "x' = (m, st1)" using assms(6) q by (simp_all add: fill_split_def x)
    then show ?thesis using assms(1) alloc_none [of _ st st1] q None by (auto simp: pt_ok_def x)
  next
    case (Some n)
    define m' where "m' = set_entry (m(n := f)) pd i (table_link n)"
    have r: "x' = (m', st1)"
      using assms(6) unfolding fill_split_def x fst_conv m'_def f_def e_def by (simp add: q Some)
    have "n < 2 ^ 52" "4096 dvd n" using alloc_some [of "nodes m r" st n st1] assms(1) q Some by (auto simp: pt_ok_def x)
    note flags = table_link_flags [OF this(2,1)]
    note A = add_table [of r m st p pd i f n st1, folded m'_def, OF assms(1) [unfolded x] _ t nn]
    have off: "\<not> bit e k" if "12 \<le> k \<and> k < 21" for k
      using assms(1,2,4,5) t that unfolding pt_ok_def huge_aligned_def x e_def fst_conv by blast
    have "xlate (read_pte_pub m' r va) = xlate (read_pte_pub m r va)" if va: "va < USER_TOP" "4096 dvd va" for va
    proof (cases "path3 va = i # p")
      case True
      have "read_pte_pub m r va = huge_read e va"
        using read_no_leaf [OF va(1), of m r] True t nn assms(4,5) by (auto simp: path3_def x e_def)
      moreover have "read_pte_pub m' r va = f (pt_idx va)" using A(3) [of va] assms(2) True va q Some ne by simp
      moreover have "pt_idx va < 512" by (simp add: pt_idx_def)
      ultimately show ?thesis using split_entry [OF off va(2)] by (simp add: f_def)
    next
      case False
      then show ?thesis using A(3) [of va] assms(2) va q Some ne by simp
    qed
    moreover have "node m' r p = Some pd" using A(2) [of p] assms(2) t q Some ne by simp
    moreover have "m' pd i = table_link n" by (simp add: m'_def)
    ultimately show ?thesis using A(1) assms(2) q Some r flags ne by (simp add: x)
  qed
  then show "pt_ok safe r x'"
    "va < USER_TOP \<Longrightarrow> 4096 dvd va \<Longrightarrow> xlate (read_pte_pub (fst x') r va) = xlate (read_pte_pub (fst x) r va)"
    "ok \<Longrightarrow> node (fst x') r p = Some pd \<and> \<not> (present (fst x' pd i) \<and> huge (fst x' pd i))" by blast+
qed

lemma level_step:
  assumes "pt_ok safe r y \<and> same_view r m (fst y)" and "length p \<le> 2" and "node (fst y) r p = Some t" and "p = [] \<Longrightarrow> i < 256"
    and "length p = 2 \<Longrightarrow> \<not> (present (fst y t i) \<and> huge (fst y t i))" and "get_or_alloc_level alloc t i y = (res, y')"
  shows "pt_ok safe r y' \<and> same_view r m (fst y')" and "res = Some u \<Longrightarrow> node (fst y') r (i # p) = Some u"
proof -
  have y: "pt_ok safe r y" "same_view r m (fst y)" using assms(1) by simp_all
  note G = get_level [OF y(1) assms(2-6)]
  show "pt_ok safe r y' \<and> same_view r m (fst y')" using G(1,2) y(2) by (simp add: same_view_def)
  show "res = Some u \<Longrightarrow> node (fst y') r (i # p) = Some u" by (rule G(3))
qed

lemma leaf_table:
  assumes "pt_ok safe r x" and "va < USER_TOP" and "node (fst x) r (path2 va) = Some pd"
    and "(if present (fst x pd (pd_idx va)) \<and> huge (fst x pd (pd_idx va))
          then fill_split alloc pd (pd_idx va) (fst x pd (pd_idx va) AND HUGE_PHYS_MASK) (split_flags (fst x pd (pd_idx va))) x
          else (True, x)) = (ok, x1)"
  shows "pt_ok safe r x1 \<and> same_view r (fst x) (fst x1)"
    and "ok \<Longrightarrow> node (fst x1) r (path2 va) = Some pd"
    and "ok \<Longrightarrow> \<not> (present (fst x1 pd (pd_idx va)) \<and> huge (fst x1 pd (pd_idx va)))"
proof -
  have "pt_ok safe r x1 \<and> same_view r (fst x) (fst x1) \<and>
    (ok \<longrightarrow> node (fst x1) r (path2 va) = Some pd \<and> \<not> (present (fst x1 pd (pd_idx va)) \<and> huge (fst x1 pd (pd_idx va))))"
  proof (cases "present (fst x pd (pd_idx va)) \<and> huge (fst x pd (pd_idx va))")
    case True
    note S = split_page [OF assms(1) path_length(1) assms(3) conjunct1 [OF True] conjunct2 [OF True] assms(4) [unfolded if_P [OF True]]]
    show ?thesis using S by (simp add: same_view_def)
  next
    case False
    then have "ok" "x1 = x" using assms(4) by (simp_all add: if_not_P [OF False])
    then show ?thesis using False assms(1,3) by (simp add: same_view_def)
  qed
  then show "pt_ok safe r x1 \<and> same_view r (fst x) (fst x1)" "ok \<Longrightarrow> node (fst x1) r (path2 va) = Some pd"
    "ok \<Longrightarrow> \<not> (present (fst x1 pd (pd_idx va)) \<and> huge (fst x1 pd (pd_idx va)))" by blast+
qed

lemma leaf_entry:
  assumes "pt_ok safe r y" and "same_view r m (fst y)" and "node (fst y) r (path3 va) = Some pt" and "va < USER_TOP"
  shows "pt_ok safe r (set_entry (fst y) pt (pt_idx va) e, snd y) \<and>
    page_mapped r va e m (set_entry (fst y) pt (pt_idx va) e)"
proof -
  have t: "tree_ok (fst y) r" "huge_aligned (fst y) r" "safe (nodes (fst y) r) (snd y)" using assms(1) by (simp_all add: pt_ok_def)
  note W = leaf_write [OF t(1) assms(3,4), where e = e]
  have "huge_aligned (set_entry (fst y) pt (pt_idx va) e) r"
  proof (rule huge_aligned_cong [OF t(2)])
    fix q pd i assume q: "length q = 2" "node (set_entry (fst y) pt (pt_idx va) e) r q = Some pd"
    then have n: "node (fst y) r q = Some pd" using node_leaf_write [OF t(1) path_length(2) assms(3), of q] by simp
    then have "pd \<noteq> pt" using tree_okD [OF t(1) _ _ n, of "path3 va"] assms(3) q(1) path_length(2) [of va] by auto
    then show "node (fst y) r q = Some pd \<and> set_entry (fst y) pt (pt_idx va) e pd i = fst y pd i" using n by simp
  qed
  then show ?thesis using W assms(2) t(3) by (simp add: pt_ok_def page_mapped_def same_view_def)
qed

lemma map_in_pd_ok:
  assumes "pt_ok safe r x" and "same_view r m (fst x)" and "va < USER_TOP" and "node (fst x) r (path2 va) = Some pd"
    and "map_in_pd alloc pd va phys prot x = (ok, x')"
  shows "pt_ok safe r x' \<and>
    (if ok then page_mapped r va (word_of_nat phys OR prot_to_pte prot) m (fst x') else same_view r m (fst x'))"
proof -
  obtain ok3 x3 where 3: "(if present (fst x pd (pd_idx va)) \<and> huge (fst x pd (pd_idx va))
      then fill_split alloc pd (pd_idx va) (fst x pd (pd_idx va) AND HUGE_PHYS_MASK) (split_flags (fst x pd (pd_idx va))) x
      else (True, x)) = (ok3, x3)" by (rule prod.exhaust)
  note L = leaf_table [OF assms(1,3,4) 3]
  have x3: "pt_ok safe r x3 \<and> same_view r m (fst x3)" using L(1) same_view_trans [OF assms(2)] by blast
  have eq: "map_in_pd alloc pd va phys prot x =
     (if \<not> ok3 then (False, x3)
      else (case get_or_alloc_level alloc pd (pd_idx va) x3 of
              (None, x4) \<Rightarrow> (False, x4)
            | (Some pt, (m4, st4)) \<Rightarrow> (True, set_entry m4 pt (pt_idx va) (word_of_nat phys OR prot_to_pte prot), st4)))"
    unfolding map_in_pd_def Let_def 3 prod.case ..
  show ?thesis
  proof (cases ok3)
    case False
    then show ?thesis using assms(5) eq x3 by simp
  next
    case True
    obtain r4 x4 where 4: "get_or_alloc_level alloc pd (pd_idx va) x3 = (r4, x4)" by (rule prod.exhaust)
    have L4: "pt_ok safe r x4 \<and> same_view r m (fst x4)" "r4 = Some u \<Longrightarrow> node (fst x4) r (path3 va) = Some u" for u
      using level_step [OF x3 _ L(2) [OF True] _ _ 4] L(3) [OF True] unfolding path3_def by simp_all
    show ?thesis
    proof (cases r4)
      case None
      then show ?thesis using assms(5) eq 4 True L4(1) by simp
    next
      case (Some pt)
      note E = leaf_entry [OF conjunct1 [OF L4(1)] conjunct2 [OF L4(1)] L4(2) [OF Some] assms(3)]
      have "ok" "x' = (set_entry (fst x4) pt (pt_idx va) (word_of_nat phys OR prot_to_pte prot), snd x4)"
        using assms(5) eq 4 True Some by (simp_all split: prod.splits)
      then show ?thesis using E by simp
    qed
  qed
qed

lemma map_page:
  assumes "pt_ok safe r x" and "map_user_page alloc r va phys prot x = (ok, x')"
  shows "pt_ok safe r x' \<and>
    (if ok then va < USER_TOP \<and> page_mapped r va (word_of_nat phys OR prot_to_pte prot) (fst x) (fst x')
     else same_view r (fst x) (fst x'))"
proof (cases "USER_TOP \<le> va")
  case True
  then show ?thesis using assms by (simp add: map_user_page_def)
next
  case False
  then have va: "va < USER_TOP" by simp
  obtain r1 x1 where 1: "get_or_alloc_level alloc r (pml4_idx va) x = (r1, x1)" by (rule prod.exhaust)
  have x: "pt_ok safe r x \<and> same_view r (fst x) (fst x)" using assms(1) by simp
  note L1 = level_step [OF x _ _ user_pml4_idx [OF va] _ 1, of "[]", simplified]
  show ?thesis
  proof (cases r1)
    case None
    then show ?thesis using L1(1) assms(2) va 1 by (simp add: map_user_page_def)
  next
    case (Some pdpt)
    obtain r2 x2 where 2: "get_or_alloc_level alloc pdpt (pdpt_idx va) x1 = (r2, x2)" by (rule prod.exhaust)
    have n1: "node (fst x1) r [pml4_idx va] = Some pdpt" using L1(2) Some by simp
    note L2 = level_step [OF L1(1) _ n1 _ _ 2, simplified]
    show ?thesis
    proof (cases r2)
      case None
      then show ?thesis using L2(1) assms(2) va 1 2 Some by (simp add: map_user_page_def)
    next
      case pd: (Some pd)
      have n2: "node (fst x2) r (path2 va) = Some pd" using L2(2) [OF pd] by (simp add: path2_def)
      have "map_user_page alloc r va phys prot x = map_in_pd alloc pd va phys prot x2"
        using va 1 2 Some pd by (simp add: map_user_page_def)
      then show ?thesis using map_in_pd_ok [OF conjunct1 [OF L2(1)] conjunct2 [OF L2(1)] va n2] assms(2) va by metis
    qed
  qed
qed

lemma write_pd:
  assumes "pt_ok safe r x" and "length p = 2" and "node (fst x) r p = Some pd" and "\<not> present e \<or> huge e"
    and "\<And>n. 12 \<le> n \<and> n < 21 \<Longrightarrow> \<not> bit e n"
  shows "pt_ok safe r (set_entry (fst x) pd i e, snd x)"
  using pd_write [OF _ _ assms(2-5), of i] assms(1) safe_mono by (auto simp: pt_ok_def)

lemma write_pt:
  assumes "pt_ok safe r x" and "node (fst x) r (path3 va) = Some pt" and "va < USER_TOP"
  shows "pt_ok safe r (set_entry (fst x) pt (pt_idx va) e, snd x)"
  using leaf_entry [OF assms(1) same_view_refl assms(2,3)] by blast

lemma create_root:
  assumes "safe {} st" and "create_user_pml4 alloc k (m, st) = (Some t, x')"
  shows "pt_ok safe t x'" and "va < USER_TOP \<Longrightarrow> read_pte_pub (fst x') t va = 0"
proof -
  obtain st' where a: "alloc st = (Some t, st')" and x': "x' = (m(t := \<lambda>i. if 256 \<le> i \<and> i < 512 then m k i else 0), st')"
    using assms(2) by (auto simp: create_user_pml4_def split: prod.splits option.splits)
  have e: "node (fst x') t (p @ [i]) = None" for p i
    by (induction p) (auto simp: x' present_def)
  have n: "node (fst x') t p = (if p = [] then Some t else None)" for p
    using e [of "butlast p" "last p"] by (cases "p = []") simp_all
  then have "tree_ok (fst x') t" "huge_aligned (fst x') t" "nodes (fst x') t = {t}"
    by (auto simp: tree_ok_def huge_aligned_def nodes_def split: if_splits)
  then show "pt_ok safe t x'" using alloc_some [OF assms(1) a] by (simp add: pt_ok_def x')
  show "read_pte_pub (fst x') t va = 0" if "va < USER_TOP" using n by (simp add: read_node [OF that])
qed

lemma map_huge:
  assumes "pt_ok safe r x" and "map_user_huge_page alloc r va phys prot x = (ok, x')"
  shows "pt_ok safe r x'"
proof (cases "USER_TOP \<le> va \<or> va mod HUGE_PAGE_BYTES \<noteq> 0 \<or> phys mod HUGE_PAGE_BYTES \<noteq> 0")
  case True
  then show ?thesis using assms by (simp add: map_user_huge_page_def)
next
  case False
  then have va: "va < USER_TOP" and ph: "phys mod HUGE_PAGE_BYTES = 0" by simp_all
  obtain r1 x1 where 1: "get_or_alloc_level alloc r (pml4_idx va) x = (r1, x1)" by (rule prod.exhaust)
  have x: "pt_ok safe r x \<and> same_view r (fst x) (fst x)" using assms(1) by simp
  note L1 = level_step [OF x _ _ user_pml4_idx [OF va] _ 1, of "[]", simplified]
  show ?thesis
  proof (cases r1)
    case None
    then show ?thesis using L1(1) assms(2) False 1 by (simp add: map_user_huge_page_def)
  next
    case (Some pdpt)
    obtain r2 x2 where 2: "get_or_alloc_level alloc pdpt (pdpt_idx va) x1 = (r2, x2)" by (rule prod.exhaust)
    have n1: "node (fst x1) r [pml4_idx va] = Some pdpt" using L1(2) Some by simp
    note L2 = level_step [OF L1(1) _ n1 _ _ 2, simplified]
    show ?thesis
    proof (cases r2)
      case None
      then show ?thesis using L2(1) assms(2) False 1 2 Some by (simp add: map_user_huge_page_def)
    next
      case pd: (Some pd)
      have n2: "node (fst x2) r (path2 va) = Some pd" using L2(2) [OF pd] by (simp add: path2_def)
      obtain e where e: "x' = (set_entry (fst x2) pd (pd_idx va) e, snd x2)" "e = huge_entry phys prot"
        using assms(2) False 1 2 Some pd by (auto simp: map_user_huge_page_def huge_entry_def Let_def split: prod.splits)
      show ?thesis unfolding e(1)
        by (rule write_pd [OF conjunct1 [OF L2(1)] path_length(1) n2]) (use huge_entry_ok [OF ph] e(2) in auto)
    qed
  qed
qed

lemma split_pd:
  assumes "pt_ok safe r x" and "va < USER_TOP" and "walk_step (fst x) r va = Huge_at pd i"
    and "split_huge_pmd alloc pd i ov x = (ok, x')"
  shows "pt_ok safe r x'" and "ok \<Longrightarrow> node (fst x') r (path3 va) = Some (table_of (fst x' pd i))"
proof -
  obtain m st where x: "x = (m, st)" by force
  have w: "node m r (path2 va) = Some pd" "i = pd_idx va" "present (m pd i)" "huge (m pd i)"
    using walk_node(2) [OF assms(2,3)] unfolding x fst_conv by blast+
  have nn: "node m r (pd_idx va # path2 va) = None" using w by simp
  define base flags where "base = m pd i AND HUGE_PAGE_MASK" and "flags = (if ov = 0 then split_flags (m pd i) else ov)"
  have f: "fill_split alloc pd i base flags (m, st) = (ok, x')"
    using assms(4) w(3,4) unfolding split_huge_pmd_def x fst_conv Let_def base_def flags_def by simp
  obtain q st1 where q: "alloc st = (q, st1)" by (rule prod.exhaust)
  have "pt_ok safe r x' \<and> (ok \<longrightarrow> node (fst x') r (path3 va) = Some (table_of (fst x' pd i)))"
  proof (cases q)
    case None
    then show ?thesis using assms(1) alloc_none [of _ st st1] f q by (auto simp: pt_ok_def x fill_split_def)
  next
    case (Some n)
    define f where "f = (\<lambda>j :: nat. if j < 512 then (base + word_of_nat j * 4096) OR flags else 0)"
    define m' where "m' = set_entry (m(n := f)) pd (pd_idx va) (table_link n)"
    have r: "x' = (m', st1)" using f unfolding fill_split_def m'_def f_def by (simp add: q Some w(2))
    have n: "4096 dvd n" "n < 2 ^ 52" using alloc_some [of "nodes m r" st n st1] assms(1) q Some by (auto simp: pt_ok_def x)
    note A = add_table [OF assms(1) [unfolded x] _ w(1) nn, where f = f and n = n and st' = st1, folded m'_def]
    have "pt_ok safe r (m', st1)" by (rule A(1)) (simp_all add: q Some)
    moreover have "node m' r (path3 va) = Some n" unfolding path3_def
      by (subst A(2)) (simp_all add: q Some del: node.simps)
    moreover have "m' pd i = table_link n" by (simp add: m'_def w(2))
    ultimately show ?thesis using r table_link_table [OF n] by simp
  qed
  then show "pt_ok safe r x'" "ok \<Longrightarrow> node (fst x') r (path3 va) = Some (table_of (fst x' pd i))" by blast+
qed

lemma protect_leaf:
  assumes "pt_ok safe r x" and "va < USER_TOP" and "node (fst x) r (path3 va) = Some pt"
  shows "pt_ok safe r (prot_leaf flags pt (pt_idx va) (fst x), snd x)"
  using assms(1) write_pt [OF assms(1,3,2)] by (simp add: prot_leaf_def Let_def)

lemma protect_range:
  assumes "pt_ok safe r x" and "end' \<le> USER_TOP"
  shows "pt_ok safe r (update_pte_prot alloc r start end' prot va x)"
  using assms(1)
proof (induction "end' - va" arbitrary: va x rule: less_induct)
  case less
  show ?case
  proof (cases "end' \<le> va")
    case True
    then show ?thesis using less.prems by (subst update_pte_prot.simps) simp
  next
    case False
    then have va: "va < USER_TOP" using assms(2) by simp
    define base where "base = va div 2 ^ 21 * 2 ^ 21"
    have next': "pt_ok safe r (update_pte_prot alloc r start end' prot va' y)" if "va < va'" "pt_ok safe r y" for va' y
      by (rule less.hyps) (use that False in auto)
    have b: "va < base + 0x200000" unfolding base_def by (rule huge_base_gt)
    show ?thesis
    proof (cases "walk_step (fst x) r va")
      case (Skip n)
      then show ?thesis using next' [OF walk_skip [OF Skip] less.prems] False by (subst update_pte_prot.simps) simp
    next
      case (Leaf_at pt i)
      then have "pt_ok safe r (prot_leaf (prot_to_pte_flags prot) pt i (fst x), snd x)"
        using walk_node(1) [OF va Leaf_at] protect_leaf [OF less.prems va] by blast
      then show ?thesis using next' [of "va + 4096"] Leaf_at False by (subst update_pte_prot.simps) (simp add: Let_def)
    next
      case (Huge_at pd i)
      note W = walk_node(2) [OF va Huge_at]
      have full: "pt_ok safe r (set_entry (fst x) pd i ((fst x pd i AND HUGE_PAGE_MASK) OR prot_to_pte_flags prot OR PTE_PS), snd x)"
        by (rule write_pd [OF less.prems path_length(1)]) (use W huge_prot_entry in blast)+
      obtain ok y where y: "split_huge_pmd alloc pd i 0 x = (ok, y)" by (rule prod.exhaust)
      note S = split_pd [OF less.prems va Huge_at y]
      have leaf: "pt_ok safe r (prot_leaf (prot_to_pte_flags prot) (table_of (fst y pd i)) (pt_idx va) (fst y), snd y)" if ok
        by (rule protect_leaf [OF S(1) va S(2) [OF that]])
      show ?thesis
        using next' [OF b full] next' [OF b S(1)] next' [OF _ leaf, of "va + 4096"] Huge_at False y
        by (subst update_pte_prot.simps) (auto simp: Let_def base_def split: bool.splits)
    qed
  qed
qed

end

end
