(* ===== verification/Page_Table_Props.thy ===== *)
theory Page_Table_Props
  imports Page_Table_Inv
begin

unbundle bit_operations_syntax

section \<open>Properties of the page tables\<close>

text \<open>
  The page allocator provides the tables, and the theorems below join the table walks with it: mapping a page
  touches that page only, changing the protection forgets that a page is shared, and unmapping a huge page
  that is not executable does not give its memory back.
\<close>

definition tables_held :: "nat set \<Rightarrow> buddy \<Rightarrow> bool" where
  "tables_held K s \<longleftrightarrow> held (pfn_of ` K) s \<and> (\<forall>a\<in>K. 4096 dvd a) \<and> max_pfn s \<le> 2 ^ 40"

lemma idle_alloc_held:
  assumes "tables_held K s" and "page_alloc idle_hooks None s = (q, s')"
  shows "tables_held K s'" and "q = Some n \<Longrightarrow> n \<notin> K \<and> 4096 dvd n \<and> n < 2 ^ 52 \<and> tables_held (insert n K) s'"
proof -
  have h: "held (pfn_of ` K) s" "\<forall>a\<in>K. 4096 dvd a" "max_pfn s \<le> 2 ^ 40" using assms(1) by (simp_all add: tables_held_def)
  note A = page_alloc_ok [OF idle_hooks_respect h(1) assms(2), of n]
  have s': "held (pfn_of ` K) s'" "max_pfn s' = max_pfn s" using A h(1) by (auto simp: keeps_def)
  then show "tables_held K s'" using h by (simp add: tables_held_def)
  assume "q = Some n"
  then have nb: "new_block (pfn_of ` K) 0 n s'" using A by (simp add: fresh_block_def)
  have blk: "blk_pages 0 n = {pfn_of n}" by (auto simp: blk_pages_def)
  have n: "4096 dvd n" "pfn_of n \<notin> pfn_of ` K" "held (insert (pfn_of n) (pfn_of ` K)) s'"
    using nb blk dvd_page by (auto simp: new_block_def)
  have "pfn_of n < 2 ^ 40" using new_block_below [OF nb, of "pfn_of n"] blk s' h(3) by simp
  then have "n < 2 ^ 52" by (simp add: pfn_of_div div_less_iff_less_mult)
  then show "n \<notin> K \<and> 4096 dvd n \<and> n < 2 ^ 52 \<and> tables_held (insert n K) s'"
    using n s' h by (auto simp: tables_held_def)
qed

interpretation buddy_tables: table_source "page_alloc idle_hooks None" tables_held
proof (unfold_locales, goal_cases)
  case (1 K s s')
  then show ?case by (rule idle_alloc_held(1))
next
  case (2 K s n s')
  then show ?case using idle_alloc_held(2) [of K s "Some n" s' n] by simp
next
  case (3 L K s)
  then show ?case using held_subset [of "pfn_of ` K" s "pfn_of ` L"] by (auto simp: tables_held_def)
qed

subsection \<open>Every change keeps the tables a tree\<close>

text \<open>The calls that change page tables, as requests. Range checks of the system calls keep a change of protection
  below the user ceiling.\<close>

datatype pt_op = Map nat nat int | Map_huge nat nat int | Or_bits nat u64 | Protect nat nat int

fun pt_run :: "nat \<Rightarrow> pt_op \<Rightarrow> ptmem \<times> buddy \<Rightarrow> ptmem \<times> buddy" where
  "pt_run r (Map va phys prot) x = snd (map_user_page (page_alloc idle_hooks None) r va phys prot x)"
| "pt_run r (Map_huge va phys prot) x = snd (map_user_huge_page (page_alloc idle_hooks None) r va phys prot x)"
| "pt_run r (Or_bits va bits) x = (pte_or_inplace r va bits (fst x), snd x)"
| "pt_run r (Protect start end' prot) x = update_pte_prot (page_alloc idle_hooks None) r start (min end' USER_TOP) prot start x"

lemma or_bits_write:
  "pte_or_inplace r va bits m = m \<or>
   va < USER_TOP \<and> (\<exists>pt. node m r (path3 va) = Some pt \<and> pte_or_inplace r va bits m = set_entry m pt (pt_idx va) (m pt (pt_idx va) OR bits))"
proof (cases "USER_TOP \<le> va")
  case False
  then have "pml4_idx va < 256" by (simp add: user_pml4_idx)
  then show ?thesis using False
    by (auto simp: pte_or_inplace_def path3_def path2_def Let_def simp del: fun_upd_apply)
qed (simp add: pte_or_inplace_def)

lemma run_ok: "pt_ok tables_held r x \<Longrightarrow> pt_ok tables_held r (pt_run r op x)"
proof (induction op)
  case (Map va phys prot)
  obtain ok x' where "map_user_page (page_alloc idle_hooks None) r va phys prot x = (ok, x')" by (rule prod.exhaust)
  then show ?case using buddy_tables.map_page [OF Map] by simp
next
  case (Map_huge va phys prot)
  obtain ok x' where "map_user_huge_page (page_alloc idle_hooks None) r va phys prot x = (ok, x')" by (rule prod.exhaust)
  then show ?case using buddy_tables.map_huge [OF Map_huge] by simp
next
  case (Or_bits va bits)
  then show ?case using or_bits_write [of r va bits "fst x"] buddy_tables.write_pt [OF Or_bits] by (auto simp del: fun_upd_apply)
next
  case (Protect start end' prot)
  then show ?case using buddy_tables.protect_range [OF Protect] by simp
qed

lemma runs_ok: "pt_ok tables_held r x \<Longrightarrow> pt_ok tables_held r (fold (pt_run r) ops x)"
  by (induction ops arbitrary: x) (simp_all add: run_ok)

text \<open>A page allocator with free memory, and the address space created from it.\<close>

lemma counted_tables: "tables_held {} counted_buddy"
  using counted_buddy_ok by (simp add: tables_held_def held_def counted_def) (simp add: counted_buddy_def small_buddy_def)

definition new_space :: "nat option \<times> ptmem \<times> buddy" where
  "new_space = create_user_pml4 (page_alloc idle_hooks None) 0x1000 (\<lambda>_ _. 0, counted_buddy)"

lemma counted_page: "fst (page_alloc idle_hooks None counted_buddy) \<noteq> None"
proof -
  have "free_lists counted_buddy ! 2 = [0x4000]" by (simp add: counted_buddy_def small_buddy_def)
  then have "fst (buddy_alloc_order counted_buddy 0) \<noteq> None"
    using buddy_alloc_order_None(2) [of counted_buddy 0 _ 2] by (auto simp: MAX_ORDER_def prod_eq_iff)
  then show ?thesis by (auto simp: idle_page_alloc split: prod.splits option.splits)
qed

lemma new_space_eq: "create_user_pml4 (page_alloc idle_hooks None) 0x1000 (\<lambda>_ _. 0, counted_buddy) = (Some (the (fst new_space)), snd new_space)"
  using counted_page by (auto simp: new_space_def create_user_pml4_def split: prod.splits option.splits)

lemma new_space_ok: "pt_ok tables_held (the (fst new_space)) (snd new_space)"
  by (rule buddy_tables.create_root(1) [OF counted_tables new_space_eq])

text \<open>C26: From the creation of an address space on, no sequence of mappings, huge mappings, marks on entries and
  changes of protection, whether they succeed or run out of memory half-way, makes two ways through the page
  tables meet in one table or lets the allocator hand out a table in use, and every huge page stays aligned.\<close>

theorem page_tables_stay_a_tree:
  assumes "tables_held {} st" and "create_user_pml4 (page_alloc idle_hooks None) k (m, st) = (Some t, x)"
  shows "pt_ok tables_held t (fold (pt_run t) ops x)"
  by (rule runs_ok) (rule buddy_tables.create_root(1) [OF assms])

theorem page_tables_stay_a_tree_witness:
  "pt_ok tables_held (the (fst new_space))
     (fold (pt_run (the (fst new_space))) [Map 0x400000 0x5000 3, Protect 0x400000 0x401000 1, Or_bits 0x400000 0x200] (snd new_space))"
  by (rule page_tables_stay_a_tree [OF counted_tables new_space_eq])

text \<open>C27: Mapping a page makes exactly that page readable as asked, and leaves the frame and the access of every
  other user page alone, also when it allocates tables or splits a huge page on the way; when it fails, no page
  changes.\<close>

theorem map_user_page_exact:
  assumes "pt_ok tables_held r x"
  shows "let (ok, x') = map_user_page (page_alloc idle_hooks None) r va phys prot x in
    pt_ok tables_held r x' \<and>
    (if ok then va < USER_TOP \<and> page_mapped r va (word_of_nat phys OR prot_to_pte prot) (fst x) (fst x')
     else same_view r (fst x) (fst x'))"
proof -
  obtain ok x' where "map_user_page (page_alloc idle_hooks None) r va phys prot x = (ok, x')" by (rule prod.exhaust)
  then show ?thesis using buddy_tables.map_page [OF assms] by simp
qed

theorem map_user_page_exact_witness:
  "let (ok, x') = map_user_page (page_alloc idle_hooks None) (the (fst new_space)) 0x400000 0x5000 3 (snd new_space) in
    pt_ok tables_held (the (fst new_space)) x' \<and>
    (if ok then 0x400000 < USER_TOP \<and>
       page_mapped (the (fst new_space)) 0x400000 (word_of_nat 0x5000 OR prot_to_pte 3) (fst (snd new_space)) (fst x')
     else same_view (the (fst new_space)) (fst (snd new_space)) (fst x'))"
  by (rule map_user_page_exact [OF new_space_ok])

text \<open>A small address space in the frames 0 to 3: one shared page at address 0x1000 and one huge page at 0x200000.\<close>

definition small_tables :: ptmem where
  "small_tables t i =
     (if t = 0 \<and> i = 0 then table_link 0x1000
      else if t = 0x1000 \<and> i = 0 then table_link 0x2000
      else if t = 0x2000 \<and> i = 0 then table_link 0x3000
      else if t = 0x2000 \<and> i = 1 then 0x8000000000600087
      else if t = 0x3000 \<and> i = 1 then 0x7205
      else 0)"

lemma small_links [simp]:
  "present (table_link 0x1000)" "present (table_link 0x2000)" "present (table_link 0x3000)"
  "table_of (table_link 0x1000) = 0x1000" "table_of (table_link 0x2000) = 0x2000" "table_of (table_link 0x3000) = 0x3000"
  "\<not> huge (table_link 0x3000)" "\<not> present 0" "present 0x8000000000600087" "huge 0x8000000000600087"
  using table_link_flags [of "0x1000"] table_link_flags [of "0x2000"] table_link_flags [of "0x3000"]
    table_link_table [of "0x1000"] table_link_table [of "0x2000"] table_link_table [of "0x3000"]
  by (simp_all add: present_def huge_def PTE_PRESENT_def PTE_PS_def)

lemma small_entry:
  assumes "k < 3" and "present (small_tables (k * 4096) i)" and "\<not> (k = 2 \<and> huge (small_tables (k * 4096) i))"
  shows "i = 0 \<and> table_of (small_tables (k * 4096) i) = (k + 1) * 4096"
proof -
  have "k = 0 \<or> k = 1 \<or> k = 2" using assms(1) by linarith
  then show ?thesis using assms(2,3) by (auto simp: small_tables_def split: if_splits)
qed

lemma small_nodes: "length p \<le> 3 \<Longrightarrow> node small_tables 0 p = Some t \<Longrightarrow> p = replicate (length p) 0 \<and> t = length p * 4096"
proof (induction p arbitrary: t)
  case (Cons i p)
  then obtain u where u: "node small_tables 0 p = Some u" by (auto split: option.splits)
  then have p: "p = replicate (length p) 0" "u = length p * 4096" using Cons.IH Cons.prems(1) by simp_all
  have "present (small_tables u i)" "\<not> (length p = 2 \<and> huge (small_tables u i))" "t = table_of (small_tables u i)"
    using Cons.prems(2) u by (auto split: if_splits)
  then have "i = 0" "t = (length p + 1) * 4096" using small_entry [of "length p" i] Cons.prems(1) p(2) by auto
  then show ?case using p(1) by simp
qed simp

lemma small_space_ok: "pt_ok tables_held 0 (small_tables, counted_buddy)"
proof -
  have "tree_ok small_tables 0"
    unfolding tree_ok_def
  proof (intro allI impI)
    fix p q t assume "length p \<le> 3" "length q \<le> 3" "node small_tables 0 p = Some t" "node small_tables 0 q = Some t"
    then show "p = q" using small_nodes [of p t] small_nodes [of q t] by (metis mult_cancel2 zero_neq_numeral)
  qed
  moreover have "huge_aligned small_tables 0"
    unfolding huge_aligned_def
  proof (intro allI impI)
    fix p t i and n :: nat assume a: "length p = 2" "node small_tables 0 p = Some t" "present (small_tables t i)" "huge (small_tables t i)" "12 \<le> n \<and> n < 21"
    have "t = 0x2000" using small_nodes [of p t] a by simp
    then have "small_tables t i = 0x8000000000600087" using a(3,4) by (auto simp: small_tables_def split: if_splits)
    moreover have "n \<in> {12, 13, 14, 15, 16, 17, 18, 19, 20}" using a(5) by auto
    ultimately show "\<not> bit (small_tables t i) n" by (auto simp: bit_numeral_simps)
  qed
  moreover have "nodes small_tables 0 \<subseteq> {0, 0x1000, 0x2000, 0x3000}"
  proof
    fix t assume "t \<in> nodes small_tables 0"
    then obtain p where "length p \<le> 3" "node small_tables 0 p = Some t" by (auto simp: nodes_def)
    then show "t \<in> {0, 0x1000, 0x2000, 0x3000}" using small_nodes [of p t] by (auto simp: le_Suc_eq numeral_3_eq_3)
  qed
  moreover have "tables_held {0, 0x1000, 0x2000, 0x3000} counted_buddy"
    using counted_buddy_ok small_free_pages
    by (auto simp: tables_held_def held_def counted_def pfn_of_div counted_buddy_def) (auto simp: small_buddy_def)
  ultimately show ?thesis using buddy_tables.safe_mono by (simp add: pt_ok_def)
qed

subsection \<open>Protection of shared pages, and huge pages that are not executable\<close>

lemma protect_one:
  assumes "walk_step (fst x) r va = Leaf_at pt i" and "fst x pt i AND PTE_ADDR_MASK \<noteq> 0"
  shows "update_pte_prot alloc r va (va + 4096) prot va x =
    (set_entry (fst x) pt i ((fst x pt i AND PTE_ADDR_MASK) OR prot_to_pte_flags prot), snd x)"
proof -
  have "update_pte_prot alloc r va (va + 4096) prot (va + 4096) y = y" for y by (subst update_pte_prot.simps) simp
  then show ?thesis using assms by (subst update_pte_prot.simps) (simp add: prot_leaf_def Let_def)
qed

lemma protected_entry:
  fixes e :: u64
  assumes "prot AND PROT_WRITE \<noteq> 0"
  defines "e' \<equiv> (e AND PTE_ADDR_MASK) OR prot_to_pte_flags prot"
  shows "e' AND PTE_ADDR_MASK = e AND PTE_ADDR_MASK" and "e' AND PTE_COW = 0" and "e' AND PTE_WRITE \<noteq> 0"
proof -
  show "e' AND PTE_ADDR_MASK = e AND PTE_ADDR_MASK"
    using prot_flag_bits by (intro bit_word_eqI) (fastforce simp: e'_def bit_and_iff bit_or_iff)
  have "PTE_COW = 2 ^ 9" "PTE_WRITE = 2 ^ 1" by (simp_all add: PTE_COW_def PTE_WRITE_def)
  note C = and_pow_iff [OF this(1), of e'] and W = and_pow_iff [OF this(2), of e']
  show "e' AND PTE_COW = 0" unfolding C using prot_flag_bits [of prot 9] by (auto simp: e'_def bit_and_iff bit_or_iff)
  have "prot AND (PROT_READ OR PROT_WRITE OR PROT_EXEC) \<noteq> 0"
  proof
    assume "prot AND (PROT_READ OR PROT_WRITE OR PROT_EXEC) = 0"
    then have "(prot AND (PROT_READ OR PROT_WRITE OR PROT_EXEC)) AND PROT_WRITE = 0" by simp
    moreover have "(PROT_READ OR PROT_WRITE OR PROT_EXEC) AND PROT_WRITE = PROT_WRITE"
      by (simp add: PROT_READ_def PROT_WRITE_def PROT_EXEC_def)
    ultimately show False using assms(1) by (metis and.assoc)
  qed
  then show "e' AND PTE_WRITE \<noteq> 0" unfolding W using assms(1) by (simp add: e'_def prot_to_pte_flags_def bit_or_iff)
qed

text \<open>C28: Making one present page writable through a change of protection keeps its frame, drops the copy-on-write mark
  and sets the write bit, so a frame shared after a fork becomes writable for both processes.\<close>

theorem mprotect_breaks_cow:
  assumes "pt_ok tables_held r x" and "va < USER_TOP" and "4096 dvd va"
    and "walk_step (fst x) r va = Leaf_at pt i" and "fst x pt i AND PTE_ADDR_MASK \<noteq> 0" and "prot AND PROT_WRITE \<noteq> 0"
  shows "let m' = fst (update_pte_prot (page_alloc idle_hooks None) r va (va + 4096) prot va x) in
    read_pte_pub m' r va AND PTE_ADDR_MASK = read_pte_pub (fst x) r va AND PTE_ADDR_MASK \<and>
    read_pte_pub m' r va AND PTE_COW = 0 \<and> read_pte_pub m' r va AND PTE_WRITE \<noteq> 0"
proof -
  have n: "node (fst x) r (path3 va) = Some pt" "i = pt_idx va" using walk_node(1) [OF assms(2,4)] by simp_all
  define e where "e = fst x pt i"
  have "read_pte_pub (fst x) r va = e" using read_leaf [OF assms(2) n(1)] n(2) by (simp add: e_def)
  moreover have "read_pte_pub (fst (update_pte_prot (page_alloc idle_hooks None) r va (va + 4096) prot va x)) r va =
      (e AND PTE_ADDR_MASK) OR prot_to_pte_flags prot"
    unfolding protect_one [OF assms(4,5)] fst_conv n(2)
    using buddy_tables.leaf_entry [OF assms(1) same_view_refl n(1) assms(2)] n(2) by (simp add: page_mapped_def e_def)
  ultimately show ?thesis using protected_entry [OF assms(6), of e] by (simp add: Let_def)
qed

theorem mprotect_breaks_cow_witness:
  "let m' = fst (update_pte_prot (page_alloc idle_hooks None) 0 0x1000 (0x1000 + 4096) 3 0x1000 (small_tables, counted_buddy)) in
    read_pte_pub m' 0 0x1000 AND PTE_ADDR_MASK = read_pte_pub (fst (small_tables, counted_buddy)) 0 0x1000 AND PTE_ADDR_MASK \<and>
    read_pte_pub m' 0 0x1000 AND PTE_COW = 0 \<and> read_pte_pub m' 0 0x1000 AND PTE_WRITE \<noteq> 0"
  by (rule mprotect_breaks_cow [OF small_space_ok, where pt = "0x3000" and i = 1])
     (simp_all add: USER_TOP_def walk_step_def small_tables_def pml4_idx_def pdpt_idx_def pd_idx_def pt_idx_def Let_def
       PTE_ADDR_MASK_def PROT_WRITE_def)

definition release :: "nat \<Rightarrow> buddy \<Rightarrow> buddy" where
  "release phys s = (case page_free s (Some phys) of None \<Rightarrow> s | Some s' \<Rightarrow> s')"

text \<open>C29: Unmapping a whole huge page whose entry has the no-execute bit clears the entry, but the allocator ignores all 512
  releases: the address computed from the entry keeps bit 63, so the memory is neither mapped nor free.\<close>

theorem unmap_leaks_nx_huge_page:
  assumes "walk_step m r va = Huge_at pd i" and "2 ^ 21 dvd va" and "m pd i AND PTE_NX \<noteq> 0" and "max_pfn s \<le> 2 ^ 40"
  shows "unmap_range (page_alloc idle_hooks None) release r va (va + 2 ^ 21) va (m, s) = (set_entry m pd i 0, s)"
proof -
  define phys where "phys = unat (m pd i AND HUGE_PAGE_MASK)"
  have nx: "PTE_NX = 2 ^ 63" by (simp add: PTE_NX_def)
  have "bit (m pd i AND HUGE_PAGE_MASK) 63" using assms(3) and_pow_iff [OF nx] by (simp add: bit_and_iff)
  then have "bit phys 63" by (simp add: phys_def bit_unsigned_iff)
  then have "2 ^ 63 \<le> phys" by (rule contrapos_pp) (simp add: bit_iff_odd)
  then have "release (phys + j * 4096) s = s" for j
    using assms(4) by (simp add: release_def page_free_def pfn_of_div Let_def)
  then have f: "fold (\<lambda>j. release (phys + j * 4096)) js s = s" for js by (induction js) simp_all
  have "unmap_range alloc release r va (va + 2 ^ 21) (va + 2 ^ 21) y = y" for alloc y by (subst unmap_range.simps) simp
  moreover have "va div 2 ^ 21 * 2 ^ 21 = va" using assms(2) by simp
  ultimately show ?thesis using assms(1) f
    by (subst unmap_range.simps) (simp add: free_huge_def phys_def [symmetric] Let_def)
qed

theorem unmap_leaks_nx_huge_page_witness:
  "unmap_range (page_alloc idle_hooks None) release 0 0x200000 (0x200000 + 2 ^ 21) 0x200000 (small_tables, counted_buddy) =
     (set_entry small_tables 0x2000 1 0, counted_buddy)"
  by (rule unmap_leaks_nx_huge_page)
     (simp_all add: walk_step_def small_tables_def pml4_idx_def pdpt_idx_def pd_idx_def Let_def PTE_NX_def counted_buddy_def small_buddy_def)

end
