(* ===== verification/Sysv.thy ===== *)
theory Sysv
  imports Uaccess
begin

unbundle bit_operations_syntax

section \<open>What the System V calls share (\<^verbatim>\<open>src/kernel/ipc/sysv_ipc.c\<close>)\<close>

text \<open>
  Constants of the ABI, the surroundings of a call, the search of a table for a slot, and the layout of the
  structures exchanged with user space as little-endian bytes. Every call runs under the lock of its table
  and does not block, so one call is one step.
\<close>

definition IPC_CREAT :: int where "IPC_CREAT = 512"
definition IPC_EXCL :: int where "IPC_EXCL = 1024"
definition IPC_NOWAIT :: int where "IPC_NOWAIT = 2048"
definition IPC_RMID :: int where "IPC_RMID = 0"
definition IPC_SET :: int where "IPC_SET = 1"
definition IPC_STAT :: int where "IPC_STAT = 2"
definition IPC_PRIVATE :: u32 where "IPC_PRIVATE = 0"
definition IPC_64 :: int where "IPC_64 = 256"
definition MSG_NOERROR :: int where "MSG_NOERROR = 4096"
definition SHM_RDONLY :: int where "SHM_RDONLY = 4096"
definition GETPID :: int where "GETPID = 11"
definition GETVAL :: int where "GETVAL = 12"
definition GETNCNT :: int where "GETNCNT = 14"
definition GETZCNT :: int where "GETZCNT = 15"
definition SETVAL :: int where "SETVAL = 16"

text \<open>The clock and the caller. The page routines are those of the page allocator.\<close>

record 's ipc_env =
  timer_ms :: u64
  rtc_epoch_sec :: u64
  caller :: "u32 option"
  pg_alloc :: "int \<Rightarrow> 's \<Rightarrow> nat option \<times> 's"
  pg_free :: "nat \<Rightarrow> int \<Rightarrow> 's \<Rightarrow> 's"

definition current_time_sec :: "('s, 'm) ipc_env_scheme \<Rightarrow> u64" where
  "current_time_sec env = timer_ms env div 1000 + rtc_epoch_sec env"

definition current_pid :: "('s, 'm) ipc_env_scheme \<Rightarrow> u32" where
  "current_pid env = (case caller env of Some p \<Rightarrow> p | None \<Rightarrow> 0)"

subsection \<open>Slots\<close>

definition first_slot :: "('a \<Rightarrow> bool) \<Rightarrow> 'a list \<Rightarrow> nat option" where
  "first_slot P tab = find (\<lambda>i. P (tab ! i)) [0..<length tab]"

lemma first_slot_Some: "first_slot P tab = Some i \<Longrightarrow> i < length tab \<and> P (tab ! i) \<and> (\<forall>j<i. \<not> P (tab ! j))"
  by (auto simp: first_slot_def find_Some_iff)

lemma first_slot_None: "first_slot P tab = None \<longleftrightarrow> (\<forall>x\<in>set tab. \<not> P x)"
  by (auto simp: first_slot_def find_None_iff in_set_conv_nth all_set_conv_all_nth)

text \<open>The search by key that the three get calls start with: an answer, or the need for a free slot.\<close>

definition ipc_lookup :: "('a \<Rightarrow> bool) \<Rightarrow> ('a \<Rightarrow> u32) \<Rightarrow> u32 \<Rightarrow> int \<Rightarrow> 'a list \<Rightarrow> nat result option" where
  "ipc_lookup used key_of k flags tab =
     (case (if k \<noteq> IPC_PRIVATE then first_slot (\<lambda>x. used x \<and> key_of x = k) tab else None) of
        Some i \<Rightarrow> Some (if flags AND IPC_CREAT \<noteq> 0 \<and> flags AND IPC_EXCL \<noteq> 0 then Inl EEXIST else Inr i)
      | None \<Rightarrow> if flags AND IPC_CREAT = 0 \<and> k \<noteq> IPC_PRIVATE then Some (Inl ENOENT) else None)"

subsection \<open>Bytes\<close>

definition le_nat :: "nat \<Rightarrow> nat \<Rightarrow> u8 list" where
  "le_nat n v = map (\<lambda>i. word_of_nat (v div 256 ^ i)) [0..<n]"

definition nat_le :: "u8 list \<Rightarrow> nat" where
  "nat_le bs = foldr (\<lambda>b n. unat b + 256 * n) bs 0"

definition field :: "nat \<Rightarrow> nat \<Rightarrow> u8 list \<Rightarrow> nat" where
  "field off n bs = nat_le (take n (drop off bs))"

lemma length_le_nat [simp]: "length (le_nat n v) = n"
  by (simp add: le_nat_def)

lemma nat_le_le_nat: "nat_le (le_nat n v) = v mod 256 ^ n"
proof (induction n arbitrary: v)
  case (Suc n)
  have "le_nat (Suc n) v = word_of_nat v # le_nat n (v div 256)"
    by (simp add: le_nat_def upt_conv_Cons map_Suc_upt [symmetric] div_mult2_eq comp_def del: upt_Suc)
  then have "nat_le (le_nat (Suc n) v) = v mod 256 + 256 * (v div 256 mod 256 ^ n)"
    using Suc by (simp add: nat_le_def unsigned_of_nat take_bit_eq_mod)
  also have "\<dots> = v mod 256 ^ Suc n" by (simp add: mod_mult2_eq mult.commute)
  finally show ?case .
qed (simp add: le_nat_def nat_le_def)

text \<open>The permission block at the start of every status structure, 48 bytes with its padding.\<close>

definition ipc_perm_bytes :: "u32 \<Rightarrow> u32 \<Rightarrow> u32 \<Rightarrow> u32 \<Rightarrow> u32 \<Rightarrow> u32 \<Rightarrow> u8 list" where
  "ipc_perm_bytes key uid gid cuid cgid mode =
     le_nat 4 (unat key) @ le_nat 4 (unat uid) @ le_nat 4 (unat gid) @ le_nat 4 (unat cuid) @ le_nat 4 (unat cgid) @
     le_nat 4 (unat mode) @ replicate 24 0"

subsection \<open>Copies from and to user memory, byte by byte\<close>

lemma those_Some_iff: "those xs = Some ys \<longleftrightarrow> xs = map Some ys"
  by (induction xs arbitrary: ys) (auto split: option.splits)

lemma copy_from_iff:
  "copy_from_user m a n = Inr bs \<longleftrightarrow> user_ok a n \<and> length bs = n \<and> (\<forall>i<n. \<exists>w. m (a + i) = Some (w, bs ! i))"
proof -
  have "map (\<lambda>i. map_option snd (m (a + i))) [0..<n] = map Some bs \<longleftrightarrow> length bs = n \<and> (\<forall>i<n. \<exists>w. m (a + i) = Some (w, bs ! i))"
    by (auto simp: list_eq_iff_nth_eq)
  then show ?thesis by (auto simp: copy_from_user_def those_Some_iff split: option.splits) (metis option.distinct(1) those_Some_iff)
qed

lemma copy_length: "copy_from_user um a n = Inr bs \<Longrightarrow> length bs = n"
  by (simp add: copy_from_iff)

lemma user_ok_small: "user_ok a n \<Longrightarrow> a < 0x800000000000"
  by (simp add: user_ok_def USER_LIMIT_def)

lemma user_ok_append:
  assumes "user_ok a m" and "user_ok (a + m) n" and "m < 2 ^ 64" and "n < 2 ^ 64"
  shows "user_ok a (m + n)"
  using user_ok_range [OF assms(2,4)] assms(1) by (simp add: user_ok_def USER_LIMIT_def)

lemma copy_append:
  assumes "copy_from_user um a m = Inr xs" and "copy_from_user um (a + m) n = Inr ys" and "m < 2 ^ 64" and "n < 2 ^ 64"
  shows "copy_from_user um a (m + n) = Inr (xs @ ys)"
  unfolding copy_from_iff
proof (intro conjI allI impI)
  show "user_ok a (m + n)" using assms user_ok_append by (simp add: copy_from_iff)
  show "length (xs @ ys) = m + n" using assms by (simp add: copy_from_iff)
  fix i assume i: "i < m + n"
  show "\<exists>w. um (a + i) = Some (w, (xs @ ys) ! i)"
  proof (cases "i < m")
    case False
    then have "i - m < n" "a + m + (i - m) = a + i" using i by simp_all
    then show ?thesis using assms(1,2) False by (auto simp: copy_from_iff nth_append)
  qed (use assms(1) in \<open>simp add: copy_from_iff nth_append\<close>)
qed

lemma copy_to_read:
  assumes "copy_to_user um a bs = (Inr u, um')"
  shows "copy_from_user um' a (length bs) = Inr bs" and "x < a \<or> a + length bs \<le> x \<Longrightarrow> um' x = um x"
proof -
  have m: "user_ok a (length bs)" "movsb um a bs = (Inr (), um')" using assms by (auto simp: copy_to_user_def split: if_splits)
  show "copy_from_user um' a (length bs) = Inr bs"
    using movsb_ok [of um a bs] m by (auto simp: copy_from_iff)
  show "um' x = um x" if "x < a \<or> a + length bs \<le> x" using movsb_outside [OF that, of um] m by simp
qed

lemma le_nat_nat_le: "length bs = n \<Longrightarrow> le_nat n (nat_le bs) = bs"
proof (induction bs arbitrary: n)
  case (Cons b bs)
  then obtain k where n: "n = Suc k" by auto
  have "le_nat (Suc k) v = word_of_nat v # le_nat k (v div 256)" for v
    by (simp add: le_nat_def upt_conv_Cons map_Suc_upt [symmetric] div_mult2_eq comp_def del: upt_Suc)
  moreover have "nat_le (b # bs) = unat b + 256 * nat_le bs" by (simp add: nat_le_def)
  moreover have b: "unat b < 256" using unsigned_less [where 'a = nat, of b] by simp
  moreover have "(word_of_nat (unat b + 256 * nat_le bs) :: u8) = b"
  proof (rule unsigned_word_eqI [where 'a = nat])
    show "unat (word_of_nat (unat b + 256 * nat_le bs) :: u8) = unat b"
      using b by (subst unsigned_of_nat) (simp add: take_bit_eq_mod)
  qed
  ultimately show ?case using Cons n by simp
qed (simp add: le_nat_def)

lemma nat_le_less: "nat_le bs < 256 ^ length bs"
proof (induction bs)
  case (Cons b bs)
  have "unat b < 256" using unsigned_less [where 'a = nat, of b] by simp
  then show ?case using Cons by (simp add: nat_le_def)
qed (simp add: nat_le_def)

end
