(* ===== verification/Page_Blocks.thy ===== *)
theory Page_Blocks
  imports Mm_Props "HOL-Library.Multiset"
begin

section \<open>Blocks of pages owned by a client\<close>

text \<open>
  What a client of \<^verbatim>\<open>pages_alloc\<close> and \<^verbatim>\<open>pages_free\<close> relies on: as long as it returns each block
  once, with the size it asked for, the blocks it owns stay allocated and never overlap. The contract is the
  locale \<open>block_source\<close>; the page allocator without reclaim provides it.
\<close>

locale block_source =
  fixes alloc :: "int \<Rightarrow> 's \<Rightarrow> nat option \<times> 's" and free :: "nat \<Rightarrow> int \<Rightarrow> 's \<Rightarrow> 's"
    and own :: "(nat \<times> int) multiset \<Rightarrow> 's \<Rightarrow> bool"
  assumes own_none: "own B s \<Longrightarrow> alloc n s = (None, s') \<Longrightarrow> own B s'"
    and own_some: "own B s \<Longrightarrow> alloc n s = (Some a, s') \<Longrightarrow> own (add_mset (a, n) B) s'"
    and own_free: "own (add_mset (a, n) B) s \<Longrightarrow> own B (free a n s)"
begin

lemma free_all:
  "own (mset bs + B) s \<Longrightarrow> own B (fold (\<lambda>(a, n). free a n) bs s)"
proof (induction bs arbitrary: s)
  case (Cons b bs)
  obtain a n where b: "b = (a, n)" by force
  have "own (mset bs + B) (free a n s)" using Cons.prems b by (intro own_free) simp
  then show ?case using Cons.IH b by simp
qed simp

end

definition frames :: "nat \<times> int \<Rightarrow> nat set" where
  "frames b = blk_pages (order_for_pages (snd b)) (fst b)"

definition block_ok :: "nat \<times> int \<Rightarrow> bool" where
  "block_ok b \<longleftrightarrow> 0 < snd b \<and> order_for_pages (snd b) \<le> MAX_ORDER \<and> 2 ^ (12 + order_for_pages (snd b)) dvd fst b"

definition blocks_held :: "(nat \<times> int) multiset \<Rightarrow> buddy \<Rightarrow> bool" where
  "blocks_held B s \<longleftrightarrow>
     held (\<Union> (frames ` set_mset B)) s \<and> (\<forall>b\<in>#B. block_ok b) \<and> (\<forall>p. size (filter_mset (\<lambda>b. p \<in> frames b) B) \<le> 1)"

definition pages_release :: "nat \<Rightarrow> int \<Rightarrow> buddy \<Rightarrow> buddy" where
  "pages_release a n s = (case pages_free s (Some a) n of None \<Rightarrow> s | Some s' \<Rightarrow> s')"

lemma pages_alloc_order: "pages_alloc env cpu n s = (Some a, s') \<Longrightarrow> 0 < n \<and> order_for_pages n \<le> MAX_ORDER"
  by (auto simp: pages_alloc_def Let_def split: if_splits)

lemma blocks_held_alloc:
  assumes "blocks_held B s" and "pages_alloc idle_hooks None n s = (Some a, s')"
  shows "blocks_held (add_mset (a, n) B) s'"
proof -
  define K where "K = \<Union> (frames ` set_mset B)"
  have h: "held K s" "\<forall>b\<in>#B. block_ok b" "\<forall>p. size (filter_mset (\<lambda>b. p \<in> frames b) B) \<le> 1"
    using assms(1) by (simp_all add: blocks_held_def K_def)
  have "fresh_block K (order_for_pages n) a s'"
    using pages_alloc_ok [OF idle_hooks_respect h(1) assms(2), of a] by simp
  then have n: "2 ^ (12 + order_for_pages n) dvd a" "frames (a, n) \<inter> K = {}" "held (K \<union> frames (a, n)) s'"
    by (simp_all add: fresh_block_def new_block_def frames_def)
  have "size (filter_mset (\<lambda>b. p \<in> frames b) (add_mset (a, n) B)) \<le> 1" for p
  proof (cases "p \<in> frames (a, n)")
    case True
    then have "set_mset (filter_mset (\<lambda>b. p \<in> frames b) B) = {}" using n(2) by (auto simp: K_def)
    then have "filter_mset (\<lambda>b. p \<in> frames b) B = {#}" by (simp only: set_mset_eq_empty_iff)
    then show ?thesis using True by simp
  qed (use h(3) in simp)
  moreover have "\<Union> (frames ` set_mset (add_mset (a, n) B)) = K \<union> frames (a, n)" by (auto simp: K_def)
  ultimately show ?thesis
    using n h(2) pages_alloc_order [OF assms(2)] by (simp add: blocks_held_def block_ok_def)
qed

lemma blocks_held_free:
  assumes "blocks_held (add_mset (a, n) B) s"
  shows "blocks_held B (pages_release a n s)"
proof -
  define k where "k = order_for_pages n"
  define K where "K = \<Union> (frames ` set_mset B)"
  define s0 where "s0 = set_refcounts 0 (pfn_of a) (2 ^ k) s"
  have fr: "frames (a, n) = blk_pages k a" by (simp add: frames_def k_def)
  have hk: "held (frames (a, n) \<union> K) s" and ok: "block_ok (a, n)" "\<forall>b\<in>#B. block_ok b"
    and one: "\<And>p. size (filter_mset (\<lambda>b. p \<in> frames b) (add_mset (a, n) B)) \<le> 1"
    using assms by (simp_all add: blocks_held_def K_def)
  have dj: "frames (a, n) \<inter> K = {}"
  proof (rule equals0I)
    fix p assume "p \<in> frames (a, n) \<inter> K"
    then obtain b where "b \<in># B" "p \<in> frames b" "p \<in> frames (a, n)" by (auto simp: K_def)
    then have "b \<in># filter_mset (\<lambda>b. p \<in> frames b) B" by simp
    then have "filter_mset (\<lambda>b. p \<in> frames b) B \<noteq> {#}" by (metis empty_not_add_mset multi_member_split)
    moreover have "filter_mset (\<lambda>b. p \<in> frames b) (add_mset (a, n) B) = add_mset (a, n) (filter_mset (\<lambda>b. p \<in> frames b) B)"
      using \<open>p \<in> frames (a, n)\<close> by simp
    ultimately show False using one [of p] by (metis One_nat_def Suc_le_mono le_zero_eq size_add_mset size_eq_0_iff_empty)
  qed
  have inv: "buddy_inv s" using hk by (simp add: held_def)
  have inv0: "buddy_inv s0" unfolding s0_def by (rule buddy_inv_frame [OF inv]) simp_all
  have f0: "free_pages s0 = free_pages s" "max_pfn s0 = max_pfn s" by (simp_all add: s0_def free_pages_def)
  have "0 < (2 :: nat) ^ k" by simp
  then have "pfn_of a \<le> pfn_of a + 2 ^ k - 1" "pfn_of a + 2 ^ k - 1 < pfn_of a + 2 ^ k" by linarith+
  then have "pfn_of a + 2 ^ k - 1 \<in> blk_pages k a" by (simp add: blk_pages_def)
  then have "pfn_of a + 2 ^ k - 1 < max_pfn s" using hk fr by (auto simp: held_def)
  then have bd: "pfn_of a + 2 ^ k \<le> max_pfn s0" by (simp add: f0)
  have al: "blk_pages k a \<inter> free_pages s0 = {}" using hk fr by (auto simp: held_def f0)
  obtain s' where s': "buddy_free_order s0 a k = Some s'" "buddy_inv s'" "same_frame s0 s'" "free_pages s' = free_pages s0 \<union> blk_pages k a"
    by (rule buddy_free_order_ok [OF inv0 _ _ bd al]) (use ok(1) in \<open>auto simp: block_ok_def k_def MAX_ORDER_def\<close>)
  have r: "pages_release a n s = s'"
    using s'(1) ok(1) by (simp add: pages_release_def pages_free_def s0_def k_def block_ok_def Let_def)
  have "K \<inter> free_pages s' = {}" using hk dj fr s'(4) f0 by (auto simp: held_def)
  moreover have "\<forall>p\<in>K. p < max_pfn s'" using hk s'(3) f0 by (auto simp: held_def same_frame_def)
  ultimately have "held K s'" using s'(2) by (simp add: held_def)
  moreover have "size (filter_mset (\<lambda>b. p \<in> frames b) B) \<le> 1" for p
    by (rule order_trans [OF _ one [of p]]) (intro size_mset_mono multiset_filter_mono, simp)
  ultimately show ?thesis using ok(2) by (simp add: blocks_held_def K_def r)
qed

lemma blocks_held_none: "blocks_held B s \<Longrightarrow> pages_alloc idle_hooks None n s = (None, s') \<Longrightarrow> blocks_held B s'"
  using pages_alloc_ok [OF idle_hooks_respect, of _ s None n None s']
  by (auto simp: blocks_held_def keeps_def)

interpretation buddy_blocks: block_source "pages_alloc idle_hooks None" pages_release blocks_held
  by unfold_locales (fact blocks_held_none blocks_held_alloc blocks_held_free)+

end
