(* ===== verification/Sysv_Msg.thy ===== *)
theory Sysv_Msg
  imports Sysv Page_Blocks
begin

unbundle bit_operations_syntax

section \<open>Message queues (\<^verbatim>\<open>src/kernel/ipc/sysv_ipc.c\<close>)\<close>

text \<open>
  The table of queues and the four calls on it. A queue's linked list from \<^verbatim>\<open>head\<close> to \<^verbatim>\<open>tail\<close> is a list;
  a message keeps the address of its page block.
\<close>

definition SYSV_MSG_MAX :: nat where "SYSV_MSG_MAX = 32"
definition MSG_QBYTES :: u64 where "MSG_QBYTES = 16384"
definition MSG_MAX_SIZE :: nat where "MSG_MAX_SIZE = 8192"

record sysv_msg =
  m_addr :: nat
  m_type :: int
  m_data :: "u8 list"

record msgq =
  mq_used :: bool
  mq_key :: u32
  mq_msgs :: "sysv_msg list"
  mq_cbytes :: u64
  mq_qnum :: u64
  mq_qbytes :: u64
  mq_lspid :: u32
  mq_lrpid :: u32
  mq_stime :: u64
  mq_rtime :: u64
  mq_ctime :: u64
  mq_mode :: u32
  mq_uid :: u32
  mq_gid :: u32
  mq_cuid :: u32
  mq_cgid :: u32

definition msg_pages :: "nat \<Rightarrow> int" where
  "msg_pages msgsz = int ((24 + msgsz + 4095) div 4096)"

definition do_msgget :: "'s ipc_env \<Rightarrow> u32 \<Rightarrow> int \<Rightarrow> msgq list \<Rightarrow> nat result \<times> msgq list" where
  "do_msgget env key flags tab =
     (case ipc_lookup mq_used mq_key key flags tab of
        Some r \<Rightarrow> (r, tab)
      | None \<Rightarrow>
         (case first_slot (\<lambda>q. \<not> mq_used q) tab of
            None \<Rightarrow> (Inl ENOSPC, tab)
          | Some i \<Rightarrow>
              (Inr i, tab[i := \<lparr>mq_used = True, mq_key = key, mq_msgs = [], mq_cbytes = 0, mq_qnum = 0, mq_qbytes = MSG_QBYTES,
                 mq_lspid = 0, mq_lrpid = 0, mq_stime = 0, mq_rtime = 0, mq_ctime = current_time_sec env,
                 mq_mode = word_of_int (flags AND 0x1FF), mq_uid = 0, mq_gid = 0, mq_cuid = 0, mq_cgid = 0\<rparr>])))"

text \<open>The queue a call names: the table is static, and a slot in use is a queue.\<close>

definition msg_slot :: "int \<Rightarrow> msgq list \<Rightarrow> nat option" where
  "msg_slot msqid tab =
     (if msqid < 0 \<or> int SYSV_MSG_MAX \<le> msqid then None else if \<not> mq_used (tab ! nat msqid) then None else Some (nat msqid))"

definition enqueue :: "'s ipc_env \<Rightarrow> sysv_msg \<Rightarrow> msgq \<Rightarrow> msgq" where
  "enqueue env m q =
     q\<lparr>mq_msgs := mq_msgs q @ [m], mq_cbytes := mq_cbytes q + word_of_nat (length (m_data m)), mq_qnum := mq_qnum q + 1,
       mq_lspid := current_pid env, mq_stime := current_time_sec env\<rparr>"

definition do_msgsnd ::
  "'s ipc_env \<Rightarrow> umem \<Rightarrow> int \<Rightarrow> nat \<Rightarrow> nat \<Rightarrow> int \<Rightarrow> msgq list \<times> 's \<Rightarrow> int result \<times> msgq list \<times> 's" where
  "do_msgsnd env um msqid msgp msgsz msgflg x =
     (let (tab, st) = x in
      if msqid < 0 \<or> int SYSV_MSG_MAX \<le> msqid then (Inl EINVAL, x)
      else if MSG_MAX_SIZE < msgsz then (Inl EINVAL, x)
      else case copy_from_user um msgp 8 of
        Inl e \<Rightarrow> (Inl e, x)
      | Inr tb \<Rightarrow>
         let mtype = sint (word_of_nat (nat_le tb) :: u64) in
         if mtype < 1 then (Inl EINVAL, x)
         else case msg_slot msqid tab of
           None \<Rightarrow> (Inl EINVAL, x)
         | Some i \<Rightarrow>
            let q = tab ! i in
            if mq_qbytes q < mq_cbytes q + word_of_nat msgsz then (Inl EAGAIN, x)
            else case pg_alloc env (msg_pages msgsz) st of
              (None, st1) \<Rightarrow> (Inl ENOMEM, tab, st1)
            | (Some a, st1) \<Rightarrow>
               (case (if 0 < msgsz then copy_from_user um ((msgp + 8) mod 2 ^ 64) msgsz else Inr []) of
                  Inl e \<Rightarrow> (Inl e, tab, pg_free env a (msg_pages msgsz) st1)
                | Inr bs \<Rightarrow> (Inr 0, tab[i := enqueue env \<lparr>m_addr = a, m_type = mtype, m_data = bs\<rparr> q], st1)))"

text \<open>\<^verbatim>\<open>-msgtyp\<close> is computed in 64 bits.\<close>

definition msg_matches :: "int \<Rightarrow> sysv_msg \<Rightarrow> bool" where
  "msg_matches msgtyp m \<longleftrightarrow>
     msgtyp = 0 \<or> (0 < msgtyp \<and> m_type m = msgtyp) \<or> (msgtyp < 0 \<and> m_type m \<le> sint (word_of_int (- msgtyp) :: u64))"

definition dequeue :: "'s ipc_env \<Rightarrow> sysv_msg list \<Rightarrow> sysv_msg \<Rightarrow> msgq \<Rightarrow> msgq" where
  "dequeue env rest m q =
     q\<lparr>mq_msgs := rest, mq_cbytes := mq_cbytes q - word_of_nat (length (m_data m)), mq_qnum := mq_qnum q - 1,
       mq_lrpid := current_pid env, mq_rtime := current_time_sec env\<rparr>"

definition deliver :: "umem \<Rightarrow> nat \<Rightarrow> nat \<Rightarrow> sysv_msg \<Rightarrow> int result \<times> umem" where
  "deliver um msgp msgsz m =
     (let copy_sz = (if length (m_data m) < msgsz then length (m_data m) else msgsz);
          (r, um1) = copy_to_user um msgp (le_nat 8 (unat (word_of_int (m_type m) :: u64)));
          (r2, um2) = (case r of
                         Inl e \<Rightarrow> (Inl e, um1)
                       | Inr _ \<Rightarrow> if 0 < copy_sz then copy_to_user um1 ((msgp + 8) mod 2 ^ 64) (take copy_sz (m_data m))
                                  else (r, um1))
      in case r2 of Inl e \<Rightarrow> (Inl e, um2) | Inr _ \<Rightarrow> (Inr (int copy_sz), um2))"

definition do_msgrcv ::
  "'s ipc_env \<Rightarrow> int \<Rightarrow> nat \<Rightarrow> nat \<Rightarrow> int \<Rightarrow> int \<Rightarrow> umem \<times> msgq list \<times> 's \<Rightarrow> int result \<times> umem \<times> msgq list \<times> 's" where
  "do_msgrcv env msqid msgp msgsz msgtyp msgflg x =
     (let (um, tab, st) = x in
      case msg_slot msqid tab of
        None \<Rightarrow> (Inl EINVAL, x)
      | Some i \<Rightarrow>
         let q = tab ! i; skipped = takeWhile (\<lambda>m. \<not> msg_matches msgtyp m) (mq_msgs q) in
         case drop (length skipped) (mq_msgs q) of
           [] \<Rightarrow> (Inl ENOMSG, x)
         | m # rest \<Rightarrow>
            if msgsz < length (m_data m) \<and> msgflg AND MSG_NOERROR = 0 then (Inl E2BIG, x)
            else let (r, um1) = deliver um msgp msgsz m in
              (r, um1, tab[i := dequeue env (skipped @ rest) m q], pg_free env (m_addr m) (msg_pages (length (m_data m))) st))"

definition msqid_ds_bytes :: "msgq \<Rightarrow> u8 list" where
  "msqid_ds_bytes q =
     ipc_perm_bytes (mq_key q) (mq_uid q) (mq_gid q) (mq_cuid q) (mq_cgid q) (mq_mode q) @
     le_nat 8 (unat (mq_stime q)) @ le_nat 8 (unat (mq_rtime q)) @ le_nat 8 (unat (mq_ctime q)) @
     le_nat 8 (unat (mq_cbytes q)) @ le_nat 8 (unat (mq_qnum q)) @ le_nat 8 (unat (mq_qbytes q)) @
     le_nat 4 (unat (mq_lspid q)) @ le_nat 4 (unat (mq_lrpid q)) @ replicate 16 0"

definition free_msgs :: "'s ipc_env \<Rightarrow> sysv_msg list \<Rightarrow> 's \<Rightarrow> 's" where
  "free_msgs env ms st = fold (\<lambda>m. pg_free env (m_addr m) (msg_pages (length (m_data m)))) ms st"

definition do_msgctl ::
  "'s ipc_env \<Rightarrow> int \<Rightarrow> int \<Rightarrow> nat \<Rightarrow> umem \<times> msgq list \<times> 's \<Rightarrow> int result \<times> umem \<times> msgq list \<times> 's" where
  "do_msgctl env msqid cmd0 buf x =
     (let (um, tab, st) = x; cmd = cmd0 AND NOT IPC_64 in
      case msg_slot msqid tab of
        None \<Rightarrow> (Inl EINVAL, x)
      | Some i \<Rightarrow>
         let q = tab ! i in
         if cmd = IPC_RMID then (Inr 0, um, tab[i := q\<lparr>mq_used := False\<rparr>], free_msgs env (mq_msgs q) st)
         else if cmd = IPC_STAT then
           (if buf = 0 then (Inl EFAULT, x)
            else let (r, um1) = copy_to_user um buf (msqid_ds_bytes q) in
              (case r of Inl e \<Rightarrow> Inl e | Inr _ \<Rightarrow> Inr 0, um1, tab, st))
         else if cmd = IPC_SET then
           (if buf = 0 then (Inl EFAULT, x)
            else case copy_from_user um buf 120 of
              Inl e \<Rightarrow> (Inl e, x)
            | Inr ds \<Rightarrow>
               (Inr 0, um, tab[i := q\<lparr>mq_uid := word_of_nat (field 4 4 ds), mq_gid := word_of_nat (field 8 4 ds),
                  mq_mode := word_of_nat (field 20 4 ds) AND 0x1FF, mq_qbytes := word_of_nat (field 88 8 ds),
                  mq_ctime := current_time_sec env\<rparr>], st))
         else (Inl EINVAL, x))"

subsection \<open>Accounts of a queue and ownership of its memory\<close>

definition mq_ok :: "msgq \<Rightarrow> bool" where
  "mq_ok q \<longleftrightarrow> \<not> mq_used q \<or>
     mq_cbytes q = word_of_nat (sum_list (map (\<lambda>m. length (m_data m)) (mq_msgs q))) \<and>
     mq_qnum q = word_of_nat (length (mq_msgs q)) \<and> list_all (\<lambda>m. length (m_data m) \<le> MSG_MAX_SIZE) (mq_msgs q)"

definition msgs_ok :: "msgq list \<Rightarrow> bool" where
  "msgs_ok tab \<longleftrightarrow> length tab = SYSV_MSG_MAX \<and> list_all mq_ok tab"

definition msg_block :: "sysv_msg \<Rightarrow> nat \<times> int" where
  "msg_block m = (m_addr m, msg_pages (length (m_data m)))"

definition queue_blocks :: "msgq \<Rightarrow> (nat \<times> int) multiset" where
  "queue_blocks q = (if mq_used q then image_mset msg_block (mset (mq_msgs q)) else {#})"

definition tab_blocks :: "msgq list \<Rightarrow> (nat \<times> int) multiset" where
  "tab_blocks tab = sum_list (map queue_blocks tab)"

lemma tab_blocks_slot:
  assumes "i < length tab"
  obtains R where "tab_blocks tab = queue_blocks (tab ! i) + R" "\<And>q. tab_blocks (tab[i := q]) = queue_blocks q + R"
proof
  let ?R = "tab_blocks (take i tab) + tab_blocks (drop (Suc i) tab)"
  show "tab_blocks (tab[i := q]) = queue_blocks q + ?R" for q
    unfolding upd_conv_take_nth_drop [OF assms] by (simp add: tab_blocks_def ac_simps)
  from this [of "tab ! i"] show "tab_blocks tab = queue_blocks (tab ! i) + ?R" by simp
qed

lemma msgs_ok_update: "msgs_ok tab \<Longrightarrow> mq_ok q \<Longrightarrow> msgs_ok (tab[i := q])"
  by (simp add: msgs_ok_def list_all_update)

lemma msg_slot_less: "msg_slot msqid tab = Some i \<Longrightarrow> msgs_ok tab \<Longrightarrow> i < length tab \<and> mq_used (tab ! i) \<and> mq_ok (tab ! i)"
  by (auto simp: msg_slot_def msgs_ok_def list_all_length split: if_splits)

lemma enqueue_ok:
  assumes "mq_ok q" and "mq_used q" and "length (m_data m) \<le> MSG_MAX_SIZE"
  shows "mq_ok (enqueue env m q)" and "queue_blocks (enqueue env m q) = add_mset (msg_block m) (queue_blocks q)"
  using assms by (auto simp: mq_ok_def enqueue_def queue_blocks_def)

lemma dequeue_ok:
  assumes "mq_ok q" and "mq_used q" and "mq_msgs q = l @ m # rest"
  shows "mq_ok (dequeue env (l @ rest) m q)" and "add_mset (msg_block m) (queue_blocks (dequeue env (l @ rest) m q)) = queue_blocks q"
  using assms by (auto simp: mq_ok_def dequeue_def queue_blocks_def)

lemma first_match:
  assumes "drop (length (takeWhile (\<lambda>m. \<not> P m) ms)) ms = m # rest"
  shows "ms = takeWhile (\<lambda>m. \<not> P m) ms @ m # rest" and "P m"
proof -
  show s: "ms = takeWhile (\<lambda>m. \<not> P m) ms @ m # rest"
    using assms append_take_drop_id [of "length (takeWhile (\<lambda>m. \<not> P m) ms)" ms] by (metis takeWhile_eq_take)
  have "dropWhile (\<lambda>m. \<not> P m) ms = m # rest" using assms by (simp add: dropWhile_eq_drop)
  then show "P m" by (simp add: dropWhile_eq_Cons_conv)
qed

lemma msgget_step:
  assumes "msgs_ok tab" and "do_msgget env key flags tab = (r, tab')"
  shows "msgs_ok tab' \<and> tab_blocks tab' = tab_blocks tab"
proof -
  have "tab' = tab \<or> (\<exists>i q. i < length tab \<and> \<not> mq_used (tab ! i) \<and> mq_msgs q = [] \<and> mq_cbytes q = 0 \<and> mq_qnum q = 0 \<and> tab' = tab[i := q])"
    using assms(2) by (auto simp: do_msgget_def split: option.splits dest!: first_slot_Some intro!: exI)
  then show ?thesis
  proof
    assume "\<exists>i q. i < length tab \<and> \<not> mq_used (tab ! i) \<and> mq_msgs q = [] \<and> mq_cbytes q = 0 \<and> mq_qnum q = 0 \<and> tab' = tab[i := q]"
    then obtain i q where i: "i < length tab" "\<not> mq_used (tab ! i)" and q: "mq_msgs q = []" "mq_cbytes q = 0" "mq_qnum q = 0" "tab' = tab[i := q]" by blast
    obtain R where R: "tab_blocks tab = queue_blocks (tab ! i) + R" "\<And>q. tab_blocks (tab[i := q]) = queue_blocks q + R"
      by (rule tab_blocks_slot [OF i(1)]) (rule that)
    have "queue_blocks (tab ! i) = {#}" "queue_blocks q = {#}" "mq_ok q" using i q by (simp_all add: queue_blocks_def mq_ok_def)
    then show ?thesis using R q(4) msgs_ok_update [OF assms(1)] by simp
  qed (use assms in simp)
qed

context block_source
begin

lemma msgsnd_step:
  assumes "msgs_ok tab" and "own (tab_blocks tab + B) st" and "pg_alloc env = alloc" and "pg_free env = free"
    and "do_msgsnd env um msqid msgp msgsz msgflg (tab, st) = (r, tab', st')"
  shows "msgs_ok tab' \<and> own (tab_blocks tab' + B) st'"
proof (cases "tab' = tab \<and> st' = st")
  case False
  have sz: "msgsz \<le> MSG_MAX_SIZE" using assms(5) False by (auto simp: do_msgsnd_def split: if_splits)
  obtain tb i where tb: "copy_from_user um msgp 8 = Inr tb" and i: "msg_slot msqid tab = Some i"
    using assms(5) False by (auto simp: do_msgsnd_def Let_def split: if_splits sum.splits option.splits)
  note I = msg_slot_less [OF i assms(1)]
  obtain R where R: "tab_blocks tab = queue_blocks (tab ! i) + R" "\<And>q. tab_blocks (tab[i := q]) = queue_blocks q + R"
    by (rule tab_blocks_slot [of i tab]) (use I that in blast)+
  obtain p st1 where p: "alloc (msg_pages msgsz) st = (p, st1)" by (rule prod.exhaust)
  show ?thesis
  proof (cases p)
    case None
    have "tab' = tab" "st' = st1"
      using assms(5) False tb i p None by (auto simp: do_msgsnd_def Let_def assms(3) split: if_splits)
    then show ?thesis using assms(1) own_none [OF assms(2)] p None by simp
  next
    case (Some a)
    have o: "own (add_mset (a, msg_pages msgsz) (tab_blocks tab + B)) st1" using own_some [OF assms(2)] p Some by simp
    show ?thesis
    proof (cases "if 0 < msgsz then copy_from_user um ((msgp + 8) mod 2 ^ 64) msgsz else Inr []")
      case (Inl e)
      have "tab' = tab" "st' = free a (msg_pages msgsz) st1"
        using assms(5) False tb i p Some Inl by (auto simp: do_msgsnd_def Let_def assms(3,4) split: if_splits)
      then show ?thesis using assms(1) own_free [OF o] by simp
    next
      case (Inr bs)
      have l: "length bs = msgsz" using Inr copy_length by (auto split: if_splits)
      define m where "m = \<lparr>m_addr = a, m_type = sint (word_of_nat (nat_le tb) :: u64), m_data = bs\<rparr>"
      have "tab' = tab[i := enqueue env m (tab ! i)]" "st' = st1"
        using assms(5) False tb i p Some Inr by (auto simp: do_msgsnd_def Let_def assms(3,4) m_def split: if_splits)
      moreover have "msg_block m = (a, msg_pages msgsz)" by (simp add: msg_block_def m_def l)
      moreover have "length (m_data m) \<le> MSG_MAX_SIZE" using l sz by (simp add: m_def)
      ultimately show ?thesis using enqueue_ok [of "tab ! i" m env] I R o msgs_ok_update [OF assms(1)] by simp
    qed
  qed
qed (use assms in simp)

lemma msgrcv_step:
  assumes "msgs_ok tab" and "own (tab_blocks tab + B) st" and "pg_free env = free"
    and "do_msgrcv env msqid msgp msgsz msgtyp msgflg (um, tab, st) = (r, um', tab', st')"
  shows "msgs_ok tab' \<and> own (tab_blocks tab' + B) st'"
proof (cases "tab' = tab \<and> st' = st")
  case False
  obtain i where i: "msg_slot msqid tab = Some i"
    using assms(4) False by (auto simp: do_msgrcv_def Let_def split: if_splits option.splits)
  define l where "l = takeWhile (\<lambda>m. \<not> msg_matches msgtyp m) (mq_msgs (tab ! i))"
  obtain m rest where m: "drop (length l) (mq_msgs (tab ! i)) = m # rest" and
    t: "tab' = tab[i := dequeue env (l @ rest) m (tab ! i)]" "st' = free (m_addr m) (msg_pages (length (m_data m))) st"
    using assms(3,4) False i
    by (auto simp: do_msgrcv_def Let_def l_def split: if_splits list.splits prod.splits)
  note I = msg_slot_less [OF i assms(1)]
  obtain R where R: "tab_blocks tab = queue_blocks (tab ! i) + R" "\<And>q. tab_blocks (tab[i := q]) = queue_blocks q + R"
    by (rule tab_blocks_slot [of i tab]) (use I that in blast)+
  have s: "mq_msgs (tab ! i) = l @ m # rest" unfolding l_def by (rule first_match(1)) (use m in \<open>simp add: l_def\<close>)
  have q: "add_mset (msg_block m) (queue_blocks (dequeue env (l @ rest) m (tab ! i))) = queue_blocks (tab ! i)"
    by (rule dequeue_ok(2) [OF _ _ s]) (use I in simp_all)
  have "own (add_mset (msg_block m) (tab_blocks tab' + B)) st"
    using assms(2) unfolding t(1) R(1) R(2) q [symmetric] by simp
  then show ?thesis using own_free t dequeue_ok(1) [OF _ _ s, of env] I msgs_ok_update [OF assms(1)] by (simp add: msg_block_def)
qed (use assms in simp)

lemma free_msgs_step:
  assumes "own (image_mset msg_block (mset ms) + B) st" and "pg_free env = free"
  shows "own B (free_msgs env ms st)"
proof -
  have "free_msgs env ms st = fold (\<lambda>(a, n). free a n) (map msg_block ms) st"
    by (induction ms arbitrary: st) (simp_all add: free_msgs_def assms(2) msg_block_def)
  then show ?thesis using free_all [of "map msg_block ms" B st] assms(1) by simp
qed

lemma msgctl_step:
  assumes "msgs_ok tab" and "own (tab_blocks tab + B) st" and "pg_free env = free"
    and "do_msgctl env msqid cmd buf (um, tab, st) = (r, um', tab', st')"
  shows "msgs_ok tab' \<and> own (tab_blocks tab' + B) st'"
proof (cases "msg_slot msqid tab")
  case None
  then show ?thesis using assms by (simp add: do_msgctl_def Let_def)
next
  case (Some i)
  note I = msg_slot_less [OF Some assms(1)]
  obtain R where R: "tab_blocks tab = queue_blocks (tab ! i) + R" "\<And>q. tab_blocks (tab[i := q]) = queue_blocks q + R"
    by (rule tab_blocks_slot [of i tab]) (use I that in blast)+
  consider "tab' = tab" "st' = st"
    | "tab' = tab[i := (tab ! i)\<lparr>mq_used := False\<rparr>]" "st' = free_msgs env (mq_msgs (tab ! i)) st"
    | u g md qb c where "tab' = tab[i := (tab ! i)\<lparr>mq_uid := u, mq_gid := g, mq_mode := md, mq_qbytes := qb, mq_ctime := c\<rparr>]" "st' = st"
    using assms(4) Some by (auto simp: do_msgctl_def Let_def split: if_splits sum.splits prod.splits)
  then show ?thesis
  proof cases
    case 2
    have "own (image_mset msg_block (mset (mq_msgs (tab ! i))) + (R + B)) st"
      using assms(2) I R(1) by (simp add: queue_blocks_def ac_simps)
    then have "own (R + B) st'" unfolding 2(2) by (rule free_msgs_step [OF _ assms(3)])
    moreover have "tab_blocks tab' = R" unfolding 2(1) R(2) by (simp add: queue_blocks_def)
    ultimately show ?thesis using msgs_ok_update [OF assms(1)] by (simp add: 2(1) mq_ok_def)
  next
    case (3 u g md qb c)
    have "tab_blocks tab' = tab_blocks tab" unfolding 3(1) R by (simp add: queue_blocks_def)
    then show ?thesis using assms(2) I 3 msgs_ok_update [OF assms(1)] by (simp add: mq_ok_def)
  qed (use assms in simp)
qed

end

text \<open>Calls of any processes in any order. User memory is what it is at each call.\<close>

datatype msg_call =
    Msgget u32 int
  | Msgsnd umem int nat nat int
  | Msgrcv umem int nat nat int int
  | Msgctl umem int int nat

fun msg_run :: "'s ipc_env \<Rightarrow> msg_call \<Rightarrow> msgq list \<times> 's \<Rightarrow> msgq list \<times> 's" where
  "msg_run env (Msgget key flags) (tab, st) = (snd (do_msgget env key flags tab), st)"
| "msg_run env (Msgsnd um msqid msgp msgsz msgflg) (tab, st) = snd (do_msgsnd env um msqid msgp msgsz msgflg (tab, st))"
| "msg_run env (Msgrcv um msqid msgp msgsz msgtyp msgflg) (tab, st) = snd (snd (do_msgrcv env msqid msgp msgsz msgtyp msgflg (um, tab, st)))"
| "msg_run env (Msgctl um msqid cmd buf) (tab, st) = snd (snd (do_msgctl env msqid cmd buf (um, tab, st)))"

context block_source
begin

lemma msg_run_step:
  assumes "msgs_ok (fst x)" and "own (tab_blocks (fst x) + B) (snd x)" and "pg_alloc env = alloc" and "pg_free env = free"
  shows "msgs_ok (fst (msg_run env c x)) \<and> own (tab_blocks (fst (msg_run env c x)) + B) (snd (msg_run env c x))"
proof -
  obtain tab st where x: "x = (tab, st)" by force
  have a: "msgs_ok tab" "own (tab_blocks tab + B) st" using assms(1,2) by (simp_all add: x)
  show ?thesis
  proof (cases c)
    case (Msgget key flags)
    then show ?thesis using msgget_step [OF a(1), of env key flags] a(2) by (simp add: x prod_eq_iff)
  next
    case (Msgsnd um msqid msgp msgsz msgflg)
    then show ?thesis using msgsnd_step [OF a assms(3,4), of um msqid msgp msgsz msgflg] by (simp add: x prod_eq_iff)
  next
    case (Msgrcv um msqid msgp msgsz msgtyp msgflg)
    then show ?thesis using msgrcv_step [OF a assms(4), of msqid msgp msgsz msgtyp msgflg um] by (simp add: x prod_eq_iff)
  next
    case (Msgctl um msqid cmd buf)
    then show ?thesis using msgctl_step [OF a assms(4), of msqid cmd buf um] by (simp add: x prod_eq_iff)
  qed
qed

lemma msg_runs:
  assumes "msgs_ok (fst x)" and "own (tab_blocks (fst x) + B) (snd x)" and "pg_alloc env = alloc" and "pg_free env = free"
  shows "msgs_ok (fst (fold (msg_run env) cs x)) \<and> own (tab_blocks (fst (fold (msg_run env) cs x)) + B) (snd (fold (msg_run env) cs x))"
  using assms(1,2)
proof (induction cs arbitrary: x)
  case (Cons c cs)
  have "msgs_ok (fst (msg_run env c x))" "own (tab_blocks (fst (msg_run env c x)) + B) (snd (msg_run env c x))"
    using msg_run_step [OF Cons.prems assms(3,4), of c] by simp_all
  from Cons.IH [OF this] show ?case by simp
qed simp

end

subsection \<open>What a receiver gets\<close>

lemma deliver_ok:
  assumes "deliver um buf msgsz m = (Inr n, um')" and "length (m_data m) = msgsz" and "msgsz < 2 ^ 63"
  shows "n = int msgsz" and "copy_from_user um' buf (8 + msgsz) = Inr (le_nat 8 (unat (word_of_int (m_type m) :: u64)) @ m_data m)"
proof -
  define tb where "tb = le_nat 8 (unat (word_of_int (m_type m) :: u64))"
  have ltb: "length tb = 8" by (simp add: tb_def)
  obtain r um1 where 1: "copy_to_user um buf tb = (r, um1)" by (rule prod.exhaust)
  obtain u where r: "r = Inr u" using assms(1,2) 1 by (cases r) (simp_all add: deliver_def tb_def Let_def)
  have c1: "copy_from_user um1 buf 8 = Inr tb" using copy_to_read(1) [of um buf tb u um1] 1 r ltb by simp
  then have small: "buf < 0x800000000000" by (auto simp: copy_from_iff dest: user_ok_small)
  then have w: "(buf + 8) mod 2 ^ 64 = buf + 8" by simp
  have n: "n = int msgsz" using assms(1,2) 1 r by (auto simp: deliver_def tb_def Let_def split: sum.splits prod.splits if_splits)
  have "copy_from_user um' buf (8 + msgsz) = Inr (tb @ m_data m)"
  proof (cases "msgsz = 0")
    case True
    then have "um' = um1" using assms(1,2) 1 r by (simp add: deliver_def tb_def Let_def)
    then show ?thesis using c1 True assms(2) by simp
  next
    case False
    obtain r2 um2 where 2: "copy_to_user um1 (buf + 8) (m_data m) = (r2, um2)" by (rule prod.exhaust)
    have "um' = um2 \<and> (\<exists>u2. r2 = Inr u2)"
      using assms(1,2) 1 2 r False w by (auto simp: deliver_def tb_def Let_def split: sum.splits)
    then obtain u2 where 3: "copy_to_user um1 (buf + 8) (m_data m) = (Inr u2, um')" using 2 by auto
    have "copy_from_user um' buf 8 = Inr tb"
      using c1 copy_to_read(2) [OF 3] by (simp add: copy_from_iff)
    moreover have "copy_from_user um' (buf + 8) msgsz = Inr (m_data m)" using copy_to_read(1) [OF 3] assms(2) by simp
    ultimately show ?thesis by (rule copy_append) (use assms(3) in simp_all)
  qed
  then show "copy_from_user um' buf (8 + msgsz) = Inr (le_nat 8 (unat (word_of_int (m_type m) :: u64)) @ m_data m)" by (simp add: tb_def)
  show "n = int msgsz" by (rule n)
qed

lemma msgsnd_message:
  assumes "do_msgsnd env um msqid msgp msgsz f (tab, st) = (Inr 0, tab1, st1)"
  obtains i a tb bs where "msg_slot msqid tab = Some i" "msgsz \<le> MSG_MAX_SIZE" "copy_from_user um msgp (8 + msgsz) = Inr (tb @ bs)"
    "copy_from_user um msgp 8 = Inr tb" "length tb = 8" "length bs = msgsz" "0 < sint (word_of_nat (nat_le tb) :: u64)"
    "tab1 = tab[i := enqueue env \<lparr>m_addr = a, m_type = sint (word_of_nat (nat_le tb) :: u64), m_data = bs\<rparr> (tab ! i)]"
proof -
  obtain tb i a bs where tb: "copy_from_user um msgp 8 = Inr tb" and i: "msg_slot msqid tab = Some i" and sz: "msgsz \<le> MSG_MAX_SIZE"
    and bs: "(if 0 < msgsz then copy_from_user um ((msgp + 8) mod 2 ^ 64) msgsz else Inr []) = Inr bs"
    and pos: "0 < sint (word_of_nat (nat_le tb) :: u64)"
    and t: "tab1 = tab[i := enqueue env \<lparr>m_addr = a, m_type = sint (word_of_nat (nat_le tb) :: u64), m_data = bs\<rparr> (tab ! i)]"
    using assms unfolding do_msgsnd_def Let_def by (auto split: if_splits sum.splits option.splits prod.splits)
  have "msgp < 0x800000000000" using tb by (auto simp: copy_from_iff dest: user_ok_small)
  then have w: "(msgp + 8) mod 2 ^ 64 = msgp + 8" by simp
  have l: "length tb = 8" "length bs = msgsz" using copy_length [OF tb] bs copy_length by (auto split: if_splits)
  have "copy_from_user um msgp (8 + msgsz) = Inr (tb @ bs)"
  proof (cases "msgsz = 0")
    case False
    then have "copy_from_user um (msgp + 8) msgsz = Inr bs" using bs w by simp
    then show ?thesis by (rule copy_append [OF tb]) (use sz in \<open>simp_all add: MSG_MAX_SIZE_def\<close>)
  qed (use tb bs in simp)
  then show ?thesis using that i sz tb l pos t by blast
qed

lemma skip_all: "list_all (\<lambda>m. \<not> P m) ms \<Longrightarrow> P m \<Longrightarrow> takeWhile (\<lambda>m. \<not> P m) (ms @ [m]) = ms"
  by (induction ms) simp_all

lemma le_nat_type:
  assumes "length tb = 8"
  shows "le_nat 8 (unat (word_of_int (sint (word_of_nat (nat_le tb) :: u64)) :: u64)) = tb"
proof -
  have "nat_le tb < 2 ^ 64" using nat_le_less [of tb] assms by simp
  then have "unat (word_of_nat (nat_le tb) :: u64) = nat_le tb" by (simp add: unsigned_of_nat take_bit_nat_eq_self)
  then show ?thesis using le_nat_nat_le [OF assms] by simp
qed

subsection \<open>Properties\<close>

definition buddy_ipc :: "u64 \<Rightarrow> u32 option \<Rightarrow> buddy ipc_env" where
  "buddy_ipc t p = \<lparr>timer_ms = t, rtc_epoch_sec = 0, caller = p, pg_alloc = pages_alloc idle_hooks None, pg_free = pages_release\<rparr>"

lemma buddy_ipc_pages [simp]: "pg_alloc (buddy_ipc t p) = pages_alloc idle_hooks None" "pg_free (buddy_ipc t p) = pages_release"
  by (simp_all add: buddy_ipc_def)

text \<open>C31: Whatever calls any processes make on the message queues, in any order and with any arguments and user memory,
  every queue's byte and message counts are those of its messages, no message exceeds the size limit, and the page
  blocks of all queued messages stay allocated, disjoint from each other and from the blocks \<open>B\<close> of everybody
  else, so that no block is returned twice or while it is queued.\<close>

theorem msg_queues_account:
  assumes "msgs_ok tab" and "blocks_held (tab_blocks tab + B) st"
  shows "let (tab', st') = fold (\<lambda>(t, p, c). msg_run (buddy_ipc t p) c) cs (tab, st) in
    msgs_ok tab' \<and> blocks_held (tab_blocks tab' + B) st'"
proof -
  have "msgs_ok (fst (fold (\<lambda>(t, p, c). msg_run (buddy_ipc t p) c) cs x)) \<and>
      blocks_held (tab_blocks (fst (fold (\<lambda>(t, p, c). msg_run (buddy_ipc t p) c) cs x)) + B) (snd (fold (\<lambda>(t, p, c). msg_run (buddy_ipc t p) c) cs x))"
    if "msgs_ok (fst x)" "blocks_held (tab_blocks (fst x) + B) (snd x)" for x
    using that
  proof (induction cs arbitrary: x)
    case (Cons c cs)
    then show ?case
      using buddy_blocks.msg_run_step [OF Cons.prems buddy_ipc_pages] by (cases c) simp
  qed simp
  from this [of "(tab, st)"] show ?thesis using assms by (simp add: case_prod_beta)
qed

definition empty_queue :: msgq where
  "empty_queue = \<lparr>mq_used = True, mq_key = 9, mq_msgs = [], mq_cbytes = 0, mq_qnum = 0, mq_qbytes = MSG_QBYTES, mq_lspid = 0, mq_lrpid = 0,
     mq_stime = 0, mq_rtime = 0, mq_ctime = 0, mq_mode = 0, mq_uid = 0, mq_gid = 0, mq_cuid = 0, mq_cgid = 0\<rparr>"

definition empty_queues :: "msgq list" where
  "empty_queues = replicate 32 empty_queue"

definition hello :: umem where
  "hello a = (if 0x1000 \<le> a \<and> a < 0x100A then Some (True, [1, 0, 0, 0, 0, 0, 0, 0, 104, 105] ! (a - 0x1000)) else None)"

lemma sum_list_empty: "sum_list (replicate n {#}) = {#}"
  by (induction n) simp_all

lemma empty_queues_ok: "msgs_ok empty_queues" "tab_blocks empty_queues = {#}" "blocks_held {#} small_buddy"
  by (simp_all add: msgs_ok_def empty_queues_def list_all_iff mq_ok_def empty_queue_def SYSV_MSG_MAX_def tab_blocks_def queue_blocks_def
      blocks_held_def held_def sum_list_empty)

theorem msg_queues_account_witness:
  "let (tab', st') = fold (\<lambda>(t, p, c). msg_run (buddy_ipc t p) c) [(1, Some 4, Msgsnd hello 0 0x1000 2 0), (2, Some 5, Msgctl hello 0 0 0)]
      (empty_queues, small_buddy) in
    msgs_ok tab' \<and> blocks_held (tab_blocks tab' + {#}) st'"
  by (rule msg_queues_account) (simp_all add: empty_queues_ok)

text \<open>C32: A message sent and then asked for by its type, with no older message of that type in the queue, arrives whole: the
  receiver's buffer holds the type and the bytes the sender's buffer held, the call returns their number,
  and the messages that were queued before are queued still, in their order.\<close>

theorem msg_roundtrip:
  assumes "msgs_ok tab" and "msg_slot msqid tab = Some i"
    and "do_msgsnd env um msqid msgp msgsz f (tab, st) = (Inr 0, tab1, st1)"
    and "copy_from_user um msgp 8 = Inr tb" and "list_all (\<lambda>m. m_type m \<noteq> sint (word_of_nat (nat_le tb) :: u64)) (mq_msgs (tab ! i))"
    and "do_msgrcv env' msqid buf msgsz (sint (word_of_nat (nat_le tb) :: u64)) f' (um1, tab1, st2) = (Inr n, um', tab', st')"
  shows "n = int msgsz \<and> mq_msgs (tab' ! i) = mq_msgs (tab ! i) \<and>
    copy_from_user um' buf (8 + msgsz) = copy_from_user um msgp (8 + msgsz)"
proof -
  obtain j a tb' bs where S: "msg_slot msqid tab = Some j" "msgsz \<le> MSG_MAX_SIZE" "copy_from_user um msgp (8 + msgsz) = Inr (tb' @ bs)"
    "copy_from_user um msgp 8 = Inr tb'" "length tb' = 8" "length bs = msgsz" "0 < sint (word_of_nat (nat_le tb') :: u64)"
    "tab1 = tab[j := enqueue env \<lparr>m_addr = a, m_type = sint (word_of_nat (nat_le tb') :: u64), m_data = bs\<rparr> (tab ! j)]"
    by (rule msgsnd_message [OF assms(3)]) (rule that)
  have ij: "j = i" and tt: "tb' = tb" using S(1,4) assms(2,4) by simp_all
  define ty where "ty = sint (word_of_nat (nat_le tb) :: u64)"
  define m where "m = \<lparr>m_addr = a, m_type = ty, m_data = bs\<rparr>"
  have il: "i < length tab" "mq_used (tab ! i)" using msg_slot_less [OF assms(2,1)] by simp_all
  have q: "mq_msgs (tab1 ! i) = mq_msgs (tab ! i) @ [m]" using S(8) il ij tt by (simp add: enqueue_def m_def ty_def)
  have "mq_used (tab1 ! i)" using S(8) il ij by (simp add: enqueue_def)
  then have sl: "msg_slot msqid tab1 = Some i" using assms(2) by (auto simp: msg_slot_def split: if_splits)
  have no: "list_all (\<lambda>m. \<not> msg_matches ty m) (mq_msgs (tab ! i))"
    using assms(5) S(7) tt by (auto simp: list_all_iff msg_matches_def ty_def)
  have "msg_matches ty m" using S(7) tt by (simp add: msg_matches_def m_def ty_def)
  then have tw: "takeWhile (\<lambda>m. \<not> msg_matches ty m) (mq_msgs (tab1 ! i)) = mq_msgs (tab ! i)" unfolding q by (rule skip_all [OF no])
  have d: "deliver um1 buf msgsz m = (Inr n, um')" "tab' = tab1[i := dequeue env' (mq_msgs (tab ! i)) m (tab1 ! i)]"
    using assms(6) sl tw q by (auto simp: do_msgrcv_def ty_def [symmetric] Let_def split: if_splits prod.splits)
  have "msgsz < 2 ^ 63" using S(2) by (simp add: MSG_MAX_SIZE_def)
  note D = deliver_ok [OF d(1) _ this]
  have "copy_from_user um' buf (8 + msgsz) = Inr (tb @ bs)"
    using D(2) S(5,6) le_nat_type [of tb] tt by (simp add: m_def ty_def)
  moreover have "mq_msgs (tab' ! i) = mq_msgs (tab ! i)" using d(2) S(8) il by (simp add: dequeue_def)
  ultimately show ?thesis using D(1) S(3,6) tt by (simp add: m_def)
qed

definition one_block :: "unit ipc_env" where
  "one_block = \<lparr>timer_ms = 0, rtc_epoch_sec = 0, caller = Some 4, pg_alloc = \<lambda>_ s. (Some 0x5000, s), pg_free = \<lambda>_ _ s. s\<rparr>"

definition hi :: sysv_msg where
  "hi = \<lparr>m_addr = 0x5000, m_type = 1, m_data = [104, 105]\<rparr>"

lemma hello_type: "copy_from_user hello 0x1000 8 = Inr [1, 0, 0, 0, 0, 0, 0, 0]" and hello_text: "copy_from_user hello 0x1008 2 = Inr [104, 105]"
  by (simp_all add: copy_from_user_def hello_def user_ok_def USER_LIMIT_def upt_conv_Cons)

lemma hello_sent: "do_msgsnd one_block hello 0 0x1000 2 0 (empty_queues, ()) = (Inr 0, empty_queues[0 := enqueue one_block hi empty_queue], ())"
  by (simp add: do_msgsnd_def hello_type hello_text msg_slot_def one_block_def empty_queues_def empty_queue_def SYSV_MSG_MAX_def MSG_MAX_SIZE_def
      MSG_QBYTES_def nat_le_def hi_def Let_def)

lemma hello_received:
  "fst (do_msgrcv one_block 0 0x1000 2 1 0 (hello, empty_queues[0 := enqueue one_block hi empty_queue], ())) = Inr 2"
  by (simp add: do_msgrcv_def msg_slot_def empty_queues_def SYSV_MSG_MAX_def enqueue_def empty_queue_def msg_matches_def hi_def deliver_def
      copy_to_user_def user_ok_def USER_LIMIT_def le_nat_def upt_conv_Cons hello_def Let_def)

theorem msg_roundtrip_witness:
  "\<exists>um' tab' st'. do_msgrcv one_block 0 0x1000 2 1 0 (hello, empty_queues[0 := enqueue one_block hi empty_queue], ()) = (Inr 2, um', tab', st') \<and>
    mq_msgs (tab' ! 0) = [] \<and> copy_from_user um' 0x1000 (8 + 2) = copy_from_user hello 0x1000 (8 + 2)"
proof -
  obtain um' tab' st' where r: "do_msgrcv one_block 0 0x1000 2 1 0 (hello, empty_queues[0 := enqueue one_block hi empty_queue], ()) = (Inr 2, um', tab', st')"
    using hello_received by (metis prod.collapse fst_conv)
  have e: "msg_slot 0 empty_queues = Some 0" "mq_msgs (empty_queues ! 0) = []"
    by (simp_all add: msg_slot_def empty_queues_def empty_queue_def SYSV_MSG_MAX_def)
  have "sint (word_of_nat (nat_le [1, 0, 0, 0, 0, 0, 0, 0]) :: u64) = 1" by (simp add: nat_le_def)
  with r have "do_msgrcv one_block 0 0x1000 2 (sint (word_of_nat (nat_le [1, 0, 0, 0, 0, 0, 0, 0]) :: u64)) 0
      (hello, empty_queues[0 := enqueue one_block hi empty_queue], ()) = (Inr 2, um', tab', st')" by simp
  from msg_roundtrip [OF empty_queues_ok(1) e(1) hello_sent hello_type _ this]
  have "mq_msgs (tab' ! 0) = []" "copy_from_user um' 0x1000 (8 + 2) = copy_from_user hello 0x1000 (8 + 2)" using e(2) by simp_all
  then show ?thesis using r by blast
qed

end
