(* ===== verification/Sysv_Sem.thy ===== *)
theory Sysv_Sem
  imports Sysv
begin

unbundle bit_operations_syntax

section \<open>Semaphores (\<^verbatim>\<open>src/kernel/ipc/sysv_ipc.c\<close>)\<close>

text \<open>
  The table of semaphore sets and the three calls on it. Values are 16-bit words read as signed numbers, as
  the C code has them; additions wrap.
\<close>

definition SYSV_SEM_MAX :: nat where "SYSV_SEM_MAX = 32"
definition SYSV_NSEMS_MAX :: nat where "SYSV_NSEMS_MAX = 64"

record sembuf =
  sem_num :: nat
  sem_op :: u16
  sem_flg :: u16

record semset =
  ss_used :: bool
  ss_key :: u32
  ss_nsems :: nat
  ss_vals :: "u16 list"
  ss_pids :: "u32 list"
  ss_otime :: u64
  ss_ctime :: u64
  ss_mode :: u32
  ss_uid :: u32
  ss_gid :: u32
  ss_cuid :: u32
  ss_cgid :: u32

text \<open>Slots beyond \<open>nsems\<close> of the two arrays keep what an earlier set left there.\<close>

definition do_semget :: "'s ipc_env \<Rightarrow> u32 \<Rightarrow> int \<Rightarrow> int \<Rightarrow> semset list \<Rightarrow> nat result \<times> semset list" where
  "do_semget env key nsems flags tab =
     (if nsems < 0 \<or> int SYSV_NSEMS_MAX < nsems then (Inl EINVAL, tab)
      else case ipc_lookup ss_used ss_key key flags tab of
        Some r \<Rightarrow> (r, tab)
      | None \<Rightarrow>
         let n = (if nsems = 0 then 1 else nat nsems) in
         (case first_slot (\<lambda>s. \<not> ss_used s) tab of
            None \<Rightarrow> (Inl ENOSPC, tab)
          | Some i \<Rightarrow>
              (Inr i, tab[i := \<lparr>ss_used = True, ss_key = key, ss_nsems = n,
                 ss_vals = replicate n 0 @ drop n (ss_vals (tab ! i)), ss_pids = replicate n 0 @ drop n (ss_pids (tab ! i)),
                 ss_otime = 0, ss_ctime = current_time_sec env, ss_mode = word_of_int (flags AND 0x1FF),
                 ss_uid = 0, ss_gid = 0, ss_cuid = 0, ss_cgid = 0\<rparr>])))"

definition sem_slot :: "int \<Rightarrow> semset list \<Rightarrow> nat option" where
  "sem_slot semid tab =
     (if semid < 0 \<or> int SYSV_SEM_MAX \<le> semid then None else if \<not> ss_used (tab ! nat semid) then None else Some (nat semid))"

definition sembuf_of :: "u8 list \<Rightarrow> sembuf" where
  "sembuf_of bs = \<lparr>sem_num = field 0 2 bs, sem_op = word_of_nat (field 2 2 bs), sem_flg = word_of_nat (field 4 2 bs)\<rparr>"

text \<open>The trial run on a copy of the values: the first operation that cannot proceed ends it.\<close>

fun sem_try :: "sembuf list \<Rightarrow> u16 list \<Rightarrow> u16 list result" where
  "sem_try [] tmp = Inr tmp"
| "sem_try (sb # sops) tmp =
     (let idx = sem_num sb; op = sem_op sb in
      if 0 < sint op then sem_try sops (tmp[idx := tmp ! idx + op])
      else if sint op < 0 then
        (if sint (tmp ! idx) + sint op < 0 then Inl EAGAIN else sem_try sops (tmp[idx := tmp ! idx + op]))
      else if tmp ! idx \<noteq> 0 then Inl EAGAIN
      else sem_try sops tmp)"

definition sem_apply :: "u32 \<Rightarrow> u16 list \<Rightarrow> sembuf list \<Rightarrow> semset \<Rightarrow> semset" where
  "sem_apply pid tmp sops s =
     fold (\<lambda>sb s. s\<lparr>ss_vals := (ss_vals s)[sem_num sb := tmp ! sem_num sb], ss_pids := (ss_pids s)[sem_num sb := pid]\<rparr>) sops s"

definition do_semop :: "'s ipc_env \<Rightarrow> umem \<Rightarrow> int \<Rightarrow> nat \<Rightarrow> nat \<Rightarrow> semset list \<Rightarrow> int result \<times> semset list" where
  "do_semop env um semid usops nsops tab =
     (if semid < 0 \<or> int SYSV_SEM_MAX \<le> semid then (Inl EINVAL, tab)
      else if nsops = 0 \<or> 32 < nsops then (Inl EINVAL, tab)
      else case copy_from_user um usops (nsops * 6) of
        Inl e \<Rightarrow> (Inl e, tab)
      | Inr bs \<Rightarrow>
         case sem_slot semid tab of
           None \<Rightarrow> (Inl EINVAL, tab)
         | Some i \<Rightarrow>
            let s = tab ! i; sops = map (\<lambda>k. sembuf_of (drop (6 * k) bs)) [0..<nsops] in
            if list_ex (\<lambda>sb. ss_nsems s \<le> sem_num sb) sops then (Inl EFBIG, tab)
            else case sem_try sops (take (ss_nsems s) (ss_vals s)) of
              Inl e \<Rightarrow> (Inl e, tab)
            | Inr tmp \<Rightarrow>
                (Inr 0, tab[i := (sem_apply (current_pid env) tmp sops s)\<lparr>ss_otime := current_time_sec env\<rparr>]))"

definition semid_ds_bytes :: "semset \<Rightarrow> u8 list" where
  "semid_ds_bytes s =
     ipc_perm_bytes (ss_key s) (ss_uid s) (ss_gid s) (ss_cuid s) (ss_cgid s) (ss_mode s) @
     le_nat 8 (unat (ss_otime s)) @ replicate 8 0 @ le_nat 8 (unat (ss_ctime s)) @ replicate 8 0 @
     le_nat 2 (ss_nsems s) @ replicate 6 0 @ replicate 16 0"

definition do_semctl :: "'s ipc_env \<Rightarrow> int \<Rightarrow> int \<Rightarrow> int \<Rightarrow> int \<Rightarrow> umem \<times> semset list \<Rightarrow> int result \<times> umem \<times> semset list" where
  "do_semctl env semid semnum cmd0 arg4 x =
     (let (um, tab) = x; cmd = cmd0 AND NOT IPC_64 in
      case sem_slot semid tab of
        None \<Rightarrow> (Inl EINVAL, x)
      | Some i \<Rightarrow>
         let s = tab ! i; bad = semnum < 0 \<or> int (ss_nsems s) \<le> semnum; ubuf = nat (arg4 mod 2 ^ 64) in
         if cmd = IPC_RMID then (Inr 0, um, tab[i := s\<lparr>ss_used := False\<rparr>])
         else if cmd = GETVAL then (if bad then Inl EINVAL else Inr (sint (ss_vals s ! nat semnum)), x)
         else if cmd = SETVAL then
           (if bad then (Inl EINVAL, x)
            else (Inr 0, um, tab[i := s\<lparr>ss_vals := (ss_vals s)[nat semnum := word_of_int arg4], ss_ctime := current_time_sec env\<rparr>]))
         else if cmd = GETPID then (if bad then Inl EINVAL else Inr (sint (ss_pids s ! nat semnum)), x)
         else if cmd = GETNCNT then (if bad then Inl EINVAL else Inr 0, x)
         else if cmd = GETZCNT then (if bad then Inl EINVAL else Inr 0, x)
         else if cmd = IPC_STAT then
           (if ubuf = 0 then (Inl EFAULT, x)
            else let (r, um1) = copy_to_user um ubuf (semid_ds_bytes s) in
              (case r of Inl e \<Rightarrow> Inl e | Inr _ \<Rightarrow> Inr 0, um1, tab))
         else if cmd = IPC_SET then
           (if ubuf = 0 then (Inl EFAULT, x)
            else case copy_from_user um ubuf 104 of
              Inl e \<Rightarrow> (Inl e, x)
            | Inr ds \<Rightarrow>
               (Inr 0, um, tab[i := s\<lparr>ss_uid := word_of_nat (field 4 4 ds), ss_gid := word_of_nat (field 8 4 ds),
                  ss_mode := word_of_nat (field 20 4 ds) AND 0x1FF, ss_ctime := current_time_sec env\<rparr>]))
         else (Inl EINVAL, x))"

subsection \<open>All or nothing\<close>

text \<open>The effect of a list of operations on one semaphore: their sum, in 16 bits.\<close>

definition ops_sum :: "nat \<Rightarrow> sembuf list \<Rightarrow> u16" where
  "ops_sum j sops = sum_list (map sem_op (filter (\<lambda>sb. sem_num sb = j) sops))"

lemma ops_sum_Cons: "ops_sum j (sb # sops) = (if sem_num sb = j then sem_op sb + ops_sum j sops else ops_sum j sops)"
  by (simp add: ops_sum_def)

lemma sem_try_sum:
  "sem_try sops tmp = Inr tmp' \<Longrightarrow> length tmp' = length tmp \<and> (\<forall>j<length tmp. tmp' ! j = tmp ! j + ops_sum j sops)"
proof (induction sops tmp rule: sem_try.induct)
  case (2 sb sops tmp)
  have z: "sem_op sb = 0" if "\<not> 0 < sint (sem_op sb)" "\<not> sint (sem_op sb) < 0"
    using that by (metis linorder_neqE_linordered_idom signed_0 signed_word_eqI)
  show ?case
  proof (cases "0 < sint (sem_op sb) \<or> sint (sem_op sb) < 0")
    case True
    then have "sem_try sops (tmp[sem_num sb := tmp ! sem_num sb + sem_op sb]) = Inr tmp'"
      using "2.prems" by (auto simp: Let_def split: if_splits)
    then have "length tmp' = length tmp \<and>
        (\<forall>j<length tmp. tmp' ! j = tmp[sem_num sb := tmp ! sem_num sb + sem_op sb] ! j + ops_sum j sops)"
      using 2 True "2.prems" by (auto simp: Let_def split: if_splits)
    then show ?thesis by (auto simp: ops_sum_Cons nth_list_update)
  next
    case False
    then have s: "sem_try sops tmp = Inr tmp'" using "2.prems" by (auto simp: Let_def split: if_splits)
    have "length tmp' = length tmp \<and> (\<forall>j<length tmp. tmp' ! j = tmp ! j + ops_sum j sops)"
      by (rule "2.IH"(3)) (use False "2.prems" s in \<open>auto simp: Let_def split: if_splits\<close>)
    then show ?thesis using z False by (simp add: ops_sum_Cons)
  qed
qed (simp add: ops_sum_def)

lemma sem_apply_fields:
  "ss_vals (sem_apply pid tmp sops s) = fold (\<lambda>sb v. v[sem_num sb := tmp ! sem_num sb]) sops (ss_vals s)"
  "ss_pids (sem_apply pid tmp sops s) = fold (\<lambda>sb v. v[sem_num sb := pid]) sops (ss_pids s)"
  "ss_nsems (sem_apply pid tmp sops s) = ss_nsems s" "ss_used (sem_apply pid tmp sops s) = ss_used s"
  "ss_key (sem_apply pid tmp sops s) = ss_key s"
  by (induction sops arbitrary: s) (simp_all add: sem_apply_def)

lemma fold_update_nth:
  "j < length v \<Longrightarrow> fold (\<lambda>sb v. v[g sb := f (g sb)]) xs v ! j = (if j \<in> g ` set xs then f j else v ! j)"
  by (induction xs arbitrary: v) (auto simp: nth_list_update)

lemma length_fold_update [simp]: "length (fold (\<lambda>sb v. v[g sb := f (g sb)]) xs v) = length v"
  by (induction xs arbitrary: v) simp_all

lemma ops_sum_absent: "j \<notin> sem_num ` set sops \<Longrightarrow> ops_sum j sops = 0"
  by (induction sops) (auto simp: ops_sum_def)

definition sem_ok :: "semset \<Rightarrow> bool" where
  "sem_ok s \<longleftrightarrow> ss_nsems s \<le> SYSV_NSEMS_MAX \<and> length (ss_vals s) = SYSV_NSEMS_MAX \<and> length (ss_pids s) = SYSV_NSEMS_MAX"

definition sems_ok :: "semset list \<Rightarrow> bool" where
  "sems_ok tab \<longleftrightarrow> length tab = SYSV_SEM_MAX \<and> list_all sem_ok tab"

lemma sem_apply_sum:
  assumes "sem_ok s" and "\<not> list_ex (\<lambda>sb. ss_nsems s \<le> sem_num sb) sops" and "sem_try sops (take (ss_nsems s) (ss_vals s)) = Inr tmp"
  shows "ss_vals (sem_apply pid tmp sops s) = map (\<lambda>j. ss_vals s ! j + ops_sum j sops) [0..<SYSV_NSEMS_MAX]"
    and "sem_ok (sem_apply pid tmp sops s)"
proof -
  have n: "ss_nsems s \<le> SYSV_NSEMS_MAX" "length (ss_vals s) = SYSV_NSEMS_MAX" using assms(1) by (simp_all add: sem_ok_def)
  have r: "sem_num sb < ss_nsems s" if "sb \<in> set sops" for sb using assms(2) that by (auto simp: list_ex_iff)
  note T = sem_try_sum [OF assms(3)]
  show "ss_vals (sem_apply pid tmp sops s) = map (\<lambda>j. ss_vals s ! j + ops_sum j sops) [0..<SYSV_NSEMS_MAX]"
  proof (rule nth_equalityI)
    fix j assume "j < length (ss_vals (sem_apply pid tmp sops s))"
    then have j: "j < SYSV_NSEMS_MAX" using n by (simp add: sem_apply_fields)
    have v: "ss_vals (sem_apply pid tmp sops s) ! j = (if j \<in> sem_num ` set sops then tmp ! j else ss_vals s ! j)"
      using fold_update_nth [of j "ss_vals s" sem_num "(!) tmp" sops] j n by (simp add: sem_apply_fields)
    show "ss_vals (sem_apply pid tmp sops s) ! j = map (\<lambda>j. ss_vals s ! j + ops_sum j sops) [0..<SYSV_NSEMS_MAX] ! j"
    proof (cases "j \<in> sem_num ` set sops")
      case True
      then have "j < ss_nsems s" using r by auto
      then show ?thesis using True v T j n by simp
    qed (use v j ops_sum_absent in simp)
  qed (use n in \<open>simp add: sem_apply_fields\<close>)
  show "sem_ok (sem_apply pid tmp sops s)"
    using assms(1) length_fold_update [of sem_num "\<lambda>_. pid" sops "ss_pids s"] by (simp add: sem_ok_def sem_apply_fields)
qed

lemma sem_slot_less: "sem_slot semid tab = Some i \<Longrightarrow> i < SYSV_SEM_MAX \<and> ss_used (tab ! i)"
  by (auto simp: sem_slot_def split: if_splits)

text \<open>C30: A semaphore call is all or nothing: if it reports an error, no value of any set has changed; otherwise
  every semaphore of the named set has changed by exactly the sum of the operations on it, in 16 bits,
  and no other set has changed.\<close>

theorem semop_atomic:
  assumes "sems_ok tab"
  shows "case do_semop env um semid usops nsops tab of
      (Inl e, tab') \<Rightarrow> tab' = tab
    | (Inr r, tab') \<Rightarrow> \<exists>i bs s'. sem_slot semid tab = Some i \<and> copy_from_user um usops (nsops * 6) = Inr bs \<and>
        tab' = tab[i := s'] \<and> sems_ok tab' \<and>
        ss_vals s' = map (\<lambda>j. ss_vals (tab ! i) ! j + ops_sum j (map (\<lambda>k. sembuf_of (drop (6 * k) bs)) [0..<nsops])) [0..<SYSV_NSEMS_MAX]"
proof -
  obtain r tab' where d: "do_semop env um semid usops nsops tab = (r, tab')" by (rule prod.exhaust)
  show ?thesis
  proof (cases r)
    case (Inl e)
    then show ?thesis using d by (auto simp: do_semop_def Let_def split: if_splits sum.splits option.splits)
  next
    case (Inr v)
    then obtain bs i tmp where
      c: "copy_from_user um usops (nsops * 6) = Inr bs" and i: "sem_slot semid tab = Some i" and
      b: "\<not> list_ex (\<lambda>sb. ss_nsems (tab ! i) \<le> sem_num sb) (map (\<lambda>k. sembuf_of (drop (6 * k) bs)) [0..<nsops])" and
      t: "sem_try (map (\<lambda>k. sembuf_of (drop (6 * k) bs)) [0..<nsops]) (take (ss_nsems (tab ! i)) (ss_vals (tab ! i))) = Inr tmp" and
      e: "tab' = tab[i := (sem_apply (current_pid env) tmp (map (\<lambda>k. sembuf_of (drop (6 * k) bs)) [0..<nsops]) (tab ! i))\<lparr>ss_otime := current_time_sec env\<rparr>]"
      using d unfolding do_semop_def Let_def by (auto split: if_splits sum.splits option.splits)
    have "i < length tab" using sem_slot_less [OF i] assms by (simp add: sems_ok_def)
    then have ok: "sem_ok (tab ! i)" using assms by (simp add: sems_ok_def list_all_length)
    note A = sem_apply_sum [OF ok b t, of "current_pid env"]
    have "sem_ok ((sem_apply (current_pid env) tmp (map (\<lambda>k. sembuf_of (drop (6 * k) bs)) [0..<nsops]) (tab ! i))\<lparr>ss_otime := current_time_sec env\<rparr>)"
      using A(2) by (simp add: sem_ok_def)
    then have "sems_ok tab'" unfolding e using assms by (simp add: sems_ok_def list_all_update)
    then show ?thesis using d Inr c i e A(1) by auto
  qed
qed

text \<open>A table with one set of two semaphores, and an array of two operations in user memory.\<close>

definition quiet_env :: "unit ipc_env" where
  "quiet_env = \<lparr>timer_ms = 5000, rtc_epoch_sec = 0, caller = Some 7, pg_alloc = \<lambda>_ s. (None, s), pg_free = \<lambda>_ _ s. s\<rparr>"

definition two_sems :: "semset list" where
  "two_sems = replicate 32 \<lparr>ss_used = True, ss_key = 5, ss_nsems = 2, ss_vals = replicate 64 3, ss_pids = replicate 64 0, ss_otime = 0,
     ss_ctime = 0, ss_mode = 0, ss_uid = 0, ss_gid = 0, ss_cuid = 0, ss_cgid = 0\<rparr>"

definition sem_bytes :: umem where
  "sem_bytes a = (if 0x1000 \<le> a \<and> a < 0x100C then Some (True, [0, 0, 1, 0, 0, 0, 1, 0, 0xFE, 0xFF, 0, 0] ! (a - 0x1000)) else None)"

lemma two_sems_ok: "sems_ok two_sems"
  by (simp add: sems_ok_def two_sems_def list_all_iff sem_ok_def SYSV_SEM_MAX_def SYSV_NSEMS_MAX_def)

theorem semop_atomic_witness:
  "case do_semop quiet_env sem_bytes 3 0x1000 2 two_sems of
      (Inl e, tab') \<Rightarrow> tab' = two_sems
    | (Inr r, tab') \<Rightarrow> \<exists>i bs s'. sem_slot 3 two_sems = Some i \<and> copy_from_user sem_bytes 0x1000 (2 * 6) = Inr bs \<and>
        tab' = two_sems[i := s'] \<and> sems_ok tab' \<and>
        ss_vals s' = map (\<lambda>j. ss_vals (two_sems ! i) ! j + ops_sum j (map (\<lambda>k. sembuf_of (drop (6 * k) bs)) [0..<2])) [0..<SYSV_NSEMS_MAX]"
  by (rule semop_atomic [OF two_sems_ok])

text \<open>The trial run does not check the upper end of the range: a value of 32767 raised by one is stored as -32768.\<close>

lemma semop_overflow:
  assumes "tmp ! sem_num sb = 0x7FFF" and "sem_op sb = 1"
  shows "sem_try [sb] tmp = Inr (tmp[sem_num sb := 0x8000])" and "sint (0x8000 :: u16) = - 32768"
  using assms by (simp_all add: Let_def)

end
