(* ===== verification/Sysv_Shm.thy ===== *)
theory Sysv_Shm
  imports Sysv Mmap Page_Blocks Page_Table_Props
begin

unbundle bit_operations_syntax

section \<open>Shared memory (\<^verbatim>\<open>src/kernel/ipc/sysv_ipc.c\<close>)\<close>

















subsection \<open>Attaching through the page tables\<close>




subsection \<open>Properties\<close>












end
