(* ===== verification/Fd_Table.thy ===== *)
theory Fd_Table
  imports Bitmap Page_Blocks
begin

unbundle bit_operations_syntax

section \<open>Descriptor tables (\<^verbatim>\<open>include/kernel/event/fd.h\<close>, \<^verbatim>\<open>src/kernel/proc/process.c\<close>)\<close>

text \<open>
  A table has a directory of leaf pages with 170 entries each, and a bitmap with a set bit for every free
  descriptor. Directory, leaves and bitmap are page blocks; a null pointer is \<open>None\<close>.
  Pages come zeroed, so a new leaf has entries of type \<^verbatim>\<open>FD_NONE\<close>. A table is changed by one thread at a time. Indices stay far below the range of \<^verbatim>\<open>int\<close>, so they are natural
  numbers; the limit of a process is at most \<^verbatim>\<open>FD_CEILING\<close>, to which \<^verbatim>\<open>do_prlimit64\<close> clips it.
\<close>

definition FD_NONE :: int where "FD_NONE = 0"
definition FD_SERIAL :: int where "FD_SERIAL = 1"
definition FD_PIPE :: int where "FD_PIPE = 2"
definition FD_SOCKET :: int where "FD_SOCKET = 3"
definition FD_DEVICE :: int where "FD_DEVICE = 4"
definition FD_FILE :: int where "FD_FILE = 5"
definition FD_EPOLL :: int where "FD_EPOLL = 7"
definition FD_EVENTFD :: int where "FD_EVENTFD = 8"
definition FD_TIMERFD :: int where "FD_TIMERFD = 9"
definition FD_INOTIFY :: int where "FD_INOTIFY = 10"
definition FD_PTY_SLAVE :: int where "FD_PTY_SLAVE = 12"
definition FD_UNIX_SOCK :: int where "FD_UNIX_SOCK = 13"
definition FD_INIT_SLOTS :: nat where "FD_INIT_SLOTS = 64"
definition FD_DEFAULT_NOFILE :: nat where "FD_DEFAULT_NOFILE = 1024"
definition FD_LEAF_PER_PAGE :: nat where "FD_LEAF_PER_PAGE = 170"
definition FD_CEILING :: nat where "FD_CEILING = 1048576"

record fd_entry =
  fd_type :: int
  fd_obj :: nat
  fd_flags :: int

record fd_table =
  dir_ptr :: "nat option"
  entries_dir :: "(nat \<times> fd_entry list) option list"
  leaf_count :: nat
  bm_ptr :: "nat option"
  free_bitmap :: "u64 list"
  max_slots :: nat
  max_fd :: nat
  refcount :: int

record 's page_ops =
  po_alloc :: "int \<Rightarrow> 's \<Rightarrow> nat option \<times> 's"
  po_free :: "nat \<Rightarrow> int \<Rightarrow> 's \<Rightarrow> 's"

abbreviation dir_capacity :: "fd_table \<Rightarrow> nat" where
  "dir_capacity fdt \<equiv> length (entries_dir fdt)"

subsection \<open>Entries and bitmap\<close>

definition fd_leaf :: "fd_table \<Rightarrow> nat \<Rightarrow> (nat \<times> fd_entry list) option" where
  "fd_leaf fdt fd =
     (let leaf = fd div FD_LEAF_PER_PAGE in if dir_capacity fdt \<le> leaf then None else entries_dir fdt ! leaf)"

definition fd_entry_at :: "fd_table \<Rightarrow> nat \<Rightarrow> fd_entry option" where
  "fd_entry_at fdt fd = map_option (\<lambda>page. snd page ! (fd mod FD_LEAF_PER_PAGE)) (fd_leaf fdt fd)"

definition put_entry :: "fd_table \<Rightarrow> nat \<Rightarrow> fd_entry \<Rightarrow> fd_table" where
  "put_entry fdt fd e =
     (case fd_leaf fdt fd of
        None \<Rightarrow> fdt
      | Some (a, es) \<Rightarrow>
          fdt\<lparr>entries_dir := (entries_dir fdt)[fd div FD_LEAF_PER_PAGE := Some (a, es[fd mod FD_LEAF_PER_PAGE := e])]\<rparr>)"

definition fd_mark_used :: "fd_table \<Rightarrow> nat \<Rightarrow> fd_table" where
  "fd_mark_used fdt fd = fdt\<lparr>free_bitmap := bm_clear (free_bitmap fdt) fd\<rparr>"

definition fd_mark_free :: "fd_table \<Rightarrow> nat \<Rightarrow> fd_table" where
  "fd_mark_free fdt fd = fdt\<lparr>free_bitmap := bm_set (free_bitmap fdt) fd\<rparr>"

text \<open>The number of trailing zeros of a word that is not zero.\<close>

definition ctz :: "u64 \<Rightarrow> nat" where
  "ctz w = (case find (bit w) [0..<64] of Some b \<Rightarrow> b | None \<Rightarrow> 64)"

function fd_scan :: "u64 list \<Rightarrow> nat \<Rightarrow> nat \<Rightarrow> u64 \<Rightarrow> nat option" where
  "fd_scan bm nwords word w =
     (if word < nwords then
        if w \<noteq> 0 then Some (word * 64 + ctz w)
        else fd_scan bm nwords (Suc word) (if Suc word < nwords then bm ! Suc word else w)
      else None)"
  by auto
termination by (relation "measure (\<lambda>(bm, nwords, word, w). nwords - word)") auto

declare fd_scan.simps [simp del]

definition fd_bitmap_alloc_slots :: "nat \<Rightarrow> nat" where
  "fd_bitmap_alloc_slots n = (n + 63) div 64 * 64"

definition fd_find_free :: "fd_table \<Rightarrow> nat \<Rightarrow> nat option" where
  "fd_find_free fdt minfd =
     (if max_slots fdt \<le> minfd then None
      else case fd_scan (free_bitmap fdt) (fd_bitmap_alloc_slots (max_slots fdt) div 64) (minfd div 64)
                  (free_bitmap fdt ! (minfd div 64) AND push_bit (minfd mod 64) (- 1)) of
        None \<Rightarrow> None
      | Some fd \<Rightarrow> if fd < max_slots fdt then Some fd else None)"

subsection \<open>Growing\<close>

definition fd_bitmap_pages :: "nat \<Rightarrow> int" where
  "fd_bitmap_pages n = int (((if n div 64 = 0 then 1 else n div 64) * 8 + 4095) div 4096)"

text \<open>Doubling until at least the wanted number; the loops start at one or more.\<close>

function fd_double :: "nat \<Rightarrow> nat \<Rightarrow> nat" where
  "fd_double c n = (if 0 < c \<and> c < n then fd_double (c * 2) n else c)"
  by auto
termination by (relation "measure (\<lambda>(c, n). n - c)") auto

declare fd_double.simps [simp del]

definition fd_dir_pages :: "nat \<Rightarrow> int" where
  "fd_dir_pages leaf_slots = (let n = (leaf_slots * 8 + 4095) div 4096 in int (fd_double 1 (if n < 1 then 1 else n)))"

definition fd_round_slots :: "nat \<Rightarrow> nat" where
  "fd_round_slots s = (s + FD_LEAF_PER_PAGE - 1) div FD_LEAF_PER_PAGE * FD_LEAF_PER_PAGE"

definition fd_dir_grow :: "'s page_ops \<Rightarrow> nat \<Rightarrow> fd_table \<times> 's \<Rightarrow> unit result \<times> fd_table \<times> 's" where
  "fd_dir_grow pg need x =
     (let (fdt, st) = x in
      if need \<le> dir_capacity fdt then (Inr (), x)
      else let new_cap = fd_double (if dir_capacity fdt \<noteq> 0 then dir_capacity fdt else 1) need in
        case po_alloc pg (fd_dir_pages new_cap) st of
          (None, st1) \<Rightarrow> (Inl ENOMEM, fdt, st1)
        | (Some nd, st1) \<Rightarrow>
            (Inr (), fdt\<lparr>dir_ptr := Some nd, entries_dir := entries_dir fdt @ replicate (new_cap - dir_capacity fdt) None\<rparr>,
             case dir_ptr fdt of Some od \<Rightarrow> po_free pg od (fd_dir_pages (dir_capacity fdt)) st1 | None \<Rightarrow> st1))"

definition fd_new_bitmap :: "fd_table \<Rightarrow> nat \<Rightarrow> u64 list" where
  "fd_new_bitmap fdt new_slots =
     (let alloc_slots = fd_bitmap_alloc_slots new_slots;
          nb0 = replicate (alloc_slots div 64) (- 1);
          nb1 = (if bm_ptr fdt \<noteq> None then fold (\<lambda>b nb. if \<not> bm_test (free_bitmap fdt) b then bm_clear nb b else nb) [0..<max_slots fdt] nb0
                 else nb0)
      in fold (\<lambda>b nb. bm_clear nb b) [new_slots..<alloc_slots] nb1)"

definition fd_bitmap_grow :: "'s page_ops \<Rightarrow> nat \<Rightarrow> fd_table \<times> 's \<Rightarrow> unit result \<times> fd_table \<times> 's" where
  "fd_bitmap_grow pg new_slots x =
     (let (fdt, st) = x in
      if new_slots \<le> max_slots fdt then (Inr (), x)
      else case po_alloc pg (fd_bitmap_pages (fd_bitmap_alloc_slots new_slots)) st of
        (None, st1) \<Rightarrow> (Inl ENOMEM, fdt, st1)
      | (Some nb, st1) \<Rightarrow>
          (Inr (), fdt\<lparr>bm_ptr := Some nb, free_bitmap := fd_new_bitmap fdt new_slots, max_slots := new_slots\<rparr>,
           case bm_ptr fdt of Some ob \<Rightarrow> po_free pg ob (fd_bitmap_pages (fd_bitmap_alloc_slots (max_slots fdt))) st1 | None \<Rightarrow> st1))"

definition fd_leaf_alloc :: "'s page_ops \<Rightarrow> nat \<Rightarrow> fd_table \<times> 's \<Rightarrow> unit result \<times> fd_table \<times> 's" where
  "fd_leaf_alloc pg fd x =
     (let (fdt, st) = x; li = fd div FD_LEAF_PER_PAGE in
      if entries_dir fdt ! li \<noteq> None then (Inr (), x)
      else case po_alloc pg 1 st of
        (None, st1) \<Rightarrow> (Inl ENOMEM, fdt, st1)
      | (Some page, st1) \<Rightarrow>
          (Inr (), fdt\<lparr>entries_dir := (entries_dir fdt)[li := Some (page, replicate FD_LEAF_PER_PAGE \<lparr>fd_type = 0, fd_obj = 0, fd_flags = 0\<rparr>)],
                      leaf_count := leaf_count fdt + 1\<rparr>, st1))"

definition fd_grow_slots :: "fd_table \<Rightarrow> nat \<Rightarrow> nat result" where
  "fd_grow_slots fdt min_slots =
     (if FD_CEILING < min_slots then Inl EMFILE
      else let n1 = fd_double (if max_slots fdt \<noteq> 0 then max_slots fdt else FD_INIT_SLOTS) min_slots;
               n2 = (if FD_CEILING < n1 then FD_CEILING else n1) in
        if n2 < min_slots then Inl EMFILE
        else let n3 = fd_round_slots n2 in Inr (if FD_CEILING < n3 then FD_CEILING else n3))"

definition fd_table_grow :: "'s page_ops \<Rightarrow> nat \<Rightarrow> fd_table \<times> 's \<Rightarrow> unit result \<times> fd_table \<times> 's" where
  "fd_table_grow pg min_slots x =
     (case fd_grow_slots (fst x) min_slots of
        Inl e \<Rightarrow> (Inl e, x)
      | Inr new_slots \<Rightarrow>
          let need_leaves = (new_slots + FD_LEAF_PER_PAGE - 1) div FD_LEAF_PER_PAGE in
          (case fd_dir_grow pg need_leaves x of
             (Inl e, x1) \<Rightarrow> (Inl e, x1)
           | (Inr _, x1) \<Rightarrow> fd_bitmap_grow pg new_slots x1))"

definition empty_fds :: fd_table where
  "empty_fds = \<lparr>dir_ptr = None, entries_dir = [], leaf_count = 0, bm_ptr = None, free_bitmap = [], max_slots = 0, max_fd = 0, refcount = 0\<rparr>"

definition fd_reset :: "fd_table \<Rightarrow> fd_table" where
  "fd_reset fdt = empty_fds\<lparr>refcount := refcount fdt\<rparr>"

definition fd_table_alloc_empty :: "'s page_ops \<Rightarrow> nat \<Rightarrow> fd_table \<times> 's \<Rightarrow> unit result \<times> fd_table \<times> 's" where
  "fd_table_alloc_empty pg n x = fd_table_grow pg (if n < FD_INIT_SLOTS then FD_INIT_SLOTS else n) (fd_reset (fst x), snd x)"

text \<open>The first three descriptors go to the terminal \<open>pty\<close> of the boot console, or to the serial port without one.\<close>

definition fd_stdio :: "int \<Rightarrow> int \<Rightarrow> fd_entry" where
  "fd_stdio pty mode =
     (if 0 \<le> pty then \<lparr>fd_type = FD_PTY_SLAVE, fd_obj = nat pty, fd_flags = mode\<rparr> else \<lparr>fd_type = FD_SERIAL, fd_obj = 0, fd_flags = mode\<rparr>)"

definition fd_table_init :: "'s page_ops \<Rightarrow> int \<Rightarrow> fd_table \<times> 's \<Rightarrow> unit result \<times> fd_table \<times> 's" where
  "fd_table_init pg pty x =
     (case fd_table_grow pg FD_INIT_SLOTS (fd_reset (fst x), snd x) of
        (Inl _, x1) \<Rightarrow> (Inl ENOMEM, x1)
      | (Inr _, x1) \<Rightarrow>
         (case fd_leaf_alloc pg 0 x1 of
            (Inl _, x2) \<Rightarrow> (Inl ENOMEM, x2)
          | (Inr _, (fdt, st)) \<Rightarrow>
             let t = put_entry (put_entry (put_entry fdt 0 (fd_stdio pty 0)) 1 (fd_stdio pty 1)) 2 (fd_stdio pty 1);
                 t' = fd_mark_used (fd_mark_used (fd_mark_used t 0) 1) 2
             in (Inr (), t'\<lparr>max_fd := 3\<rparr>, st)))"

definition fd_table_free :: "'s page_ops \<Rightarrow> fd_table \<times> 's \<Rightarrow> fd_table \<times> 's" where
  "fd_table_free pg x =
     (let (fdt, st) = x;
          st1 = (case dir_ptr fdt of
                   None \<Rightarrow> st
                 | Some d \<Rightarrow> po_free pg d (fd_dir_pages (dir_capacity fdt))
                     (fold (\<lambda>l s. case l of None \<Rightarrow> s | Some (a, _) \<Rightarrow> po_free pg a 1 s) (entries_dir fdt) st));
          st2 = (case bm_ptr fdt of
                   None \<Rightarrow> st1
                 | Some b \<Rightarrow> po_free pg b (fd_bitmap_pages (fd_bitmap_alloc_slots (max_slots fdt))) st1)
      in (fd_reset fdt, st2))"

subsection \<open>Using descriptors\<close>

definition fd_effective_nofile :: "nat option \<Rightarrow> nat" where
  "fd_effective_nofile rlim = (case rlim of None \<Rightarrow> FD_DEFAULT_NOFILE | Some n \<Rightarrow> if n \<noteq> 0 then n else FD_DEFAULT_NOFILE)"

definition fd_ensure_capacity :: "'s page_ops \<Rightarrow> nat \<Rightarrow> nat \<Rightarrow> fd_table \<times> 's \<Rightarrow> unit result \<times> fd_table \<times> 's" where
  "fd_ensure_capacity pg min_slots nofile x =
     (if min_slots \<le> max_slots (fst x) then (Inr (), x)
      else let cap = (if nofile < FD_CEILING then nofile else FD_CEILING);
               m = (if cap < min_slots then cap else min_slots) in
        if m \<le> max_slots (fst x) then (Inl EMFILE, x) else fd_table_grow pg m x)"

text \<open>What the three installing calls end with.\<close>

definition fd_put :: "'s page_ops \<Rightarrow> nat \<Rightarrow> fd_entry \<Rightarrow> fd_table \<times> 's \<Rightarrow> nat result \<times> fd_table \<times> 's" where
  "fd_put pg fd e x =
     (case fd_leaf_alloc pg fd x of
        (Inl _, x1) \<Rightarrow> (Inl ENOMEM, x1)
      | (Inr _, (fdt, st)) \<Rightarrow>
         let t = fd_mark_used (put_entry fdt fd e) fd
         in (Inr fd, if max_fd t \<le> fd then t\<lparr>max_fd := fd + 1\<rparr> else t, st))"

text \<open>A free descriptor below the limit in the table as it is.\<close>

definition fd_lowest :: "fd_table \<Rightarrow> nat \<Rightarrow> nat \<Rightarrow> nat option" where
  "fd_lowest fdt minfd nofile =
     (case fd_find_free fdt minfd of None \<Rightarrow> None | Some fd \<Rightarrow> if nofile \<le> fd then None else Some fd)"

definition fd_alloc :: "'s page_ops \<Rightarrow> nat option \<Rightarrow> int \<Rightarrow> nat \<Rightarrow> int \<Rightarrow> fd_table \<times> 's \<Rightarrow> nat result \<times> fd_table \<times> 's" where
  "fd_alloc pg rlim ty obj flags x =
     (let nofile = fd_effective_nofile rlim; e = \<lparr>fd_type = ty, fd_obj = obj, fd_flags = flags\<rparr> in
      case fd_lowest (fst x) 0 nofile of
        Some fd \<Rightarrow> fd_put pg fd e x
      | None \<Rightarrow>
         (case fd_ensure_capacity pg (if max_slots (fst x) \<noteq> 0 then max_slots (fst x) + 1 else FD_INIT_SLOTS) nofile x of
            (Inl err, x1) \<Rightarrow> (Inl err, x1)
          | (Inr _, x1) \<Rightarrow>
             (case fd_lowest (fst x1) 0 nofile of None \<Rightarrow> (Inl EMFILE, x1) | Some fd \<Rightarrow> fd_put pg fd e x1)))"

definition fd_dup_at :: "'s page_ops \<Rightarrow> nat option \<Rightarrow> int \<Rightarrow> fd_entry \<Rightarrow> int \<Rightarrow> fd_table \<times> 's \<Rightarrow> nat result \<times> fd_table \<times> 's" where
  "fd_dup_at pg rlim minfd src new_flags x =
     (let nofile = fd_effective_nofile rlim; e = src\<lparr>fd_flags := new_flags\<rparr> in
      if minfd < 0 then (Inl EINVAL, x)
      else if nofile \<le> nat minfd then (Inl EMFILE, x)
      else case fd_lowest (fst x) (nat minfd) nofile of
        Some fd \<Rightarrow> fd_put pg fd e x
      | None \<Rightarrow>
         (let want = max_slots (fst x) * 2 in
          case fd_ensure_capacity pg (if want \<le> nat minfd then nat minfd + 1 else want) nofile x of
            (Inl err, x1) \<Rightarrow> (Inl err, x1)
          | (Inr _, x1) \<Rightarrow>
             (case fd_lowest (fst x1) (nat minfd) nofile of None \<Rightarrow> (Inl EMFILE, x1) | Some fd \<Rightarrow> fd_put pg fd e x1)))"

definition fd_install_at :: "'s page_ops \<Rightarrow> nat option \<Rightarrow> int \<Rightarrow> fd_entry \<Rightarrow> fd_table \<times> 's \<Rightarrow> nat result \<times> fd_table \<times> 's" where
  "fd_install_at pg rlim newfd src x =
     (let nofile = fd_effective_nofile rlim in
      if newfd < 0 then (Inl EBADF, x)
      else if nofile \<le> nat newfd then (Inl EMFILE, x)
      else case (if max_slots (fst x) \<le> nat newfd then fd_ensure_capacity pg (nat newfd + 1) nofile x else (Inr (), x)) of
        (Inl err, x1) \<Rightarrow> (Inl err, x1)
      | (Inr _, x1) \<Rightarrow> map_prod (map_sum id (\<lambda>_. 0)) id (fd_put pg (nat newfd) src x1))"

definition fd_get :: "fd_table \<Rightarrow> int \<Rightarrow> fd_entry option" where
  "fd_get fdt fd =
     (if fd < 0 \<or> int (max_slots fdt) \<le> fd then None
      else case fd_entry_at fdt (nat fd) of None \<Rightarrow> None | Some e \<Rightarrow> if fd_type e = FD_NONE then None else Some e)"

definition fd_close :: "fd_table \<Rightarrow> int \<Rightarrow> bool \<times> fd_table" where
  "fd_close fdt fd =
     (case fd_get fdt fd of
        None \<Rightarrow> (False, fdt)
      | Some e \<Rightarrow> (True, fd_mark_free (put_entry fdt (nat fd) (e\<lparr>fd_type := FD_NONE, fd_obj := 0\<rparr>)) (nat fd)))"

end
