(* ===== verification/Fd_Heap.thy ===== *)
theory Fd_Heap
  imports Fd_Table
begin

section \<open>Shared descriptor tables (\<^verbatim>\<open>src/kernel/proc/process.c\<close>)\<close>

text \<open>
  Tables live in a slab and are shared by processes through a reference count. \<open>fw_tabs\<close> maps the address of
  every live table to it; reaching for a table that is not live is \<open>None\<close>, a use after free. The slab and the
  objects behind the descriptors (files, pipes, loop devices and so on) are arguments with states of their own.
\<close>

definition DEV_LOOP_BASE :: int where "DEV_LOOP_BASE = 200"
definition DEV_LOOP_END :: int where "DEV_LOOP_END = 208"

record ('s, 'v, 'o) fd_sys = "'s page_ops" +
  tab_alloc :: "'v \<Rightarrow> nat option \<times> 'v"
  tab_free :: "nat \<Rightarrow> 'v \<Rightarrow> 'v"
  vfs_file_free_obj :: "nat \<Rightarrow> 'o \<Rightarrow> 'o"
  vfs_file_incref :: "nat \<Rightarrow> 'o \<Rightarrow> 'o"
  fd_cleanup_entry :: "int \<Rightarrow> nat \<Rightarrow> int \<Rightarrow> 'o \<Rightarrow> 'o"
  fd_obj_incref :: "int \<Rightarrow> nat \<Rightarrow> int \<Rightarrow> 'o \<Rightarrow> 'o"
  loop_dev_release :: "int \<Rightarrow> 'o \<Rightarrow> 'o"
  loop_dev_open :: "int \<Rightarrow> 'o \<Rightarrow> 'o"

record ('s, 'v, 'o) fd_world =
  fw_tabs :: "nat \<Rightarrow> fd_table option"
  fw_pages :: 's
  fw_slab :: 'v
  fw_objs :: 'o

abbreviation pages_of :: "('s, 'v, 'o) fd_sys \<Rightarrow> 's page_ops" where
  "pages_of sys \<equiv> page_ops.truncate sys"

text \<open>Both constructors: take a table from the slab, build it, or give it back.\<close>

definition fd_heap_new ::
  "('s, 'v, 'o) fd_sys \<Rightarrow> (fd_table \<times> 's \<Rightarrow> unit result \<times> fd_table \<times> 's) \<Rightarrow> ('s, 'v, 'o) fd_world \<Rightarrow> nat option \<times> ('s, 'v, 'o) fd_world" where
  "fd_heap_new sys build w =
     (case tab_alloc sys (fw_slab w) of
        (None, sl) \<Rightarrow> (None, w\<lparr>fw_slab := sl\<rparr>)
      | (Some a, sl) \<Rightarrow>
         (case build (empty_fds, fw_pages w) of
            (Inl _, (_, st)) \<Rightarrow> (None, w\<lparr>fw_slab := tab_free sys a sl, fw_pages := st\<rparr>)
          | (Inr _, (fdt, st)) \<Rightarrow> (Some a, w\<lparr>fw_slab := sl, fw_pages := st, fw_tabs := (fw_tabs w)(a \<mapsto> fdt\<lparr>refcount := 1\<rparr>)\<rparr>)))"

definition fd_table_alloc_heap :: "('s, 'v, 'o) fd_sys \<Rightarrow> int \<Rightarrow> ('s, 'v, 'o) fd_world \<Rightarrow> nat option \<times> ('s, 'v, 'o) fd_world" where
  "fd_table_alloc_heap sys pty w = fd_heap_new sys (fd_table_init (pages_of sys) pty) w"

definition fd_table_alloc_heap_empty :: "('s, 'v, 'o) fd_sys \<Rightarrow> nat \<Rightarrow> ('s, 'v, 'o) fd_world \<Rightarrow> nat option \<times> ('s, 'v, 'o) fd_world" where
  "fd_table_alloc_heap_empty sys n w = fd_heap_new sys (fd_table_alloc_empty (pages_of sys) n) w"

definition fd_table_get :: "nat \<Rightarrow> ('s, 'v, 'o) fd_world \<Rightarrow> (nat \<times> ('s, 'v, 'o) fd_world) option" where
  "fd_table_get a w =
     (if a = 0 then Some (0, w)
      else case fw_tabs w a of
        None \<Rightarrow> None
      | Some fdt \<Rightarrow> Some (a, w\<lparr>fw_tabs := (fw_tabs w)(a \<mapsto> fdt\<lparr>refcount := refcount fdt + 1\<rparr>)\<rparr>))"

definition loop_dev :: "fd_entry \<Rightarrow> int option" where
  "loop_dev e =
     (let devid = sint (word_of_nat (fd_obj e) :: u32)
      in if DEV_LOOP_BASE \<le> devid \<and> devid < DEV_LOOP_END then Some devid else None)"

definition drop_entry :: "('s, 'v, 'o) fd_sys \<Rightarrow> fd_entry \<Rightarrow> 'o \<Rightarrow> 'o" where
  "drop_entry sys e ob =
     (if fd_type e = FD_NONE \<or> fd_type e = FD_SERIAL then ob
      else if fd_type e = FD_FILE then vfs_file_free_obj sys (fd_obj e) ob
      else if fd_type e = FD_DEVICE then (case loop_dev e of None \<Rightarrow> ob | Some d \<Rightarrow> loop_dev_release sys d ob)
      else fd_cleanup_entry sys (fd_type e) (fd_obj e) (fd_flags e) ob)"

definition fd_table_drain :: "('s, 'v, 'o) fd_sys \<Rightarrow> fd_table \<times> 'o \<Rightarrow> fd_table \<times> 'o" where
  "fd_table_drain sys x =
     fold (\<lambda>i (fdt, ob).
       case fd_entry_at fdt i of
         None \<Rightarrow> (fdt, ob)
       | Some e \<Rightarrow> (put_entry fdt i (e\<lparr>fd_type := FD_NONE, fd_obj := 0\<rparr>), drop_entry sys e ob)) [0..<max_slots (fst x)] x"

definition fd_table_put :: "('s, 'v, 'o) fd_sys \<Rightarrow> nat \<Rightarrow> ('s, 'v, 'o) fd_world \<Rightarrow> ('s, 'v, 'o) fd_world option" where
  "fd_table_put sys a w =
     (if a = 0 then Some w
      else case fw_tabs w a of
        None \<Rightarrow> None
      | Some fdt \<Rightarrow>
         if refcount fdt \<noteq> 1 then Some (w\<lparr>fw_tabs := (fw_tabs w)(a \<mapsto> fdt\<lparr>refcount := refcount fdt - 1\<rparr>)\<rparr>)
         else let (t1, ob) = fd_table_drain sys (fdt\<lparr>refcount := 0\<rparr>, fw_objs w); (t2, st) = fd_table_free (pages_of sys) (t1, fw_pages w)
           in Some (w\<lparr>fw_tabs := (fw_tabs w)(a := None), fw_pages := st, fw_slab := tab_free sys a (fw_slab w), fw_objs := ob\<rparr>))"

text \<open>One live entry of the old table copied to the new one, with another reference to its object.\<close>

definition copy_ref :: "('s, 'v, 'o) fd_sys \<Rightarrow> fd_entry \<Rightarrow> 'o \<Rightarrow> 'o" where
  "copy_ref sys e ob =
     (let ob1 = (if fd_obj e = 0 then ob
                 else if fd_type e = FD_FILE then vfs_file_incref sys (fd_obj e) ob
                 else if fd_type e \<in> {FD_PIPE, FD_SOCKET, FD_EPOLL, FD_EVENTFD, FD_TIMERFD, FD_INOTIFY, FD_UNIX_SOCK}
                 then fd_obj_incref sys (fd_type e) (fd_obj e) (fd_flags e) ob
                 else ob)
      in if fd_type e = FD_DEVICE then (case loop_dev e of None \<Rightarrow> ob1 | Some d \<Rightarrow> loop_dev_open sys d ob1) else ob1)"

fun copy_fds :: "('s, 'v, 'o) fd_sys \<Rightarrow> fd_table \<Rightarrow> nat list \<Rightarrow> fd_table \<times> 's \<times> 'o \<Rightarrow> bool \<times> fd_table \<times> 's \<times> 'o" where
  "copy_fds sys old [] x = (True, x)"
| "copy_fds sys old (i # is) (neu, st, ob) =
     (case fd_entry_at old i of
        None \<Rightarrow> copy_fds sys old is (neu, st, ob)
      | Some src \<Rightarrow>
         if fd_type src = FD_NONE then copy_fds sys old is (neu, st, ob)
         else case fd_leaf_alloc (pages_of sys) i (neu, st) of
           (Inl _, (neu1, st1)) \<Rightarrow> (False, neu1, st1, ob)
         | (Inr _, (neu1, st1)) \<Rightarrow> copy_fds sys old is (fd_mark_used (put_entry neu1 i src) i, st1, copy_ref sys src ob))"

definition fd_table_unshare ::
  "('s, 'v, 'o) fd_sys \<Rightarrow> nat option \<Rightarrow> ('s, 'v, 'o) fd_world \<Rightarrow> (unit result \<times> nat option \<times> ('s, 'v, 'o) fd_world) option" where
  "fd_table_unshare sys p w =
     (case p of
        None \<Rightarrow> Some (Inl EINVAL, p, w)
      | Some fds \<Rightarrow>
         if fds = 0 then Some (Inl EINVAL, p, w)
         else case fw_tabs w fds of
           None \<Rightarrow> None
         | Some old \<Rightarrow>
            if refcount old \<le> 1 then Some (Inr (), p, w)
            else let copy_end = max_fd old; want = min FD_CEILING (fd_double FD_INIT_SLOTS copy_end) in
              (case fd_table_alloc_heap_empty sys want w of
                 (None, w1) \<Rightarrow> Some (Inl ENOMEM, p, w1)
               | (Some a, w1) \<Rightarrow>
                  (case fw_tabs w1 a of
                     None \<Rightarrow> None
                   | Some neu \<Rightarrow>
                      (case copy_fds sys old [0..<copy_end] (neu, fw_pages w1, fw_objs w1) of
                         (False, (neu1, st1, ob1)) \<Rightarrow>
                           map_option (\<lambda>w2. (Inl ENOMEM, p, w2))
                             (fd_table_put sys a (w1\<lparr>fw_tabs := (fw_tabs w1)(a \<mapsto> neu1), fw_pages := st1, fw_objs := ob1\<rparr>))
                       | (True, (neu1, st1, ob1)) \<Rightarrow>
                           map_option (\<lambda>w2. (Inr (), Some a, w2))
                             (fd_table_put sys fds
                               (w1\<lparr>fw_tabs := (fw_tabs w1)(a \<mapsto> neu1\<lparr>max_fd := copy_end\<rparr>), fw_pages := st1, fw_objs := ob1\<rparr>))))))"

text \<open>The table of a forked child, which ends at the limit of the child; the answer has the address that
  \<^verbatim>\<open>child->fds\<close> holds afterwards, also when the copy stops half-way.\<close>

definition dup_fd_table ::
  "('s, 'v, 'o) fd_sys \<Rightarrow> nat \<Rightarrow> nat \<Rightarrow> ('s, 'v, 'o) fd_world \<Rightarrow> (unit result \<times> nat option \<times> ('s, 'v, 'o) fd_world) option" where
  "dup_fd_table sys rlim_nofile fds w =
     (case fw_tabs w fds of
        None \<Rightarrow> None
      | Some parent \<Rightarrow>
         let child_nofile = (if rlim_nofile \<noteq> 0 then rlim_nofile else FD_DEFAULT_NOFILE);
             copy_end = (if child_nofile < max_fd parent then child_nofile else max_fd parent);
             want = min FD_CEILING (fd_double FD_INIT_SLOTS copy_end) in
         (case fd_table_alloc_heap_empty sys want w of
            (None, w1) \<Rightarrow> Some (Inl ENOMEM, None, w1)
          | (Some a, w1) \<Rightarrow>
             (case fw_tabs w1 a of
                None \<Rightarrow> None
              | Some neu \<Rightarrow>
                 (case copy_fds sys parent [0..<copy_end] (neu, fw_pages w1, fw_objs w1) of
                    (False, (neu1, st1, ob1)) \<Rightarrow>
                      Some (Inl ENOMEM, Some a, w1\<lparr>fw_tabs := (fw_tabs w1)(a \<mapsto> neu1), fw_pages := st1, fw_objs := ob1\<rparr>)
                  | (True, (neu1, st1, ob1)) \<Rightarrow>
                      Some (Inr (), Some a,
                        w1\<lparr>fw_tabs := (fw_tabs w1)(a \<mapsto> neu1\<lparr>max_fd := copy_end\<rparr>), fw_pages := st1, fw_objs := ob1\<rparr>)))))"

end
