(* ===== verification/Fd_Table_Props.thy ===== *)
theory Fd_Table_Props
  imports Fd_Table
begin

unbundle bit_operations_syntax

section \<open>Descriptor tables are maps\<close>

text \<open>
  The invariant that ties the bitmap to the entries, and the abstract map of live descriptors that every
  operation is a function of.
\<close>

subsection \<open>The search finds the lowest free descriptor\<close>

lemma ctz_spec: "w \<noteq> 0 \<Longrightarrow> ctz w < 64 \<and> bit w (ctz w) \<and> (\<forall>b<ctz w. \<not> bit w b)"
proof -
  assume "w \<noteq> 0"
  then obtain k where k: "bit w k" "k < 64" using bit_word_eqI [of w 0] by auto
  then obtain b where b: "find (bit w) [0..<64] = Some b" by (cases "find (bit w) [0..<64]") (auto simp: find_None_iff)
  then have "ctz w = b" by (simp add: ctz_def)
  then show ?thesis using b by (auto simp: find_Some_iff)
qed

definition scan_bit :: "64 word list \<Rightarrow> nat \<Rightarrow> 64 word \<Rightarrow> nat \<Rightarrow> bool" where
  "scan_bit bm word w i = (if i div 64 = word then bit w (i mod 64) else bm_test bm i)"

definition lowest_from :: "nat \<Rightarrow> nat \<Rightarrow> (nat \<Rightarrow> bool) \<Rightarrow> nat option \<Rightarrow> bool" where
  "lowest_from lo hi P r =
     (case r of
        None \<Rightarrow> \<forall>i. lo \<le> i \<longrightarrow> i < hi \<longrightarrow> \<not> P i
      | Some fd \<Rightarrow> lo \<le> fd \<and> fd < hi \<and> P fd \<and> (\<forall>i. lo \<le> i \<longrightarrow> i < fd \<longrightarrow> \<not> P i))"

lemma lowest_from_skip:
  "lowest_from m hi P r \<Longrightarrow> lo \<le> m \<Longrightarrow> (\<And>i. lo \<le> i \<Longrightarrow> i < m \<Longrightarrow> \<not> P i) \<Longrightarrow> lowest_from lo hi P r"
  by (auto simp: lowest_from_def not_less split: option.splits) (metis not_le)+

lemma lowest_from_cong:
  "lowest_from lo hi P r \<Longrightarrow> (\<And>i. lo \<le> i \<Longrightarrow> P i = Q i) \<Longrightarrow> lowest_from lo hi Q r"
  by (auto simp: lowest_from_def split: option.splits)

lemma scan_bit_next: "Suc word * 64 \<le> i \<Longrightarrow> scan_bit bm (Suc word) (bm ! Suc word) i = scan_bit bm word w i"
  by (auto simp: scan_bit_def bm_test_bit)

lemma fd_scan_lowest:
  "word < nwords \<Longrightarrow> lowest_from (word * 64) (nwords * 64) (scan_bit bm word w) (fd_scan bm nwords word w)"
proof (induction "nwords - word" arbitrary: word w rule: less_induct)
  case less
  have blank: "\<not> scan_bit bm word w i" if "w = 0" "word * 64 \<le> i" "i < Suc word * 64" for i
  proof -
    have "i div 64 = word" using that by (intro div_nat_eqI) simp_all
    then show ?thesis using that by (simp add: scan_bit_def)
  qed
  show ?case
  proof (cases "w = 0")
    case False
    let ?fd = "word * 64 + ctz w"
    note c = ctz_spec [OF False]
    have r: "fd_scan bm nwords word w = Some ?fd" using False less.prems by (subst fd_scan.simps) simp
    have "?fd < nwords * 64"
    proof -
      have "?fd < Suc word * 64" using c by simp
      also have "\<dots> \<le> nwords * 64" using less.prems by (intro mult_right_mono) simp_all
      finally show ?thesis .
    qed
    moreover have "\<not> scan_bit bm word w i" if "word * 64 \<le> i" "i < ?fd" for i
    proof -
      have "i div 64 = word" using that c by (intro div_nat_eqI) simp_all
      moreover from this have "i mod 64 < ctz w" using that by (simp add: modulo_nat_def)
      ultimately show ?thesis using c by (simp add: scan_bit_def)
    qed
    ultimately show ?thesis using c r by (simp add: lowest_from_def scan_bit_def)
  next
    case w: True
    show ?thesis
    proof (cases "Suc word < nwords")
      case False
      then have n: "nwords = Suc word" using less.prems by simp
      then have "fd_scan bm nwords word w = None" using w by (subst fd_scan.simps) (simp add: fd_scan.simps)
      then show ?thesis using blank w n by (simp add: lowest_from_def)
    next
      case True
      have e: "fd_scan bm nwords word w = fd_scan bm nwords (Suc word) (bm ! Suc word)"
        using w True by (subst fd_scan.simps) simp
      have "lowest_from (Suc word * 64) (nwords * 64) (scan_bit bm (Suc word) (bm ! Suc word)) (fd_scan bm nwords word w)"
        unfolding e by (rule less.hyps) (use True in simp_all)
      then have "lowest_from (Suc word * 64) (nwords * 64) (scan_bit bm word w) (fd_scan bm nwords word w)"
        by (rule lowest_from_cong) (rule scan_bit_next)
      then show ?thesis by (rule lowest_from_skip) (use blank w in simp_all)
    qed
  qed
qed

subsection \<open>The invariant\<close>

definition fd_live :: "fd_table \<Rightarrow> nat \<Rightarrow> fd_entry option" where
  "fd_live fdt fd = (case fd_entry_at fdt fd of None \<Rightarrow> None | Some e \<Rightarrow> if fd_type e = FD_NONE then None else Some e)"

definition leaf_ok :: "(nat \<times> fd_entry list) option \<Rightarrow> bool" where
  "leaf_ok l = (case l of None \<Rightarrow> True | Some (a, es) \<Rightarrow> length es = FD_LEAF_PER_PAGE)"

definition fd_shape :: "fd_table \<Rightarrow> bool" where
  "fd_shape fdt \<longleftrightarrow>
     max_slots fdt \<le> dir_capacity fdt * FD_LEAF_PER_PAGE \<and> max_slots fdt \<le> FD_CEILING \<and>
     64 * length (free_bitmap fdt) = fd_bitmap_alloc_slots (max_slots fdt) \<and> (bm_ptr fdt = None \<longrightarrow> max_slots fdt = 0) \<and>
     list_all leaf_ok (entries_dir fdt)"

text \<open>A bit is set exactly for the free descriptors, and every live descriptor is below both bounds.\<close>

definition fd_ok :: "fd_table \<Rightarrow> bool" where
  "fd_ok fdt \<longleftrightarrow>
     fd_shape fdt \<and>
     (\<forall>b<64 * length (free_bitmap fdt). bm_test (free_bitmap fdt) b \<longleftrightarrow> b < max_slots fdt \<and> fd_live fdt b = None) \<and>
     (\<forall>fd. fd_live fdt fd \<noteq> None \<longrightarrow> fd < max_slots fdt \<and> fd < max_fd fdt)"

lemma fd_get_live: "fd_ok fdt \<Longrightarrow> fd_get fdt (int fd) = fd_live fdt fd"
proof -
  assume "fd_ok fdt"
  then have "fd_live fdt fd \<noteq> None \<Longrightarrow> fd < max_slots fdt" by (simp add: fd_ok_def)
  then show ?thesis by (auto simp: fd_get_def fd_live_def split: option.splits)
qed

lemma alloc_slots_ge: "n \<le> fd_bitmap_alloc_slots n"
  unfolding fd_bitmap_alloc_slots_def by presburger

lemma fd_ok_bit:
  assumes "fd_ok fdt" and "fd < max_slots fdt"
  shows "bm_test (free_bitmap fdt) fd \<longleftrightarrow> fd_live fdt fd = None" and "bm_valid (free_bitmap fdt) fd"
  using assms alloc_slots_ge [of "max_slots fdt"] by (auto simp: fd_ok_def fd_shape_def bm_valid_def)

lemma bit_high_mask: "bit (w AND push_bit k (- 1) :: u64) b \<longleftrightarrow> k \<le> b \<and> bit w b"
  by (auto simp: bit_simps dest: bit_imp_le_length)

lemma fd_find_free_lowest:
  assumes ok: "fd_ok fdt"
  shows "lowest_from m (max_slots fdt) (\<lambda>i. fd_live fdt i = None) (fd_find_free fdt m)"
proof (cases "max_slots fdt \<le> m")
  case True
  then show ?thesis by (simp add: fd_find_free_def lowest_from_def)
next
  case False
  define bm where "bm = free_bitmap fdt"
  define w where "w = bm ! (m div 64) AND push_bit (m mod 64) (- 1)"
  define nw where "nw = fd_bitmap_alloc_slots (max_slots fdt) div 64"
  have nw: "nw * 64 = 64 * length bm" using ok by (simp add: nw_def bm_def fd_ok_def fd_shape_def) (simp add: fd_bitmap_alloc_slots_def)
  have le: "max_slots fdt \<le> nw * 64" using alloc_slots_ge [of "max_slots fdt"] by (simp add: nw_def fd_bitmap_alloc_slots_def)
  have bits: "scan_bit bm (m div 64) w i \<longleftrightarrow> m \<le> i \<and> bm_test bm i" if "m div 64 * 64 \<le> i" for i
  proof (cases "i div 64 = m div 64")
    case True
    then have "m mod 64 \<le> i mod 64 \<longleftrightarrow> m \<le> i"
      by (metis add_le_cancel_left div_mult_mod_eq)
    moreover have "bit w (i mod 64) \<longleftrightarrow> m mod 64 \<le> i mod 64 \<and> bit (bm ! (m div 64)) (i mod 64)"
      unfolding w_def by (rule bit_high_mask)
    ultimately show ?thesis using True by (simp add: scan_bit_def bm_test_bit)
  next
    case False
    have "m \<le> i"
    proof (rule ccontr)
      assume "\<not> m \<le> i"
      then have "i div 64 \<le> m div 64" by (intro div_le_mono) simp
      moreover have "m div 64 \<le> i div 64" using div_le_mono [OF that, of 64] by simp
      ultimately show False using False by simp
    qed
    then show ?thesis using False by (simp add: scan_bit_def)
  qed
  have "m div 64 < nw" using False le by (simp add: div_less_iff_less_mult)
  then have "lowest_from (m div 64 * 64) (nw * 64) (scan_bit bm (m div 64) w) (fd_scan bm nw (m div 64) w)"
    by (rule fd_scan_lowest)
  then have L: "lowest_from (m div 64 * 64) (nw * 64) (\<lambda>i. m \<le> i \<and> bm_test bm i) (fd_scan bm nw (m div 64) w)"
    by (rule lowest_from_cong) (rule bits)
  have free: "i < nw * 64 \<Longrightarrow> bm_test bm i \<longleftrightarrow> i < max_slots fdt \<and> fd_live fdt i = None" for i
    using ok nw by (simp add: fd_ok_def bm_def)
  have r: "fd_find_free fdt m = (case fd_scan bm nw (m div 64) w of None \<Rightarrow> None | Some fd \<Rightarrow> if fd < max_slots fdt then Some fd else None)"
    using False by (simp add: fd_find_free_def bm_def w_def nw_def)
  have base: "m div 64 * 64 \<le> m" by simp
  show ?thesis
  proof (cases "fd_scan bm nw (m div 64) w")
    case None
    have "fd_live fdt i \<noteq> None" if "m \<le> i" "i < max_slots fdt" for i
      using L None that le base free [of i] unfolding lowest_from_def by fastforce
    then show ?thesis by (simp add: r None lowest_from_def)
  next
    case (Some fd)
    then have f: "m \<le> fd" "fd < nw * 64" "bm_test bm fd" and
        o: "\<And>i. m div 64 * 64 \<le> i \<Longrightarrow> i < fd \<Longrightarrow> \<not> (m \<le> i \<and> bm_test bm i)"
      using L by (auto simp: lowest_from_def)
    have g: "fd < max_slots fdt" "fd_live fdt fd = None" using f free [of fd] by auto
    have "fd_live fdt i \<noteq> None" if "m \<le> i" "i < fd" for i
      using o [of i] that base f(2) g(1) free [of i] by (meson le_trans less_trans)
    then show ?thesis using f g by (simp add: r Some lowest_from_def)
  qed
qed

subsection \<open>Growing keeps the map\<close>

lemma fd_double_ge: "0 < c \<Longrightarrow> n \<le> fd_double c n \<and> c \<le> fd_double c n"
proof (induction c n rule: fd_double.induct)
  case (1 c n)
  show ?case
  proof (cases "c < n")
    case True
    then have e: "fd_double c n = fd_double (c * 2) n" using 1(2) by (subst fd_double.simps) simp
    show ?thesis using 1(1) 1(2) True unfolding e by simp
  next
    case False
    then have e: "fd_double c n = c" by (subst fd_double.simps) simp
    then show ?thesis using False by simp
  qed
qed

lemma round_up_ge: "0 < (d::nat) \<Longrightarrow> n \<le> (n + d - 1) div d * d"
proof -
  assume "0 < d"
  then have "(n + d - 1) mod d < d" by simp
  moreover have "(n + d - 1) div d * d + (n + d - 1) mod d = n + d - 1" by (rule div_mult_mod_eq)
  ultimately show ?thesis by linarith
qed

lemma fd_grow_slots_bounds:
  assumes "fd_grow_slots fdt m = Inr n"
  shows "m \<le> n \<and> n \<le> FD_CEILING"
proof -
  define c where "c = (if max_slots fdt \<noteq> 0 then max_slots fdt else FD_INIT_SLOTS)"
  define n2 where "n2 = min FD_CEILING (fd_double c m)"
  have "0 < c" by (simp add: c_def FD_INIT_SLOTS_def)
  then have "m \<le> fd_double c m" using fd_double_ge by simp
  moreover have "n2 \<le> fd_round_slots n2" unfolding fd_round_slots_def by (rule round_up_ge) (simp add: FD_LEAF_PER_PAGE_def)
  moreover have "fd_grow_slots fdt m =
      (if FD_CEILING < m then Inl EMFILE else if n2 < m then Inl EMFILE else Inr (min FD_CEILING (fd_round_slots n2)))"
    unfolding fd_grow_slots_def c_def [symmetric] Let_def n2_def by (auto simp: min_def)
  ultimately show ?thesis using assms by (auto simp: n2_def split: if_splits)
qed

lemma fd_grow_slots_total: "m \<le> FD_CEILING \<Longrightarrow> \<exists>n. fd_grow_slots fdt m = Inr n"
proof -
  assume "m \<le> FD_CEILING"
  moreover have "m \<le> fd_double (if max_slots fdt \<noteq> 0 then max_slots fdt else FD_INIT_SLOTS) m"
    using fd_double_ge [of "if max_slots fdt \<noteq> 0 then max_slots fdt else FD_INIT_SLOTS" m] by (simp add: FD_INIT_SLOTS_def)
  ultimately show ?thesis by (auto simp: fd_grow_slots_def Let_def)
qed

lemma fd_live_append: "fd_live (fdt\<lparr>dir_ptr := d, entries_dir := entries_dir fdt @ replicate k None\<rparr>) fd = fd_live fdt fd"
proof -
  have "fd_leaf (fdt\<lparr>dir_ptr := d, entries_dir := entries_dir fdt @ replicate k None\<rparr>) fd = fd_leaf fdt fd"
    by (auto simp: fd_leaf_def Let_def nth_append)
  then show ?thesis by (simp add: fd_live_def fd_entry_at_def)
qed

lemma fd_live_cong: "entries_dir a = entries_dir b \<Longrightarrow> fd_live a = fd_live b"
  unfolding fun_eq_iff fd_live_def fd_entry_at_def fd_leaf_def Let_def by (simp cong: if_cong option.case_cong)

definition fd_same :: "fd_table \<Rightarrow> fd_table \<Rightarrow> bool" where
  "fd_same fdt fdt' \<longleftrightarrow> fd_ok fdt' \<and> fd_live fdt' = fd_live fdt \<and> max_slots fdt \<le> max_slots fdt' \<and>
     max_fd fdt' = max_fd fdt \<and> refcount fdt' = refcount fdt"

lemma fd_same_refl: "fd_ok fdt \<Longrightarrow> fd_same fdt fdt"
  by (simp add: fd_same_def)

lemma fd_dir_grow_same:
  assumes ok: "fd_ok fdt" and g: "fd_dir_grow pg need (fdt, st) = (r, fdt', st')"
  shows "fd_same fdt fdt' \<and> max_slots fdt' = max_slots fdt \<and> (r = Inl ENOMEM \<or> r = Inr () \<and> need \<le> dir_capacity fdt')"
proof (cases "need \<le> dir_capacity fdt")
  case True
  then show ?thesis using g ok by (simp add: fd_dir_grow_def fd_same_refl)
next
  case False
  define c where "c = fd_double (if dir_capacity fdt \<noteq> 0 then dir_capacity fdt else 1) need"
  have c: "need \<le> c" "dir_capacity fdt \<le> c"
    using fd_double_ge [of "if dir_capacity fdt \<noteq> 0 then dir_capacity fdt else 1" need] by (auto simp: c_def split: if_splits)
  note g' = g [unfolded fd_dir_grow_def Let_def prod.case c_def [symmetric]]
  obtain q st1 where a: "po_alloc pg (fd_dir_pages c) st = (q, st1)" by (rule prod.exhaust)
  show ?thesis
  proof (cases q)
    case None
    then show ?thesis using g' ok False a by (simp add: fd_same_refl)
  next
    case (Some nd)
    define t where "t = fdt\<lparr>dir_ptr := Some nd, entries_dir := entries_dir fdt @ replicate (c - dir_capacity fdt) None\<rparr>"
    have r: "r = Inr ()" "fdt' = t"
      using g' False a Some by (simp_all add: t_def)
    have l: "fd_live t = fd_live fdt" unfolding t_def by (rule ext) (rule fd_live_append)
    have "fd_shape t" using ok c unfolding fd_ok_def fd_shape_def by (auto simp: t_def list_all_iff leaf_ok_def intro: le_trans)
    then have "fd_ok t" using ok l unfolding fd_ok_def by (simp add: t_def)
    then show ?thesis using l c by (simp add: r fd_same_def) (simp add: t_def)
  qed
qed

lemma test_fold_keep:
  "(\<forall>b\<in>set bs. bm_valid nb b) \<Longrightarrow>
   bm_test (fold (\<lambda>b nb. if \<not> P b then bm_clear nb b else nb) bs nb) j \<longleftrightarrow> bm_test nb j \<and> (j \<in> set bs \<longrightarrow> P j)"
  by (induction bs arbitrary: nb) (auto simp: bm.valid_clear bm.test_clear)

lemma length_fold_keep: "length (fold (\<lambda>b nb. if \<not> P b then bm_clear nb b else nb) bs nb) = length nb"
  by (induction bs arbitrary: nb) auto

lemma fd_new_bitmap_bits:
  assumes "max_slots fdt \<le> n" and "bm_ptr fdt = None \<longrightarrow> max_slots fdt = 0"
  shows "64 * length (fd_new_bitmap fdt n) = fd_bitmap_alloc_slots n"
    and "b < fd_bitmap_alloc_slots n \<Longrightarrow>
         bm_test (fd_new_bitmap fdt n) b \<longleftrightarrow> b < n \<and> (b < max_slots fdt \<longrightarrow> bm_test (free_bitmap fdt) b)"
proof -
  define k where "k = (n + 63) div 64"
  define nb0 where "nb0 = replicate k (- 1 :: u64)"
  define nb1 where "nb1 = fold (\<lambda>b nb. if \<not> bm_test (free_bitmap fdt) b then bm_clear nb b else nb) [0..<max_slots fdt] nb0"
  have k: "fd_bitmap_alloc_slots n = k * 64" "n \<le> k * 64"
    using alloc_slots_ge [of n] by (simp_all add: fd_bitmap_alloc_slots_def k_def)
  have e: "fd_new_bitmap fdt n = fold (\<lambda>b nb. bm_clear nb b) [n..<k * 64] nb1"
    using assms(2) by (auto simp: fd_new_bitmap_def Let_def k(1) nb0_def [symmetric] nb1_def)
  have l: "length nb1 = k" by (simp add: nb1_def length_fold_keep nb0_def)
  show "64 * length (fd_new_bitmap fdt n) = fd_bitmap_alloc_slots n"
    by (simp add: e l k)
  have t1: "bm_test nb1 b \<longleftrightarrow> (b < max_slots fdt \<longrightarrow> bm_test (free_bitmap fdt) b)" if "b < k * 64"
  proof -
    have "bm_test nb0 b" using that by (simp add: nb0_def bm_test_bit div_less_iff_less_mult)
    moreover have "\<forall>b\<in>set [0..<max_slots fdt]. bm_valid nb0 b" using assms(1) k(2) by (auto simp: bm_valid_def nb0_def)
    ultimately show ?thesis by (simp add: nb1_def test_fold_keep)
  qed
  show "bm_test (fd_new_bitmap fdt n) b \<longleftrightarrow> b < n \<and> (b < max_slots fdt \<longrightarrow> bm_test (free_bitmap fdt) b)"
    if "b < fd_bitmap_alloc_slots n"
  proof -
    have "\<forall>i\<in>set [n..<k * 64]. bm_valid nb1 i" by (auto simp: bm_valid_def l)
    then have "bm_test (fd_new_bitmap fdt n) b \<longleftrightarrow> b \<notin> set [n..<k * 64] \<and> bm_test nb1 b"
      unfolding e by (rule bm.test_fold_clear)
    then show ?thesis using that t1 k(1) by auto
  qed
qed

lemma fd_bitmap_grow_same:
  assumes ok: "fd_ok fdt" and cap: "n \<le> dir_capacity fdt * FD_LEAF_PER_PAGE" "n \<le> FD_CEILING"
    and g: "fd_bitmap_grow pg n (fdt, st) = (r, fdt', st')"
  shows "fd_same fdt fdt' \<and> (r = Inl ENOMEM \<or> r = Inr () \<and> n \<le> max_slots fdt')"
proof (cases "n \<le> max_slots fdt")
  case True
  then show ?thesis using g ok by (simp add: fd_bitmap_grow_def fd_same_refl)
next
  case False
  obtain q st1 where a: "po_alloc pg (fd_bitmap_pages (fd_bitmap_alloc_slots n)) st = (q, st1)" by (rule prod.exhaust)
  show ?thesis
  proof (cases q)
    case None
    then show ?thesis using g ok False a by (simp add: fd_bitmap_grow_def fd_same_refl)
  next
    case (Some nb)
    define t where "t = fdt\<lparr>bm_ptr := Some nb, free_bitmap := fd_new_bitmap fdt n, max_slots := n\<rparr>"
    have r: "r = Inr ()" "fdt' = t" using g False a Some by (simp_all add: fd_bitmap_grow_def t_def)
    have l: "fd_live t = fd_live fdt" by (rule fd_live_cong) (simp add: t_def)
    have sh: "fd_shape fdt" using ok by (simp add: fd_ok_def)
    then have p: "bm_ptr fdt = None \<longrightarrow> max_slots fdt = 0" and le: "max_slots fdt \<le> n"
      using False by (simp_all add: fd_shape_def)
    note nb = fd_new_bitmap_bits [OF le p]
    have "fd_shape t" using sh cap nb(1) by (simp add: fd_shape_def t_def)
    moreover have live: "fd_live fdt b \<noteq> None \<Longrightarrow> b < max_slots fdt \<and> b < max_fd fdt" for b
      using ok by (simp add: fd_ok_def)
    moreover have "fd_live t b \<noteq> None \<longrightarrow> b < max_slots t \<and> b < max_fd t" for b
      using live [of b] le unfolding l by (auto simp: t_def simp del: not_None_eq)
    moreover have "bm_test (free_bitmap t) b \<longleftrightarrow> b < max_slots t \<and> fd_live t b = None" if "b < 64 * length (free_bitmap t)" for b
      using nb(2) [of b] that nb(1) fd_ok_bit(1) [OF ok, of b] live [of b] unfolding l by (auto simp: t_def simp del: not_None_eq)
    ultimately have "fd_ok t" unfolding fd_ok_def by blast
    then show ?thesis using l le by (simp add: r fd_same_def) (simp add: t_def)
  qed
qed

lemma fd_table_grow_same:
  assumes ok: "fd_ok fdt" and g: "fd_table_grow pg m (fdt, st) = (r, fdt', st')"
  shows "fd_same fdt fdt' \<and> (r = Inl ENOMEM \<or> r = Inl EMFILE \<and> FD_CEILING < m \<or> r = Inr () \<and> m \<le> max_slots fdt')"
proof (cases "fd_grow_slots fdt m")
  case (Inl e)
  then have "FD_CEILING < m" "e = EMFILE" using fd_grow_slots_total [of m fdt] by (auto simp: not_le fd_grow_slots_def Let_def split: if_splits)
  then show ?thesis using g ok Inl by (simp add: fd_table_grow_def fd_same_refl)
next
  case (Inr n)
  define need where "need = (n + FD_LEAF_PER_PAGE - 1) div FD_LEAF_PER_PAGE"
  have n: "m \<le> n" "n \<le> FD_CEILING" using fd_grow_slots_bounds [OF Inr] by auto
  have nd: "n \<le> need * FD_LEAF_PER_PAGE" unfolding need_def by (rule round_up_ge) (simp add: FD_LEAF_PER_PAGE_def)
  obtain r1 t1 st1 where d: "fd_dir_grow pg need (fdt, st) = (r1, t1, st1)" by (metis prod_cases3)
  note D = fd_dir_grow_same [OF ok d]
  have g': "(case r1 of Inl e \<Rightarrow> (Inl e, t1, st1) | Inr _ \<Rightarrow> fd_bitmap_grow pg n (t1, st1)) = (r, fdt', st')"
    using g unfolding fd_table_grow_def fst_conv Inr sum.case Let_def need_def [symmetric] d prod.case .
  show ?thesis
  proof (cases r1)
    case (Inl e)
    then show ?thesis using g' D by auto
  next
    case r1: (Inr u)
    have "n \<le> dir_capacity t1 * FD_LEAF_PER_PAGE" using D r1 nd by (auto intro: le_trans mult_right_mono)
    moreover have "fd_bitmap_grow pg n (t1, st1) = (r, fdt', st')"
      using g' r1 by simp
    moreover have "fd_ok t1" using D by (simp add: fd_same_def)
    ultimately have "fd_same t1 fdt' \<and> (r = Inl ENOMEM \<or> r = Inr () \<and> n \<le> max_slots fdt')"
      using n(2) fd_bitmap_grow_same [of t1 n pg st1 r fdt' st'] by simp
    then show ?thesis using D n(1) by (auto simp: fd_same_def)
  qed
qed

lemma fd_ensure_capacity_same:
  assumes ok: "fd_ok fdt" and g: "fd_ensure_capacity pg m nofile (fdt, st) = (r, fdt', st')" and n: "nofile \<le> FD_CEILING"
  shows "fd_same fdt fdt' \<and>
     (r = Inl ENOMEM \<or> r = Inl EMFILE \<and> nofile \<le> max_slots fdt \<and> max_slots fdt < m \<or> r = Inr () \<and> min m nofile \<le> max_slots fdt' \<and>
      (m \<le> max_slots fdt \<or> max_slots fdt < max_slots fdt'))"
proof -
  define k where "k = min nofile m"
  have e: "fd_ensure_capacity pg m nofile (fdt, st) =
      (if m \<le> max_slots fdt then (Inr (), fdt, st)
       else if k \<le> max_slots fdt then (Inl EMFILE, fdt, st) else fd_table_grow pg k (fdt, st))"
    using n by (simp add: fd_ensure_capacity_def Let_def k_def min_def)
  have kc: "\<not> FD_CEILING < k" using n by (simp add: k_def)
  show ?thesis
  proof (cases "m \<le> max_slots fdt \<or> k \<le> max_slots fdt")
    case True
    then show ?thesis using g ok unfolding e by (auto simp: fd_same_refl k_def min_def split: if_splits)
  next
    case False
    then have "fd_table_grow pg k (fdt, st) = (r, fdt', st')" using g unfolding e by simp
    from fd_table_grow_same [OF ok this] show ?thesis using kc False by (auto simp: k_def min.commute)
  qed
qed

subsection \<open>Installing and closing\<close>

lemma fd_leaf_alloc_same:
  assumes ok: "fd_ok fdt" and fd: "fd < max_slots fdt" and g: "fd_leaf_alloc pg fd (fdt, st) = (r, fdt', st')"
  shows "fd_same fdt fdt' \<and> max_slots fdt' = max_slots fdt \<and> (r = Inl ENOMEM \<or> r = Inr () \<and> fd_leaf fdt' fd \<noteq> None)"
proof -
  define li where "li = fd div FD_LEAF_PER_PAGE"
  have sh: "fd_shape fdt" using ok by (simp add: fd_ok_def)
  have li: "li < dir_capacity fdt"
    using sh fd by (simp add: li_def fd_shape_def div_less_iff_less_mult FD_LEAF_PER_PAGE_def)
  show ?thesis
  proof (cases "entries_dir fdt ! li")
    case (Some l)
    then show ?thesis using g ok li by (simp add: fd_leaf_alloc_def fd_leaf_def li_def [symmetric] Let_def fd_same_refl)
  next
    case None
    obtain q st1 where a: "po_alloc pg 1 st = (q, st1)" by (rule prod.exhaust)
    show ?thesis
    proof (cases q)
      case None
      then show ?thesis using g a ok \<open>entries_dir fdt ! li = None\<close> by (simp add: fd_leaf_alloc_def li_def [symmetric] Let_def fd_same_refl)
    next
      case (Some p)
      define zero where "zero = replicate FD_LEAF_PER_PAGE \<lparr>fd_type = 0, fd_obj = 0, fd_flags = 0\<rparr>"
      define t where "t = fdt\<lparr>entries_dir := (entries_dir fdt)[li := Some (p, zero)], leaf_count := leaf_count fdt + 1\<rparr>"
      have r: "r = Inr ()" "fdt' = t"
        using g a Some None by (simp_all add: fd_leaf_alloc_def li_def [symmetric] Let_def t_def zero_def)
      have "fd_live t j = fd_live fdt j" for j
      proof (cases "j div FD_LEAF_PER_PAGE = li")
        case True
        have "j mod FD_LEAF_PER_PAGE < FD_LEAF_PER_PAGE" by (simp add: FD_LEAF_PER_PAGE_def)
        then show ?thesis using True li None
          by (simp add: fd_live_def fd_entry_at_def fd_leaf_def t_def zero_def FD_NONE_def)
      next
        case False
        then have "fd_leaf t j = fd_leaf fdt j" by (auto simp: fd_leaf_def Let_def t_def nth_list_update)
        then show ?thesis by (simp add: fd_live_def fd_entry_at_def)
      qed
      then have l: "fd_live t = fd_live fdt" by (rule ext)
      have "leaf_ok (Some (p, zero))" by (simp add: leaf_ok_def zero_def)
      then have "fd_shape t" using sh unfolding fd_shape_def by (simp add: t_def list_all_update)
      then have "fd_ok t" using ok l unfolding fd_ok_def by (simp add: t_def)
      moreover have "fd_leaf t fd \<noteq> None" using li by (simp add: fd_leaf_def li_def [symmetric] t_def)
      ultimately show ?thesis using l by (simp add: r fd_same_def) (simp add: t_def)
    qed
  qed
qed

lemma fd_live_put:
  assumes sh: "fd_shape fdt" and lf: "fd_leaf fdt fd \<noteq> None"
  shows "fd_live (put_entry fdt fd e) = (fd_live fdt)(fd := if fd_type e = FD_NONE then None else Some e)"
    and "fd_shape (put_entry fdt fd e)"
proof -
  define li where "li = fd div FD_LEAF_PER_PAGE"
  define o' where "o' = fd mod FD_LEAF_PER_PAGE"
  obtain a es where l: "entries_dir fdt ! li = Some (a, es)" "li < dir_capacity fdt" "fd_leaf fdt fd = Some (a, es)"
    using lf by (auto simp: fd_leaf_def li_def Let_def split: if_splits)
  have p: "put_entry fdt fd e = fdt\<lparr>entries_dir := (entries_dir fdt)[li := Some (a, es[o' := e])]\<rparr>"
    using l by (simp add: put_entry_def li_def o'_def)
  have len: "length es = FD_LEAF_PER_PAGE" using list_all_slot [of leaf_ok "entries_dir fdt" li] sh l by (simp add: fd_shape_def leaf_ok_def)
  have o: "o' < FD_LEAF_PER_PAGE" by (simp add: o'_def FD_LEAF_PER_PAGE_def)
  have "fd_live (put_entry fdt fd e) j = ((fd_live fdt)(fd := if fd_type e = FD_NONE then None else Some e)) j" for j
  proof (cases "j div FD_LEAF_PER_PAGE = li")
    case True
    then have "j = fd \<longleftrightarrow> j mod FD_LEAF_PER_PAGE = o'" unfolding li_def o'_def by (metis div_mult_mod_eq)
    then show ?thesis using True l len o
      by (auto simp: fd_live_def fd_entry_at_def fd_leaf_def p nth_list_update)
  next
    case False
    then have "fd_leaf (put_entry fdt fd e) j = fd_leaf fdt j" by (auto simp: p fd_leaf_def Let_def nth_list_update)
    moreover have "j \<noteq> fd" using False by (auto simp: li_def)
    ultimately show ?thesis by (simp add: fd_live_def fd_entry_at_def)
  qed
  then show "fd_live (put_entry fdt fd e) = (fd_live fdt)(fd := if fd_type e = FD_NONE then None else Some e)" by (rule ext)
  show "fd_shape (put_entry fdt fd e)"
    using sh list_all_update [of leaf_ok "entries_dir fdt" "Some (a, es[o' := e])" li] len
    by (simp add: fd_shape_def p leaf_ok_def)
qed

lemma put_entry_fields [simp]:
  "free_bitmap (put_entry fdt fd e) = free_bitmap fdt" "max_slots (put_entry fdt fd e) = max_slots fdt"
  "max_fd (put_entry fdt fd e) = max_fd fdt" "refcount (put_entry fdt fd e) = refcount fdt"
  by (simp_all add: put_entry_def split: option.splits prod.splits)

lemma fd_use_ok:
  assumes ok: "fd_ok fdt" and fd: "fd < max_slots fdt" "fd_leaf fdt fd \<noteq> None" and e: "fd_type e \<noteq> FD_NONE"
    and k: "fd < k" "max_fd fdt \<le> k"
    and t: "t = (fd_mark_used (put_entry fdt fd e) fd)\<lparr>max_fd := k\<rparr>"
  shows "fd_ok t \<and> fd_live t = (fd_live fdt)(fd \<mapsto> e)"
proof -
  have sh: "fd_shape fdt" using ok by (simp add: fd_ok_def)
  have "fd_live t = fd_live (put_entry fdt fd e)" by (rule fd_live_cong) (simp add: t fd_mark_used_def)
  then have l: "fd_live t = (fd_live fdt)(fd \<mapsto> e)" using fd_live_put(1) [OF sh fd(2)] e by simp
  have "fd_shape t" using fd_live_put(2) [OF sh fd(2), of e] by (simp add: t fd_shape_def fd_mark_used_def)
  moreover have "bm_test (free_bitmap t) b \<longleftrightarrow> b < max_slots t \<and> fd_live t b = None" if "b < 64 * length (free_bitmap t)" for b
    using that ok fd_ok_bit(2) [OF ok fd(1)] unfolding l by (auto simp: t fd_mark_used_def bm.test_clear fd_ok_def)
  moreover have "b < max_slots t \<and> b < max_fd t" if "fd_live t b \<noteq> None" for b
  proof -
    have "b = fd \<or> fd_live fdt b \<noteq> None" using that unfolding l by (auto split: if_splits)
    then show ?thesis using ok fd(1) k by (auto simp: fd_ok_def t fd_mark_used_def simp del: not_None_eq intro: less_le_trans)
  qed
  ultimately show ?thesis using l by (auto simp: fd_ok_def)
qed

lemma fd_put_ok:
  assumes ok: "fd_ok fdt" and fd: "fd < max_slots fdt" and e: "fd_type e \<noteq> FD_NONE" and p: "fd_put pg fd e (fdt, st) = (r, fdt', st')"
  shows "r = Inl ENOMEM \<and> fd_same fdt fdt' \<or> r = Inr fd \<and> fd_ok fdt' \<and> fd_live fdt' = (fd_live fdt)(fd \<mapsto> e)"
proof -
  obtain r1 t1 st1 where a: "fd_leaf_alloc pg fd (fdt, st) = (r1, t1, st1)" by (rule prod_cases3)
  note A = fd_leaf_alloc_same [OF ok fd a]
  note p' = p [unfolded fd_put_def a prod.case Let_def]
  show ?thesis
  proof (cases r1)
    case (Inl x)
    then show ?thesis using p' A by auto
  next
    case (Inr u)
    have t1: "fd_ok t1" "fd < max_slots t1" "fd_leaf t1 fd \<noteq> None" "fd_live t1 = fd_live fdt"
      using A Inr fd by (auto simp: fd_same_def)
    define k where "k = (if max_fd t1 \<le> fd then fd + 1 else max_fd t1)"
    have "fdt' = (fd_mark_used (put_entry t1 fd e) fd)\<lparr>max_fd := k\<rparr>" and r: "r = Inr fd"
      using p' Inr by (auto simp: k_def fd_mark_used_def)
    then have "fd_ok fdt' \<and> fd_live fdt' = (fd_live t1)(fd \<mapsto> e)"
      using fd_use_ok [OF t1(1-3) e, of k fdt'] by (simp add: k_def split: if_splits)
    then show ?thesis using r t1(4) by simp
  qed
qed

lemma fd_close_ok:
  assumes ok: "fd_ok fdt" and c: "fd_close fdt fd = (b, fdt')"
  shows "fd_ok fdt' \<and> (b \<longleftrightarrow> 0 \<le> fd \<and> fd_live fdt (nat fd) \<noteq> None) \<and> fd_live fdt' = (if b then (fd_live fdt)(nat fd := None) else fd_live fdt)"
proof (cases "fd_get fdt fd")
  case None
  then have "fd < 0 \<or> fd_live fdt (nat fd) = None" using fd_get_live [OF ok, of "nat fd"] by (cases "0 \<le> fd") auto
  then show ?thesis using c None ok by (auto simp: fd_close_def)
next
  case (Some e)
  define n where "n = nat fd"
  have f: "0 \<le> fd" "n < max_slots fdt" using Some by (auto simp: fd_get_def n_def split: if_splits)
  then have lv: "fd_live fdt n = Some e" using fd_get_live [OF ok, of n] Some by (simp add: n_def)
  then have lf: "fd_leaf fdt n \<noteq> None" by (cases "fd_leaf fdt n") (simp_all add: fd_live_def fd_entry_at_def)
  define e' where "e' = e\<lparr>fd_type := FD_NONE, fd_obj := 0\<rparr>"
  have t: "b" "fdt' = fd_mark_free (put_entry fdt n e') n" using c Some by (auto simp: fd_close_def n_def e'_def)
  have sh: "fd_shape fdt" using ok by (simp add: fd_ok_def)
  have "fd_live fdt' = fd_live (put_entry fdt n e')" by (rule fd_live_cong) (simp add: t fd_mark_free_def)
  then have l: "fd_live fdt' = (fd_live fdt)(n := None)" using fd_live_put(1) [OF sh lf, of e'] by (simp add: e'_def)
  have "fd_shape fdt'" using fd_live_put(2) [OF sh lf, of e'] by (simp add: t fd_shape_def fd_mark_free_def)
  moreover have "bm_test (free_bitmap fdt') b \<longleftrightarrow> b < max_slots fdt' \<and> fd_live fdt' b = None" if "b < 64 * length (free_bitmap fdt')" for b
    using that ok f(2) fd_ok_bit(2) [OF ok f(2)] unfolding l by (auto simp: t fd_mark_free_def bm.test_set fd_ok_def)
  moreover have "b < max_slots fdt' \<and> b < max_fd fdt'" if "fd_live fdt' b \<noteq> None" for b
    using that ok unfolding l by (auto simp: fd_ok_def t fd_mark_free_def split: if_splits)
  ultimately have "fd_ok fdt'" by (auto simp: fd_ok_def)
  then show ?thesis using f lv l t(1) by (simp add: n_def)
qed

subsection \<open>The abstract table\<close>

text \<open>
  What a caller may rely on, over the map of live descriptors: a claim takes the lowest free number from
  \<open>lo\<close> on and fails only for want of memory or when every number below the limit is taken.
\<close>

type_synonym fd_state = "nat \<Rightarrow> fd_entry option"

definition fd_claimed :: "nat \<Rightarrow> nat \<Rightarrow> fd_entry \<Rightarrow> fd_state \<Rightarrow> nat result \<Rightarrow> fd_state \<Rightarrow> bool" where
  "fd_claimed lo nofile e m r m' =
     (case r of
        Inr fd \<Rightarrow> lo \<le> fd \<and> fd < nofile \<and> m fd = None \<and> {lo..<fd} \<subseteq> dom m \<and> m' = m(fd \<mapsto> e)
      | Inl err \<Rightarrow> m' = m \<and> (err = ENOMEM \<or> err = EMFILE \<and> {lo..<nofile} \<subseteq> dom m))"

definition fd_claim :: "'s page_ops \<Rightarrow> nat \<Rightarrow> nat \<Rightarrow> nat \<Rightarrow> fd_entry \<Rightarrow> fd_table \<times> 's \<Rightarrow> nat result \<times> fd_table \<times> 's" where
  "fd_claim pg m lo nofile e x =
     (case fd_lowest (fst x) lo nofile of
        Some fd \<Rightarrow> fd_put pg fd e x
      | None \<Rightarrow>
         (case fd_ensure_capacity pg m nofile x of
            (Inl err, x1) \<Rightarrow> (Inl err, x1)
          | (Inr _, x1) \<Rightarrow>
             (case fd_lowest (fst x1) lo nofile of None \<Rightarrow> (Inl EMFILE, x1) | Some fd \<Rightarrow> fd_put pg fd e x1)))"

lemma fd_lowest_put:
  assumes ok: "fd_ok fdt" and e: "fd_type e \<noteq> FD_NONE" and f: "fd_lowest fdt lo nofile = Some fd"
    and p: "fd_put pg fd e (fdt, st) = (r, fdt', st')"
  shows "fd_ok fdt' \<and> fd_claimed lo nofile e (fd_live fdt) r (fd_live fdt')"
proof -
  have f': "fd_find_free fdt lo = Some fd" "fd < nofile" using f by (auto simp: fd_lowest_def split: option.splits if_splits)
  then have w: "lo \<le> fd" "fd < max_slots fdt" "fd_live fdt fd = None" "\<And>i. lo \<le> i \<Longrightarrow> i < fd \<Longrightarrow> fd_live fdt i \<noteq> None"
    using fd_find_free_lowest [OF ok, of lo] by (auto simp: lowest_from_def)
  then have "{lo..<fd} \<subseteq> dom (fd_live fdt)" by (auto simp: dom_def)
  then show ?thesis using fd_put_ok [OF ok w(2) e p] w f'(2) by (auto simp: fd_claimed_def fd_same_def)
qed

lemma fd_lowest_none:
  assumes ok: "fd_ok fdt" and f: "fd_lowest fdt lo nofile = None"
  shows "{lo..<min nofile (max_slots fdt)} \<subseteq> dom (fd_live fdt)"
proof (cases "fd_find_free fdt lo")
  case None
  then show ?thesis using fd_find_free_lowest [OF ok, of lo] by (auto simp: lowest_from_def dom_def)
next
  case (Some fd)
  then have "nofile \<le> fd" using f by (auto simp: fd_lowest_def split: if_splits)
  then show ?thesis using Some fd_find_free_lowest [OF ok, of lo] by (auto simp: lowest_from_def dom_def)
qed

lemma fd_claim_ok:
  assumes ok: "fd_ok fdt" and e: "fd_type e \<noteq> FD_NONE" and n: "lo < nofile" "nofile \<le> FD_CEILING"
    and m: "max_slots fdt < m" "lo < m" and c: "fd_claim pg m lo nofile e (fdt, st) = (r, fdt', st')"
  shows "fd_ok fdt' \<and> fd_claimed lo nofile e (fd_live fdt) r (fd_live fdt')"
proof (cases "fd_lowest fdt lo nofile")
  case (Some fd)
  then have "fd_put pg fd e (fdt, st) = (r, fdt', st')" using c by (simp add: fd_claim_def)
  then show ?thesis by (rule fd_lowest_put [OF ok e Some])
next
  case None
  note full = fd_lowest_none [OF ok None]
  obtain r1 t1 st1 where a: "fd_ensure_capacity pg m nofile (fdt, st) = (r1, t1, st1)" by (rule prod_cases3)
  note A = fd_ensure_capacity_same [OF ok a n(2)]
  have ok1: "fd_ok t1" and l1: "fd_live t1 = fd_live fdt" using A by (auto simp: fd_same_def)
  note c' = c [unfolded fd_claim_def fst_conv None option.case a prod.case]
  show ?thesis
  proof (cases r1)
    case (Inl x)
    then have "r = Inl x" "fdt' = t1" using c' by auto
    then show ?thesis using A Inl full ok1 l1 by (auto simp: fd_claimed_def min_def)
  next
    case r1: (Inr u)
    then have bigger: "max_slots fdt < max_slots t1" "min m nofile \<le> max_slots t1" using A m by auto
    show ?thesis
    proof (cases "fd_lowest t1 lo nofile")
      case (Some fd)
      then have "fd_put pg fd e (t1, st1) = (r, fdt', st')" using c' r1 by simp
      then show ?thesis using fd_lowest_put [OF ok1 e Some, of pg st1 r fdt' st'] l1 by simp
    next
      case N: None
      define w where "w = max lo (max_slots fdt)"
      have free: "fd_live t1 w = None" using ok unfolding l1 fd_ok_def w_def by (metis max.cobounded2 not_less)
      have "w < max_slots t1" using bigger n(1) m(2) by (auto simp: w_def)
      moreover have "w \<notin> {lo..<min nofile (max_slots t1)}" using fd_lowest_none [OF ok1 N] free by blast
      ultimately have "\<not> w < nofile" by (simp add: w_def)
      then have "nofile \<le> max_slots fdt" using n(1) by (auto simp: w_def max_def split: if_splits)
      then have "{lo..<nofile} \<subseteq> dom (fd_live fdt)" using full by (simp add: min_def)
      moreover have "r = Inl EMFILE" "fdt' = t1" using c' r1 N by auto
      ultimately show ?thesis using ok1 l1 by (simp add: fd_claimed_def)
    qed
  qed
qed

datatype fd_op = Fd_alloc fd_entry | Fd_dup int fd_entry int | Fd_install int fd_entry | Fd_close int

datatype fd_answer = Got "nat result" | Closed bool

definition fd_apply :: "'s page_ops \<Rightarrow> nat option \<Rightarrow> fd_op \<Rightarrow> fd_table \<times> 's \<Rightarrow> fd_answer \<times> fd_table \<times> 's" where
  "fd_apply pg rlim op x =
     (case op of
        Fd_alloc e \<Rightarrow> map_prod Got id (fd_alloc pg rlim (fd_type e) (fd_obj e) (fd_flags e) x)
      | Fd_dup lo src fl \<Rightarrow> map_prod Got id (fd_dup_at pg rlim lo src fl x)
      | Fd_install n src \<Rightarrow> map_prod Got id (fd_install_at pg rlim n src x)
      | Fd_close n \<Rightarrow> (case fd_close (fst x) n of (b, t) \<Rightarrow> (Closed b, t, snd x)))"

fun fd_op_ok :: "fd_op \<Rightarrow> bool" where
  "fd_op_ok (Fd_alloc e) = (fd_type e \<noteq> FD_NONE)"
| "fd_op_ok (Fd_dup _ e _) = (fd_type e \<noteq> FD_NONE)"
| "fd_op_ok (Fd_install _ e) = (fd_type e \<noteq> FD_NONE)"
| "fd_op_ok (Fd_close _) = True"

fun fd_spec :: "nat \<Rightarrow> fd_state \<Rightarrow> fd_op \<Rightarrow> fd_answer \<Rightarrow> fd_state \<Rightarrow> bool" where
  "fd_spec nofile m (Fd_alloc e) (Got r) m' = fd_claimed 0 nofile e m r m'"
| "fd_spec nofile m (Fd_dup lo src fl) (Got r) m' =
     (if lo < 0 then r = Inl EINVAL \<and> m' = m
      else if nofile \<le> nat lo then r = Inl EMFILE \<and> m' = m
      else fd_claimed (nat lo) nofile (src\<lparr>fd_flags := fl\<rparr>) m r m')"
| "fd_spec nofile m (Fd_install n src) (Got r) m' =
     (if n < 0 then r = Inl EBADF \<and> m' = m
      else if nofile \<le> nat n then r = Inl EMFILE \<and> m' = m
      else r = Inl ENOMEM \<and> m' = m \<or> r = Inr 0 \<and> m' = m(nat n \<mapsto> src))"
| "fd_spec nofile m (Fd_close n) (Closed b) m' =
     ((b \<longleftrightarrow> 0 \<le> n \<and> m (nat n) \<noteq> None) \<and> m' = (if b then m(nat n := None) else m))"
| "fd_spec _ _ _ _ _ = False"

subsection \<open>The operations implement it\<close>

lemma fd_alloc_claim:
  "fd_alloc pg rlim ty obj fl x =
   fd_claim pg (if max_slots (fst x) \<noteq> 0 then max_slots (fst x) + 1 else FD_INIT_SLOTS) 0 (fd_effective_nofile rlim)
     \<lparr>fd_type = ty, fd_obj = obj, fd_flags = fl\<rparr> x"
  by (simp add: fd_alloc_def fd_claim_def Let_def)

lemma fd_dup_at_claim:
  "0 \<le> lo \<Longrightarrow> nat lo < fd_effective_nofile rlim \<Longrightarrow>
   fd_dup_at pg rlim lo src fl x =
   fd_claim pg (if max_slots (fst x) * 2 \<le> nat lo then nat lo + 1 else max_slots (fst x) * 2) (nat lo) (fd_effective_nofile rlim)
     (src\<lparr>fd_flags := fl\<rparr>) x"
  unfolding fd_dup_at_def fd_claim_def Let_def by (simp only: not_less [symmetric] if_False simp_thms)

lemma effective_nofile_pos: "0 < fd_effective_nofile rlim"
  by (simp add: fd_effective_nofile_def FD_DEFAULT_NOFILE_def split: option.splits)

lemma fd_alloc_ok:
  assumes ok: "fd_ok fdt" and e: "fd_type e \<noteq> FD_NONE" and n: "fd_effective_nofile rlim \<le> FD_CEILING"
    and a: "fd_alloc pg rlim (fd_type e) (fd_obj e) (fd_flags e) (fdt, st) = (r, fdt', st')"
  shows "fd_ok fdt' \<and> fd_claimed 0 (fd_effective_nofile rlim) e (fd_live fdt) r (fd_live fdt')"
proof -
  let ?m = "if max_slots fdt \<noteq> 0 then max_slots fdt + 1 else FD_INIT_SLOTS"
  have "fd_claim pg ?m 0 (fd_effective_nofile rlim) e (fdt, st) = (r, fdt', st')"
    using a unfolding fd_alloc_claim fst_conv by (cases e) (simp only: fd_entry.simps)
  then show ?thesis by (rule fd_claim_ok [OF ok e effective_nofile_pos n, rotated 2]) (simp_all add: FD_INIT_SLOTS_def)
qed

lemma fd_dup_at_ok:
  assumes ok: "fd_ok fdt" and e: "fd_type src \<noteq> FD_NONE" and n: "fd_effective_nofile rlim \<le> FD_CEILING"
    and a: "fd_dup_at pg rlim lo src fl (fdt, st) = (r, fdt', st')"
  shows "fd_ok fdt' \<and> fd_spec (fd_effective_nofile rlim) (fd_live fdt) (Fd_dup lo src fl) (Got r) (fd_live fdt')"
proof (cases "0 \<le> lo \<and> nat lo < fd_effective_nofile rlim")
  case False
  then show ?thesis using a ok by (auto simp: fd_dup_at_def Let_def not_less split: if_splits)
next
  case True
  let ?m = "if max_slots fdt * 2 \<le> nat lo then nat lo + 1 else max_slots fdt * 2"
  have "fd_claim pg ?m (nat lo) (fd_effective_nofile rlim) (src\<lparr>fd_flags := fl\<rparr>) (fdt, st) = (r, fdt', st')"
    using a True fd_dup_at_claim [of lo rlim pg src fl "(fdt, st)"] unfolding fst_conv by simp
  then have "fd_ok fdt' \<and> fd_claimed (nat lo) (fd_effective_nofile rlim) (src\<lparr>fd_flags := fl\<rparr>) (fd_live fdt) r (fd_live fdt')"
    by (rule fd_claim_ok [OF ok _ _ n, rotated 4]) (use e True in auto)
  then show ?thesis using True by simp
qed

lemma fd_install_at_ok:
  assumes ok: "fd_ok fdt" and e: "fd_type src \<noteq> FD_NONE" and n: "fd_effective_nofile rlim \<le> FD_CEILING"
    and a: "fd_install_at pg rlim newfd src (fdt, st) = (r, fdt', st')"
  shows "fd_ok fdt' \<and> fd_spec (fd_effective_nofile rlim) (fd_live fdt) (Fd_install newfd src) (Got r) (fd_live fdt')"
proof (cases "0 \<le> newfd \<and> nat newfd < fd_effective_nofile rlim")
  case False
  then show ?thesis using a ok by (auto simp: fd_install_at_def Let_def not_less split: if_splits)
next
  case True
  define k where "k = nat newfd"
  define nofile where "nofile = fd_effective_nofile rlim"
  obtain r1 t1 st1 where g: "(if max_slots fdt \<le> k then fd_ensure_capacity pg (k + 1) nofile (fdt, st) else (Inr (), fdt, st)) = (r1, t1, st1)"
    by (rule prod_cases3)
  obtain r2 t2 st2 where p: "fd_put pg k src (t1, st1) = (r2, t2, st2)" by (rule prod_cases3)
  have a': "(case r1 of Inl err \<Rightarrow> (Inl err, t1, st1) | Inr _ \<Rightarrow> map_prod (map_sum id (\<lambda>_. 0)) id (fd_put pg k src (t1, st1))) = (r, fdt', st')"
    using a True unfolding fd_install_at_def Let_def fst_conv k_def [symmetric] nofile_def [symmetric] g by (simp add: not_le)
  have A: "fd_same fdt t1 \<and> (r1 = Inl ENOMEM \<or> r1 = Inr () \<and> k < max_slots t1)"
  proof (cases "max_slots fdt \<le> k")
    case b: True
    then have "fd_ensure_capacity pg (k + 1) nofile (fdt, st) = (r1, t1, st1)" using g by simp
    from fd_ensure_capacity_same [OF ok this] n b True show ?thesis by (auto simp: nofile_def k_def)
  next
    case False
    then show ?thesis using g ok by (simp add: fd_same_refl)
  qed
  then have t1: "fd_ok t1" "fd_live t1 = fd_live fdt" by (auto simp: fd_same_def)
  show ?thesis
  proof (cases r1)
    case (Inl x)
    then show ?thesis using a' A t1 True by (auto simp: k_def)
  next
    case (Inr u)
    then have "k < max_slots t1" using A by auto
    from fd_put_ok [OF t1(1) this e p] show ?thesis using a' Inr p t1 True by (auto simp: fd_same_def k_def)
  qed
qed

lemma fd_apply_ok:
  assumes "fd_ok fdt" "fd_op_ok op" "fd_effective_nofile rlim \<le> FD_CEILING" and a: "fd_apply pg rlim op (fdt, st) = (r, fdt', st')"
  shows "fd_ok fdt' \<and> fd_spec (fd_effective_nofile rlim) (fd_live fdt) op r (fd_live fdt')"
proof (cases op)
  case (Fd_alloc e)
  then show ?thesis using assms fd_alloc_ok [of fdt e rlim pg st] by (auto simp: fd_apply_def map_prod_def split: prod.splits)
next
  case (Fd_dup lo src fl)
  then show ?thesis using assms fd_dup_at_ok [of fdt src rlim pg lo fl st] by (auto simp: fd_apply_def map_prod_def split: prod.splits simp del: fd_spec.simps)
next
  case (Fd_install n src)
  then show ?thesis using assms fd_install_at_ok [of fdt src rlim pg n st] by (auto simp: fd_apply_def map_prod_def split: prod.splits simp del: fd_spec.simps)
next
  case (Fd_close n)
  then show ?thesis using assms fd_close_ok [of fdt n] by (auto simp: fd_apply_def split: prod.splits)
qed

subsection \<open>A table from its first day\<close>

lemma fd_ok_reset: "fd_ok (fd_reset fdt)" "fd_live (fd_reset fdt) = Map.empty"
proof -
  show l: "fd_live (fd_reset fdt) = Map.empty"
    by (rule ext) (simp add: fd_live_def fd_entry_at_def fd_leaf_def fd_reset_def empty_fds_def)
  show "fd_ok (fd_reset fdt)"
    unfolding fd_ok_def l by (simp add: fd_shape_def fd_reset_def empty_fds_def fd_bitmap_alloc_slots_def)
qed

lemma put_entry_mark [simp]: "put_entry (fd_mark_used t i\<lparr>max_fd := k\<rparr>) fd e = fd_mark_used (put_entry t fd e) i\<lparr>max_fd := k\<rparr>"
  by (simp add: put_entry_def fd_leaf_def fd_mark_used_def Let_def split: option.splits)

lemma fd_leaf_put: "fd_leaf (put_entry t fd e) j = None \<longleftrightarrow> fd_leaf t j = None"
  by (auto simp: put_entry_def fd_leaf_def Let_def nth_list_update split: option.splits if_splits)

lemma fd_leaf_mark [simp]: "fd_leaf (fd_mark_used t i\<lparr>max_fd := k\<rparr>) j = fd_leaf t j"
  by (simp add: fd_leaf_def fd_mark_used_def Let_def cong: if_cong)

lemma max_slots_mark [simp]: "max_slots (fd_mark_used t i\<lparr>max_fd := k\<rparr>) = max_slots t" "max_fd (fd_mark_used t i\<lparr>max_fd := k\<rparr>) = k"
  by (simp_all add: fd_mark_used_def)

definition stdio_map :: "int \<Rightarrow> fd_state" where
  "stdio_map pty = [0 \<mapsto> fd_stdio pty 0, 1 \<mapsto> fd_stdio pty 1, 2 \<mapsto> fd_stdio pty 1]"

lemma fd_stdio_type: "fd_type (fd_stdio pty m) \<noteq> FD_NONE"
  by (simp add: fd_stdio_def FD_NONE_def FD_PTY_SLAVE_def FD_SERIAL_def)

lemma fd_stdio_ok:
  assumes ok: "fd_ok t" and s: "3 \<le> max_slots t" "max_fd t \<le> 3" "fd_live t = Map.empty"
    and lf: "fd_leaf t 0 \<noteq> None" "fd_leaf t 1 \<noteq> None" "fd_leaf t 2 \<noteq> None"
    and t': "t' = fd_mark_used (fd_mark_used (fd_mark_used (put_entry (put_entry (put_entry t 0 (fd_stdio pty 0)) 1 (fd_stdio pty 1)) 2 (fd_stdio pty 1)) 0) 1) 2\<lparr>max_fd := 3\<rparr>"
  shows "fd_ok t' \<and> fd_live t' = stdio_map pty"
proof -
  define t0 where "t0 = fd_mark_used (put_entry t 0 (fd_stdio pty 0)) 0\<lparr>max_fd := 3\<rparr>"
  define t1 where "t1 = fd_mark_used (put_entry t0 1 (fd_stdio pty 1)) 1\<lparr>max_fd := 3\<rparr>"
  define t2 where "t2 = fd_mark_used (put_entry t1 2 (fd_stdio pty 1)) 2\<lparr>max_fd := 3\<rparr>"
  have 0: "fd_ok t0 \<and> fd_live t0 = (fd_live t)(0 \<mapsto> fd_stdio pty 0)"
    by (rule fd_use_ok [OF ok _ lf(1) fd_stdio_type _ _ t0_def]) (use s in simp_all)
  have 1: "fd_ok t1 \<and> fd_live t1 = (fd_live t0)(1 \<mapsto> fd_stdio pty 1)"
    by (rule fd_use_ok [OF conjunct1 [OF 0] _ _ fd_stdio_type _ _ t1_def]) (use s lf in \<open>simp_all add: t0_def fd_leaf_put\<close>)
  have 2: "fd_ok t2 \<and> fd_live t2 = (fd_live t1)(2 \<mapsto> fd_stdio pty 1)"
    by (rule fd_use_ok [OF conjunct1 [OF 1] _ _ fd_stdio_type _ _ t2_def]) (use s lf in \<open>simp_all add: t1_def t0_def fd_leaf_put\<close>)
  have "t' = t2" by (simp add: t' t2_def t1_def t0_def) (simp add: fd_mark_used_def)
  then show ?thesis using 0 1 2 s(3) by (simp add: stdio_map_def)
qed

lemma fd_table_init_ok:
  assumes g: "fd_table_init pg pty (fdt, st) = (r, fdt', st')"
  shows "r = Inl ENOMEM \<or> r = Inr () \<and> fd_ok fdt' \<and> fd_live fdt' = stdio_map pty"
proof -
  obtain r1 t1 st1 where a: "fd_table_grow pg FD_INIT_SLOTS (fd_reset fdt, st) = (r1, t1, st1)" by (rule prod_cases3)
  note A = fd_table_grow_same [OF fd_ok_reset(1) a]
  obtain r2 t2 st2 where b: "fd_leaf_alloc pg 0 (t1, st1) = (r2, t2, st2)" by (rule prod_cases3)
  note g' = g [unfolded fd_table_init_def fst_conv snd_conv a prod.case b Let_def]
  show ?thesis
  proof (cases "r1 = Inr () \<and> r2 = Inr ()")
    case False
    then show ?thesis using g' by (auto split: sum.splits)
  next
    case True
    then have t1: "fd_ok t1" "64 \<le> max_slots t1" "fd_live t1 = Map.empty"
      using A fd_ok_reset(2) by (auto simp: fd_same_def FD_INIT_SLOTS_def)
    then have B: "fd_same t1 t2" "fd_leaf t2 0 \<noteq> None" using fd_leaf_alloc_same [OF t1(1) _ b] True by auto
    have "fd_leaf t2 1 = fd_leaf t2 0" "fd_leaf t2 2 = fd_leaf t2 0" by (simp_all add: fd_leaf_def FD_LEAF_PER_PAGE_def)
    moreover have "max_fd t2 \<le> 3" using A B by (simp add: fd_same_def fd_reset_def empty_fds_def)
    ultimately have "fd_ok fdt' \<and> fd_live fdt' = stdio_map pty"
      using True g' B t1 by (intro fd_stdio_ok [of t2]) (auto simp: fd_same_def)
    then show ?thesis using g' True by auto
  qed
qed

fun fd_run :: "'s page_ops \<Rightarrow> nat option \<Rightarrow> fd_op list \<Rightarrow> fd_table \<times> 's \<Rightarrow> fd_answer list \<times> fd_table \<times> 's" where
  "fd_run pg rlim [] x = ([], x)"
| "fd_run pg rlim (op # ops) x = (case fd_apply pg rlim op x of (r, x1) \<Rightarrow> map_prod ((#) r) id (fd_run pg rlim ops x1))"

fun fd_trace :: "nat \<Rightarrow> fd_state \<Rightarrow> fd_op list \<Rightarrow> fd_answer list \<Rightarrow> fd_state \<Rightarrow> bool" where
  "fd_trace nofile m [] rs m' \<longleftrightarrow> rs = [] \<and> m' = m"
| "fd_trace nofile m (op # ops) rs m' \<longleftrightarrow>
     (\<exists>r rs1 m1. rs = r # rs1 \<and> fd_spec nofile m op r m1 \<and> fd_trace nofile m1 ops rs1 m')"

lemma fd_run_trace:
  assumes "fd_ok fdt" "list_all fd_op_ok ops" and n: "fd_effective_nofile rlim \<le> FD_CEILING"
    and "fd_run pg rlim ops (fdt, st) = (rs, fdt', st')"
  shows "fd_ok fdt' \<and> fd_trace (fd_effective_nofile rlim) (fd_live fdt) ops rs (fd_live fdt')"
  using assms(1,2,4)
proof (induction ops arbitrary: fdt st rs)
  case (Cons op ops)
  obtain r t1 st1 where a: "fd_apply pg rlim op (fdt, st) = (r, t1, st1)" by (rule prod_cases3)
  obtain rs1 t2 st2 where b: "fd_run pg rlim ops (t1, st1) = (rs1, t2, st2)" by (rule prod_cases3)
  have e: "rs = r # rs1" "fdt' = t2" "st' = st2" using Cons.prems(3) a b by auto
  have "fd_ok t1 \<and> fd_spec (fd_effective_nofile rlim) (fd_live fdt) op r (fd_live t1)"
    using Cons.prems n a by (intro fd_apply_ok) auto
  then show ?case using Cons.IH [of t1 st1 rs1] Cons.prems(2) b unfolding e fd_trace.simps by auto
qed simp

text \<open>
  CX: A descriptor table behaves as a map from numbers to open objects. Whatever a table does from its
  creation on, however its directory, leaves and bitmap grow and wherever an allocation fails, every
  answer is the one of the abstract table: a new descriptor is the lowest free one from the wanted
  number on and below the limit, \<^verbatim>\<open>EMFILE\<close> means that no such number is free, a failing call changes
  nothing, and installing and closing touch their own number only.
\<close>

theorem fd_table_is_map:
  assumes "list_all fd_op_ok ops" and "fd_effective_nofile rlim \<le> FD_CEILING"
  shows "case fd_table_init pg pty x of
           (Inl e, _) \<Rightarrow> e = ENOMEM
         | (Inr _, x1) \<Rightarrow>
            (case fd_run pg rlim ops x1 of
               (rs, fdt, _) \<Rightarrow> fd_ok fdt \<and> fd_trace (fd_effective_nofile rlim) (stdio_map pty) ops rs (fd_live fdt))"
proof -
  obtain r1 t1 st1 where a: "fd_table_init pg pty (fst x, snd x) = (r1, t1, st1)" by (rule prod_cases3)
  obtain rs t2 st2 where b: "fd_run pg rlim ops (t1, st1) = (rs, t2, st2)" by (rule prod_cases3)
  from fd_table_init_ok [OF a] show ?thesis
    using a b fd_run_trace [OF _ assms b] by auto
qed

text \<open>The page allocator of the kernel as the source of the blocks.\<close>

definition buddy_pages :: "buddy page_ops" where
  "buddy_pages = \<lparr>po_alloc = pages_alloc idle_hooks None, po_free = pages_release\<rparr>"

definition sample_fd_ops :: "fd_op list" where
  "sample_fd_ops = [Fd_alloc (fd_stdio (- 1) 2), Fd_close 1, Fd_dup 1 (fd_stdio 3 0) 0, Fd_install 900 (fd_stdio 3 0)]"

theorem fd_table_is_map_witness:
  "list_all fd_op_ok sample_fd_ops \<and> fd_effective_nofile None \<le> FD_CEILING \<and>
   (case fd_table_init buddy_pages (- 1) (empty_fds, small_buddy) of
      (Inl e, _) \<Rightarrow> e = ENOMEM
    | (Inr _, x1) \<Rightarrow>
       (case fd_run buddy_pages None sample_fd_ops x1 of
          (rs, fdt, _) \<Rightarrow> fd_ok fdt \<and> fd_trace (fd_effective_nofile None) (stdio_map (- 1)) sample_fd_ops rs (fd_live fdt)))"
proof -
  have o: "list_all fd_op_ok sample_fd_ops" using fd_stdio_type by (simp add: sample_fd_ops_def)
  have n: "fd_effective_nofile None \<le> FD_CEILING" by (simp add: fd_effective_nofile_def FD_DEFAULT_NOFILE_def FD_CEILING_def)
  show ?thesis by (intro conjI o n fd_table_is_map [OF o n])
qed

end
