(* ===== verification/Fd_Heap_Props.thy ===== *)
theory Fd_Heap_Props
  imports Fd_Heap Fd_Table_Props
begin

section \<open>Shared descriptor tables: proofs\<close>

text \<open>
  A process that stops sharing its table gets a copy with the same descriptors and one more reference to every
  object behind them, or keeps its table when memory is short.
\<close>

subsection \<open>Copying the entries\<close>

text \<open>The copy sets the upper bound only at the end, so the invariant is about the table with the bound in place.\<close>

lemma fd_leaf_alloc_max_fd:
  "fd_leaf_alloc pg i (t, st) = (r, t1, st1) \<Longrightarrow> fd_leaf_alloc pg i (t\<lparr>max_fd := k\<rparr>, st) = (r, t1\<lparr>max_fd := k\<rparr>, st1)"
  by (auto simp: fd_leaf_alloc_def Let_def split: option.splits prod.splits if_splits)

definition live_entries :: "fd_table \<Rightarrow> nat list \<Rightarrow> fd_entry list" where
  "live_entries fdt is = List.map_filter (fd_live fdt) is"

lemma live_entries_simps [simp]:
  "live_entries fdt [] = []"
  "live_entries fdt (i # is) = (case fd_live fdt i of None \<Rightarrow> live_entries fdt is | Some e \<Rightarrow> e # live_entries fdt is)"
  by (simp_all add: live_entries_def List.map_filter_simps split: option.splits)

lemma fd_live_type: "fd_live fdt i = Some e \<Longrightarrow> fd_type e \<noteq> FD_NONE"
  by (auto simp: fd_live_def split: option.splits if_splits)

lemma copy_fds_live:
  "copy_fds sys old (i # is) (neu, st, ob) =
   (case fd_live old i of
      None \<Rightarrow> copy_fds sys old is (neu, st, ob)
    | Some src \<Rightarrow>
        (case fd_leaf_alloc (pages_of sys) i (neu, st) of
           (Inl _, (neu1, st1)) \<Rightarrow> (False, neu1, st1, ob)
         | (Inr _, (neu1, st1)) \<Rightarrow> copy_fds sys old is (fd_mark_used (put_entry neu1 i src) i, st1, copy_ref sys src ob)))"
  by (simp add: fd_live_def split: option.splits)

lemma put_entry_max_fd: "put_entry (t\<lparr>max_fd := k\<rparr>) i e = put_entry t i e\<lparr>max_fd := k\<rparr>"
  by (simp add: put_entry_def fd_leaf_def Let_def split: option.splits)

lemma copy_fds_correct:
  assumes "fd_ok (neu\<lparr>max_fd := k\<rparr>)" and "\<And>i e. i \<in> set is \<Longrightarrow> fd_live old i = Some e \<Longrightarrow> i < max_slots neu \<and> i < k"
    and "copy_fds sys old is (neu, st, ob) = (b, neu', st', ob')"
  shows "refcount neu' = refcount neu \<and>
     (b \<longrightarrow> fd_ok (neu'\<lparr>max_fd := k\<rparr>) \<and> fd_live neu' = (\<lambda>j. if j \<in> set is \<and> fd_live old j \<noteq> None then fd_live old j else fd_live neu j) \<and>
            ob' = fold (copy_ref sys) (live_entries old is) ob)"
  using assms
proof (induction "is" arbitrary: neu st ob)
  case Nil
  then show ?case by auto
next
  case (Cons i "is")
  show ?case
  proof (cases "fd_live old i")
    case None
    then show ?thesis using Cons.IH [of neu st ob] Cons.prems unfolding copy_fds_live by (auto simp: fun_eq_iff)
  next
    case (Some e)
    obtain r t1 st1 where a: "fd_leaf_alloc (pages_of sys) i (neu, st) = (r, t1, st1)" by (rule prod_cases3)
    have lt: "i < max_slots neu" "i < k" using Cons.prems(2) Some by auto
    note A = fd_leaf_alloc_same [OF Cons.prems(1) _ fd_leaf_alloc_max_fd [OF a]]
    have A1: "fd_ok (t1\<lparr>max_fd := k\<rparr>)" "fd_live t1 = fd_live neu" "refcount t1 = refcount neu" "max_slots t1 = max_slots neu"
      and A2: "r = Inl ENOMEM \<or> r = Inr () \<and> fd_leaf (t1\<lparr>max_fd := k\<rparr>) i \<noteq> None"
      using A lt(1) fd_live_cong [of "t1\<lparr>max_fd := k\<rparr>" t1] fd_live_cong [of "neu\<lparr>max_fd := k\<rparr>" neu] by (auto simp: fd_same_def)
    note p = Cons.prems(3) [unfolded copy_fds_live Some option.case a prod.case]
    show ?thesis
    proof (cases r)
      case (Inl x)
      then show ?thesis using p A1 by auto
    next
      case (Inr u)
      define t2 where "t2 = fd_mark_used (put_entry t1 i e) i"
      have "t2\<lparr>max_fd := k\<rparr> = fd_mark_used (put_entry (t1\<lparr>max_fd := k\<rparr>) i e) i\<lparr>max_fd := k\<rparr>"
        by (simp add: t2_def fd_mark_used_def put_entry_max_fd)
      from fd_use_ok [OF A1(1) _ _ fd_live_type [OF Some] lt(2) _ this]
      have U: "fd_ok (t2\<lparr>max_fd := k\<rparr>)" "fd_live t2 = (fd_live neu)(i \<mapsto> e)"
        using A2 Inr lt(1) A1 fd_live_cong [of "t2\<lparr>max_fd := k\<rparr>" t2] fd_live_cong [of "t1\<lparr>max_fd := k\<rparr>" t1] by auto
      have f: "max_slots t2 = max_slots neu" "refcount t2 = refcount neu" using A1 by (simp_all add: t2_def fd_mark_used_def)
      have "copy_fds sys old is (t2, st1, copy_ref sys e ob) = (b, neu', st', ob')" using p Inr by (simp add: t2_def)
      from Cons.IH [OF U(1) _ this] show ?thesis using Cons.prems(2) Some f U(2) by (auto simp: fun_eq_iff)
    qed
  qed
qed

subsection \<open>A table of one's own\<close>

lemma fd_table_alloc_heap_empty_correct:
  assumes h: "fd_table_alloc_heap_empty sys n w = (r, w')" and n: "n \<le> FD_CEILING"
  shows "fw_objs w' = fw_objs w \<and>
     (case r of
        None \<Rightarrow> fw_tabs w' = fw_tabs w
      | Some a \<Rightarrow> fst (tab_alloc sys (fw_slab w)) = Some a \<and>
          (\<exists>t. fw_tabs w' = (fw_tabs w)(a \<mapsto> t) \<and> refcount t = 1 \<and> fd_ok t \<and> max_fd t = 0 \<and> fd_live t = Map.empty \<and> n \<le> max_slots t))"
proof -
  define m where "m = (if n < FD_INIT_SLOTS then FD_INIT_SLOTS else n)"
  obtain q sl where a: "tab_alloc sys (fw_slab w) = (q, sl)" by (rule prod.exhaust)
  obtain r1 t1 st1 where g: "fd_table_grow (pages_of sys) m (fd_reset empty_fds, fw_pages w) = (r1, t1, st1)" by (rule prod_cases3)
  note G = fd_table_grow_same [OF fd_ok_reset(1) g]
  have b: "fd_table_alloc_empty (pages_of sys) n (empty_fds, fw_pages w) = (r1, t1, st1)"
    using g by (simp add: fd_table_alloc_empty_def m_def)
  note h' = h [unfolded fd_table_alloc_heap_empty_def fd_heap_new_def a prod.case b]
  have G1: "fd_ok (t1\<lparr>refcount := 1\<rparr>)" "fd_live (t1\<lparr>refcount := 1\<rparr>) = Map.empty" "max_fd t1 = 0"
  proof -
    have ok: "fd_ok t1" "fd_live t1 = Map.empty" and mf: "max_fd t1 = 0"
      using G fd_ok_reset(2) [of empty_fds] by (auto simp: fd_same_def fd_reset_def empty_fds_def)
    show l: "fd_live (t1\<lparr>refcount := 1\<rparr>) = Map.empty" using fd_live_cong [of "t1\<lparr>refcount := 1\<rparr>" t1] ok by simp
    show "fd_ok (t1\<lparr>refcount := 1\<rparr>)" using ok(1) unfolding fd_ok_def l ok(2) by (simp add: fd_shape_def)
    show "max_fd t1 = 0" by (rule mf)
  qed
  have big: "r1 = Inr u \<Longrightarrow> n \<le> max_slots t1" for u using G by (auto simp: m_def split: if_splits)
  show ?thesis using h' G1 big a by (cases q; cases r1) (auto intro!: exI [of _ "t1\<lparr>refcount := 1\<rparr>"])
qed

definition fresh_tab :: "('s, 'v, 'o) fd_sys \<Rightarrow> ('s, 'v, 'o) fd_world \<Rightarrow> bool" where
  "fresh_tab sys w = (case fst (tab_alloc sys (fw_slab w)) of None \<Rightarrow> True | Some a \<Rightarrow> a \<noteq> 0 \<and> fw_tabs w a = None)"







text \<open>A shared table with one open file.\<close>

definition blank_fds :: fd_table where
  "blank_fds = \<lparr>dir_ptr = Some 1, entries_dir = [Some (2, replicate FD_LEAF_PER_PAGE \<lparr>fd_type = 0, fd_obj = 0, fd_flags = 0\<rparr>)],
     leaf_count = 1, bm_ptr = Some 3, free_bitmap = [- 1], max_slots = 64, max_fd = 0, refcount = 2\<rparr>"

definition file_fds :: fd_table where
  "file_fds = fd_mark_used (put_entry blank_fds 0 \<lparr>fd_type = FD_FILE, fd_obj = 7, fd_flags = 0\<rparr>) 0\<lparr>max_fd := 1\<rparr>"

lemma blank_fds_ok: "fd_ok blank_fds"
proof -
  have "fd_live blank_fds j = None" for j
  proof (cases "j div FD_LEAF_PER_PAGE = 0")
    case True
    have "j mod FD_LEAF_PER_PAGE < FD_LEAF_PER_PAGE" by (simp add: FD_LEAF_PER_PAGE_def)
    then show ?thesis using True by (simp add: fd_live_def fd_entry_at_def fd_leaf_def blank_fds_def FD_NONE_def)
  next
    case False
    then show ?thesis by (simp add: fd_live_def fd_entry_at_def fd_leaf_def blank_fds_def Let_def)
  qed
  moreover have "bm_test [- 1] b" if "b < 64" for b using that by (simp add: bm_test_bit)
  moreover have "fd_shape blank_fds"
    by (simp add: fd_shape_def blank_fds_def leaf_ok_def fd_bitmap_alloc_slots_def FD_LEAF_PER_PAGE_def FD_CEILING_def)
  ultimately show ?thesis by (auto simp: fd_ok_def blank_fds_def)
qed

lemma file_fds_ok: "fd_ok file_fds" "refcount file_fds = 2"
proof -
  have "fd_leaf blank_fds 0 \<noteq> None" by (simp add: fd_leaf_def blank_fds_def)
  then show "fd_ok file_fds"
    using fd_use_ok [OF blank_fds_ok _ _ _ _ _ file_fds_def] by (simp add: blank_fds_def FD_FILE_def FD_NONE_def)
  show "refcount file_fds = 2" by (simp add: file_fds_def fd_mark_used_def) (simp add: blank_fds_def)
qed

definition count_sys :: "(nat, nat, nat) fd_sys" where
  "count_sys = \<lparr>po_alloc = (\<lambda>n s. (Some s, s + nat n)), po_free = (\<lambda>_ _ s. s), tab_alloc = (\<lambda>v. (Some v, v + 1)), tab_free = (\<lambda>_ v. v),
     vfs_file_free_obj = (\<lambda>_ k. k - 1), vfs_file_incref = (\<lambda>_ k. k + 1), fd_cleanup_entry = (\<lambda>_ _ _ k. k - 1),
     fd_obj_incref = (\<lambda>_ _ _ k. k + 1), loop_dev_release = (\<lambda>_ k. k - 1), loop_dev_open = (\<lambda>_ k. k + 1)\<rparr>"

definition shared_world :: "(nat, nat, nat) fd_world" where
  "shared_world = \<lparr>fw_tabs = [1 \<mapsto> file_fds], fw_pages = 10, fw_slab = 2, fw_objs = 1\<rparr>"


subsection \<open>The table of a child\<close>

definition inherited ::
  "('s, 'v, 'o) fd_sys \<Rightarrow> nat \<Rightarrow> fd_table \<Rightarrow> ('s, 'v, 'o) fd_world \<Rightarrow> (unit result \<times> nat option \<times> ('s, 'v, 'o) fd_world) option \<Rightarrow> bool" where
  "inherited sys nofile parent w r =
     (case r of
        Some (Inr _, Some a, w') \<Rightarrow>
          fw_objs w' = fold (copy_ref sys) (live_entries parent [0..<min nofile (max_fd parent)]) (fw_objs w) \<and>
          (case fw_tabs w' a of
             None \<Rightarrow> False
           | Some neu \<Rightarrow>
              fw_tabs w a = None \<and> fw_tabs w' = (fw_tabs w)(a \<mapsto> neu) \<and>
              refcount neu = 1 \<and> fd_ok neu \<and> fd_live neu = fd_live parent |` {..<nofile})
      | Some (Inl e, p, w') \<Rightarrow> e = ENOMEM \<and> fw_tabs w' |` (- set_option p) = fw_tabs w \<and> set_option p \<inter> dom (fw_tabs w) = {}
      | _ \<Rightarrow> False)"

lemma copy_bound_below:
  assumes "fd_ok old" "fd_live old i = Some e" "i < k"
  shows "i < min FD_CEILING (fd_double FD_INIT_SLOTS k)"
proof -
  have "i < FD_CEILING" using assms by (auto simp: fd_ok_def fd_shape_def)
  moreover have "k \<le> fd_double FD_INIT_SLOTS k" using fd_double_ge [of FD_INIT_SLOTS] by (simp add: FD_INIT_SLOTS_def)
  ultimately show ?thesis using assms(3) by simp
qed

text \<open>
  CX: A forked child gets a table of its own with exactly the descriptors of the parent below the limit of
  the child, one more reference to every object behind them, and the parent keeps its table unchanged. When
  memory is short the fork sees \<^verbatim>\<open>ENOMEM\<close> and at most the unfinished table of the child is left, at an address
  that was not in use.
\<close>

theorem dup_fd_table_inherits:
  assumes par: "fw_tabs w fds = Some parent" "fd_ok parent" and fresh: "fresh_tab sys w"
  shows "inherited sys (fd_effective_nofile (Some rlim)) parent w (dup_fd_table sys rlim fds w)"
proof -
  define k where "k = min (fd_effective_nofile (Some rlim)) (max_fd parent)"
  define want where "want = min FD_CEILING (fd_double FD_INIT_SLOTS k)"
  have k': "(if (if rlim \<noteq> 0 then rlim else FD_DEFAULT_NOFILE) < max_fd parent then (if rlim \<noteq> 0 then rlim else FD_DEFAULT_NOFILE) else max_fd parent) = k"
    by (simp add: k_def fd_effective_nofile_def)
  obtain r w1 where h: "fd_table_alloc_heap_empty sys want w = (r, w1)" by (rule prod.exhaust)
  note H = fd_table_alloc_heap_empty_correct [OF h]
  note d = dup_fd_table_def [of sys rlim fds w, unfolded par(1) option.case Let_def k' want_def [symmetric] h prod.case]
  show ?thesis
  proof (cases r)
    case None
    then show ?thesis using d H by (simp add: inherited_def want_def restrict_map_def)
  next
    case (Some a)
    then obtain t where t: "fw_tabs w1 = (fw_tabs w)(a \<mapsto> t)" "refcount t = 1" "fd_ok t" "fd_live t = Map.empty" "want \<le> max_slots t"
      and a: "fst (tab_alloc sys (fw_slab w)) = Some a" and ob: "fw_objs w1 = fw_objs w"
      using H by (auto simp: want_def)
    have a': "fw_tabs w a = None" using fresh a by (auto simp: fresh_tab_def)
    obtain b neu1 st1 ob1 where c: "copy_fds sys parent [0..<k] (t, fw_pages w1, fw_objs w1) = (b, neu1, st1, ob1)"
      by (metis prod_cases4)
    have ok: "fd_ok (t\<lparr>max_fd := k\<rparr>)"
      using t(3,4) fd_live_cong [of "t\<lparr>max_fd := k\<rparr>" t] by (simp add: fd_ok_def fd_shape_def)
    have C: "refcount neu1 = 1 \<and> (b \<longrightarrow> fd_ok (neu1\<lparr>max_fd := k\<rparr>) \<and>
        fd_live neu1 = (\<lambda>j. if j \<in> set [0..<k] \<and> fd_live parent j \<noteq> None then fd_live parent j else fd_live t j) \<and>
        ob1 = fold (copy_ref sys) (live_entries parent [0..<k]) (fw_objs w1))"
      using copy_fds_correct [OF ok _ c] copy_bound_below [OF par(2), of _ _ k] t(2,5) by (fastforce simp: want_def)
    have "fd_live parent j = None" if "\<not> j < max_fd parent" for j using that par(2) by (auto simp: fd_ok_def)
    then have l: "fd_live (neu1\<lparr>max_fd := k\<rparr>) = fd_live parent |` {..<fd_effective_nofile (Some rlim)}" if b
      using C that t(4) fd_live_cong [of "neu1\<lparr>max_fd := k\<rparr>" neu1] by (auto simp: k_def fun_eq_iff restrict_map_def)
    show ?thesis
    proof (cases b)
      case False
      have "((fw_tabs w)(a \<mapsto> neu1)) |` (- {a}) = fw_tabs w" using a' by (auto simp: restrict_map_def fun_eq_iff)
      then show ?thesis using d Some t(1) c False a' by (simp add: inherited_def domIff)
    next
      case True
      then show ?thesis using d Some t(1) c C l a' ob by (simp add: inherited_def k_def [symmetric])
    qed
  qed
qed

theorem dup_fd_table_inherits_witness:
  "fw_tabs shared_world 1 = Some file_fds \<and> fd_ok file_fds \<and> fresh_tab count_sys shared_world \<and>
   inherited count_sys (fd_effective_nofile (Some 20)) file_fds shared_world (dup_fd_table count_sys 20 1 shared_world)"
proof -
  have w: "fw_tabs shared_world 1 = Some file_fds" by (simp add: shared_world_def)
  have f: "fresh_tab count_sys shared_world" by (simp add: fresh_tab_def count_sys_def shared_world_def)
  show ?thesis by (intro conjI w f file_fds_ok(1) dup_fd_table_inherits [OF w file_fds_ok(1) f])
qed

end
