(* ===== verification/Extable.thy ===== *)
theory Extable
  imports Prelude "HOL-Library.Multiset"
begin

section \<open>The exception table (\<^verbatim>\<open>src/kernel/mm/extable.c\<close>, \<^verbatim>\<open>include/kernel/mm/extable.h\<close>)\<close>

text \<open>
  The table pairs instructions that may fault with the code to go on with. An entry holds distances from its own
  place, so moving one means computing them again. The linker gives the start of the table and its
  entries; the model has the table as a list at an address.
\<close>

record ex_entry =
  insn :: "32 word"
  fixup :: "32 word"
  data :: "32 word"

definition ex_slot :: "u64 \<Rightarrow> nat \<Rightarrow> u64" where
  "ex_slot start i = start + 12 * of_nat i"

definition ex_insn_addr :: "u64 \<Rightarrow> ex_entry list \<Rightarrow> nat \<Rightarrow> u64" where
  "ex_insn_addr start es i = ex_slot start i + scast (insn (es ! i))"

definition ex_fixup_addr :: "u64 \<Rightarrow> ex_entry list \<Rightarrow> nat \<Rightarrow> u64" where
  "ex_fixup_addr start es i = ex_slot start i + 4 + scast (fixup (es ! i))"

definition ex_swap :: "u64 \<Rightarrow> ex_entry list \<Rightarrow> nat \<Rightarrow> nat \<Rightarrow> ex_entry list" where
  "ex_swap start es a b =
     (let a_insn = ex_insn_addr start es a; a_fixup = ex_fixup_addr start es a;
          b_insn = ex_insn_addr start es b; b_fixup = ex_fixup_addr start es b;
          a_data = data (es ! a); b_data = data (es ! b);
          es1 = es[a := \<lparr>insn = ucast (b_insn - ex_slot start a), fixup = ucast (b_fixup - (ex_slot start a + 4)), data = b_data\<rparr>]
      in es1[b := \<lparr>insn = ucast (a_insn - ex_slot start b), fixup = ucast (a_fixup - (ex_slot start b + 4)), data = a_data\<rparr>])"

fun ex_sink :: "u64 \<Rightarrow> ex_entry list \<Rightarrow> nat \<Rightarrow> u64 \<Rightarrow> ex_entry list" where
  "ex_sink start es 0 key = es"
| "ex_sink start es (Suc j) key =
     (if key < ex_insn_addr start es j
      then let es' = ex_swap start es (Suc j) j in ex_sink start es' j (ex_insn_addr start es' j)
      else es)"

definition extable_sort :: "u64 \<Rightarrow> ex_entry list \<Rightarrow> ex_entry list" where
  "extable_sort start es =
     (if length es < 2 then es
      else fold (\<lambda>i es. ex_sink start es i (ex_insn_addr start es i)) [1..<length es] es)"

function ex_search :: "u64 \<Rightarrow> ex_entry list \<Rightarrow> u64 \<Rightarrow> nat \<Rightarrow> nat \<Rightarrow> u64" where
  "ex_search start es fault_pc lo hi =
     (if lo < hi then
        let mid = lo + (hi - lo) div 2; pc = ex_insn_addr start es mid in
        if pc = fault_pc then ex_fixup_addr start es mid
        else if pc < fault_pc then ex_search start es fault_pc (mid + 1) hi
        else ex_search start es fault_pc lo mid
      else 0)"
  by auto
termination by (relation "measure (\<lambda>(start, es, pc, lo, hi). hi - lo)") auto

declare ex_search.simps [simp del]

definition extable_lookup :: "u64 \<Rightarrow> ex_entry list \<Rightarrow> u64 \<Rightarrow> u64" where
  "extable_lookup start es fault_pc = ex_search start es fault_pc 0 (length es)"

subsection \<open>What the table says\<close>

definition ex_targets :: "u64 \<Rightarrow> ex_entry list \<Rightarrow> (u64 \<times> u64 \<times> 32 word) list" where
  "ex_targets start es = map (\<lambda>i. (ex_insn_addr start es i, ex_fixup_addr start es i, data (es ! i))) [0..<length es]"

text \<open>An address is in reach of a place when their distance survives the cut to 32 bits.\<close>

definition in_reach :: "u64 \<Rightarrow> u64 \<Rightarrow> bool" where
  "in_reach a p \<longleftrightarrow> scast (ucast (a - p) :: 32 word) = a - p"

definition ex_window :: "u64 \<Rightarrow> ex_entry list \<Rightarrow> bool" where
  "ex_window start es =
     list_all (\<lambda>(pc, fx, _). list_all (\<lambda>k. in_reach pc (ex_slot start k) \<and> in_reach fx (ex_slot start k + 4)) [0..<length es])
       (ex_targets start es)"

lemma in_reach_back: "in_reach a p \<Longrightarrow> p + scast (ucast (a - p) :: 32 word) = a"
  by (simp add: in_reach_def)

lemma length_ex_targets [simp]: "length (ex_targets start es) = length es"
  by (simp add: ex_targets_def)

lemma ex_targets_nth: "i < length es \<Longrightarrow> ex_targets start es ! i = (ex_insn_addr start es i, ex_fixup_addr start es i, data (es ! i))"
  by (simp add: ex_targets_def)

lemma length_ex_swap [simp]: "length (ex_swap start es a b) = length es"
  by (simp add: ex_swap_def Let_def)

lemma ex_window_reach:
  assumes "ex_window start es" "i < length es" "k < length es"
  shows "in_reach (ex_insn_addr start es i) (ex_slot start k)" "in_reach (ex_fixup_addr start es i) (ex_slot start k + 4)"
  using assms by (auto simp: ex_window_def ex_targets_def list_all_iff)

lemma ex_swap_nth:
  assumes "a < length es" "b < length es" "a \<noteq> b"
  shows "ex_swap start es a b ! b = \<lparr>insn = ucast (ex_insn_addr start es a - ex_slot start b), fixup = ucast (ex_fixup_addr start es a - (ex_slot start b + 4)), data = data (es ! a)\<rparr>"
    and "ex_swap start es a b ! a = \<lparr>insn = ucast (ex_insn_addr start es b - ex_slot start a), fixup = ucast (ex_fixup_addr start es b - (ex_slot start a + 4)), data = data (es ! b)\<rparr>"
    and "k \<noteq> a \<Longrightarrow> k \<noteq> b \<Longrightarrow> ex_swap start es a b ! k = es ! k"
  using assms by (simp_all add: ex_swap_def Let_def)

lemma ex_swap_targets:
  assumes w: "ex_window start es" and ij: "a < length es" "b < length es" "a \<noteq> b"
  shows "ex_targets start (ex_swap start es a b) = (ex_targets start es)[a := ex_targets start es ! b, b := ex_targets start es ! a]"
proof (rule nth_equalityI)
  fix k
  assume "k < length (ex_targets start (ex_swap start es a b))"
  then have k: "k < length es" by simp
  note r = ex_window_reach [OF w]
  note addrs = ex_insn_addr_def [of start "ex_swap start es a b"] ex_fixup_addr_def [of start "ex_swap start es a b"]
  consider "k = b" | "k = a" | "k \<noteq> a" "k \<noteq> b" by blast
  then show "ex_targets start (ex_swap start es a b) ! k = (ex_targets start es)[a := ex_targets start es ! b, b := ex_targets start es ! a] ! k"
  proof cases
    case 1
    then show ?thesis using ij in_reach_back [OF r(1) [OF ij(1,2)]] in_reach_back [OF r(2) [OF ij(1,2)]]
      by (simp add: ex_targets_nth addrs ex_swap_nth)
  next
    case 2
    then show ?thesis using ij in_reach_back [OF r(1) [OF ij(2,1)]] in_reach_back [OF r(2) [OF ij(2,1)]]
      by (simp add: ex_targets_nth addrs ex_swap_nth)
  next
    case 3
    then show ?thesis using k ij by (simp add: ex_targets_nth ex_insn_addr_def ex_fixup_addr_def ex_swap_nth)
  qed
qed simp

lemma ex_swap_mset:
  assumes "ex_window start es" "a < length es" "b < length es" "a \<noteq> b"
  shows "mset (ex_targets start (ex_swap start es a b)) = mset (ex_targets start es)"
  unfolding ex_swap_targets [OF assms] using assms(2,3) by (simp add: mset_swap)

lemma ex_window_swap:
  assumes w: "ex_window start es" and ij: "a < length es" "b < length es" "a \<noteq> b"
  shows "ex_window start (ex_swap start es a b)"
  using w mset_eq_setD [OF ex_swap_mset [OF assms]] by (simp add: ex_window_def list_all_iff)

subsection \<open>Sorting\<close>

text \<open>While entry \<open>p\<close> sinks, every other entry up to \<open>m\<close> is in order with all entries before it.\<close>

definition sinking :: "(nat \<Rightarrow> u64) \<Rightarrow> nat \<Rightarrow> nat \<Rightarrow> bool" where
  "sinking key p m \<longleftrightarrow> (\<forall>a b. a < b \<longrightarrow> b \<le> m \<longrightarrow> b \<noteq> p \<longrightarrow> key a \<le> key b)"

definition in_order :: "(nat \<Rightarrow> u64) \<Rightarrow> nat \<Rightarrow> bool" where
  "in_order key m \<longleftrightarrow> (\<forall>a b. a < b \<longrightarrow> b \<le> m \<longrightarrow> key a \<le> key b)"

lemma sinking_done: "sinking key p m \<Longrightarrow> p = 0 \<or> key (p - 1) \<le> key p \<Longrightarrow> p \<le> m \<Longrightarrow> in_order key m"
proof -
  assume s: "sinking key p m" and k: "p = 0 \<or> key (p - 1) \<le> key p" and p: "p \<le> m"
  show "in_order key m"
    unfolding in_order_def
  proof (intro allI impI)
    fix a b
    assume ab: "a < b" "b \<le> m"
    show "key a \<le> key b"
    proof (cases "b = p")
      case False
      then show ?thesis using s ab by (simp add: sinking_def)
    next
      case True
      then have "a = p - 1 \<or> a < p - 1" "p \<noteq> 0" using ab by auto
      then have "key a \<le> key (p - 1)" using s p by (auto simp: sinking_def)
      then show ?thesis using k True \<open>p \<noteq> 0\<close> by auto
    qed
  qed
qed

lemma sinking_swap:
  assumes s: "sinking key (Suc j) m" and k: "key (Suc j) < key j" and m: "Suc j \<le> m"
    and key': "\<And>i. i \<le> m \<Longrightarrow> i \<noteq> j \<Longrightarrow> i \<noteq> Suc j \<Longrightarrow> key' i = key i" "key' j = key (Suc j)" "key' (Suc j) = key j"
  shows "sinking key' j m"
  unfolding sinking_def
proof (intro allI impI)
  fix a b
  assume ab: "a < b" "b \<le> m" "b \<noteq> j"
  have o: "\<And>a b. a < b \<Longrightarrow> b \<le> m \<Longrightarrow> b \<noteq> Suc j \<Longrightarrow> key a \<le> key b" using s by (simp add: sinking_def)
  consider "b = Suc j" "a = j" | "b = Suc j" "a < j" | "b \<noteq> Suc j" "a = j" | "b \<noteq> Suc j" "a = Suc j" | "b \<noteq> Suc j" "a \<noteq> j" "a \<noteq> Suc j"
    using ab by linarith
  then show "key' a \<le> key' b"
  proof cases
    case 1
    then show ?thesis using k key' by simp
  next
    case 2
    then show ?thesis using o [of a j] m key' by simp
  next
    case 3
    then show ?thesis using o [of "Suc j" b] ab key' by simp
  next
    case 4
    then show ?thesis using o [of j b] ab key' by simp
  next
    case 5
    then show ?thesis using o [of a b] ab key' by simp
  qed
qed

lemma ex_insn_addr_swap:
  assumes "ex_window start es" "a < length es" "b < length es" "a \<noteq> b" and i: "i < length es"
  shows "ex_insn_addr start (ex_swap start es a b) i = ex_insn_addr start es (if i = b then a else if i = a then b else i)"
proof -
  have "fst (ex_targets start (ex_swap start es a b) ! i) = fst (ex_targets start es ! (if i = b then a else if i = a then b else i))"
    unfolding ex_swap_targets [OF assms(1-4)] using assms(2-5) by (simp add: nth_list_update)
  then show ?thesis using assms(2,3) i by (simp add: ex_targets_nth split: if_splits)
qed

lemma ex_sink_sorts:
  assumes "ex_window start es" "p \<le> m" "m < length es" "sinking (ex_insn_addr start es) p m" "key = ex_insn_addr start es p"
  shows "length (ex_sink start es p key) = length es \<and> ex_window start (ex_sink start es p key) \<and>
    mset (ex_targets start (ex_sink start es p key)) = mset (ex_targets start es) \<and> in_order (ex_insn_addr start (ex_sink start es p key)) m"
  using assms
proof (induction p arbitrary: es key)
  case 0
  then show ?case using sinking_done [of _ 0] by simp
next
  case (Suc j)
  show ?case
  proof (cases "key < ex_insn_addr start es j")
    case False
    then have e: "ex_sink start es (Suc j) key = es" by simp
    show ?thesis unfolding e using False Suc.prems sinking_done [OF Suc.prems(4)] by (simp add: not_less)
  next
    case True
    define es' where "es' = ex_swap start es (Suc j) j"
    have b: "Suc j < length es" "j < length es" "Suc j \<noteq> j" using Suc.prems by auto
    note sw = ex_insn_addr_swap [OF Suc.prems(1) b, folded es'_def]
    have "sinking (ex_insn_addr start es') j m"
      by (rule sinking_swap [OF Suc.prems(4)]) (use True Suc.prems sw b in \<open>auto simp: not_less\<close>)
    moreover have "ex_window start es'" unfolding es'_def by (rule ex_window_swap [OF Suc.prems(1) b])
    ultimately show ?thesis
      using Suc.IH [of es' "ex_insn_addr start es' j"] Suc.prems True ex_swap_mset [OF Suc.prems(1) b] by (simp add: es'_def Let_def)
  qed
qed

lemma in_order_sinking: "in_order key i \<Longrightarrow> sinking key (Suc i) (Suc i)"
  by (auto simp: in_order_def sinking_def)

lemma ex_insert_sorts:
  assumes "ex_window start es" and "k < length es"
  defines "es' \<equiv> fold (\<lambda>i es. ex_sink start es i (ex_insn_addr start es i)) [1..<Suc k] es"
  shows "length es' = length es \<and> ex_window start es' \<and> mset (ex_targets start es') = mset (ex_targets start es) \<and> in_order (ex_insn_addr start es') k"
  using assms(2) unfolding es'_def
proof (induction k)
  case 0
  then show ?case using assms(1) by (simp add: in_order_def)
next
  case (Suc k)
  define es1 where "es1 = fold (\<lambda>i es. ex_sink start es i (ex_insn_addr start es i)) [1..<Suc k] es"
  have I: "length es1 = length es" "ex_window start es1" "mset (ex_targets start es1) = mset (ex_targets start es)" "in_order (ex_insn_addr start es1) k"
    using Suc unfolding es1_def by auto
  have "fold (\<lambda>i es. ex_sink start es i (ex_insn_addr start es i)) [1..<Suc (Suc k)] es = ex_sink start es1 (Suc k) (ex_insn_addr start es1 (Suc k))"
    by (simp add: es1_def)
  then show ?case using ex_sink_sorts [OF I(2) _ _ in_order_sinking [OF I(4)] refl] Suc.prems I by simp
qed

lemma extable_sort_sorts:
  assumes "ex_window start es"
  shows "length (extable_sort start es) = length es" "mset (ex_targets start (extable_sort start es)) = mset (ex_targets start es)"
    "in_order (ex_insn_addr start (extable_sort start es)) (length es - 1)"
proof -
  have "length (extable_sort start es) = length es \<and> mset (ex_targets start (extable_sort start es)) = mset (ex_targets start es) \<and>
    in_order (ex_insn_addr start (extable_sort start es)) (length es - 1)"
  proof (cases "length es < 2")
    case True
    then show ?thesis by (auto simp: extable_sort_def in_order_def)
  next
    case False
    define k where "k = length es - 1"
    have k: "length es = Suc k" using False by (simp add: k_def)
    show ?thesis using ex_insert_sorts [OF assms, of k] False unfolding extable_sort_def k by simp
  qed
  then show "length (extable_sort start es) = length es" "mset (ex_targets start (extable_sort start es)) = mset (ex_targets start es)"
    "in_order (ex_insn_addr start (extable_sort start es)) (length es - 1)" by blast+
qed

subsection \<open>Searching\<close>

definition ex_resolved :: "(u64 \<times> u64 \<times> 32 word) list \<Rightarrow> u64 \<Rightarrow> u64 \<Rightarrow> bool" where
  "ex_resolved T pc r \<longleftrightarrow> (if pc \<in> fst ` set T then (\<exists>d. (pc, r, d) \<in> set T) else r = 0)"

lemma ex_search_correct:
  assumes o: "in_order (ex_insn_addr start es) (length es - 1)"
  shows "hi \<le> length es \<Longrightarrow> (\<And>i. i < length es \<Longrightarrow> ex_insn_addr start es i = pc \<Longrightarrow> lo \<le> i \<and> i < hi) \<Longrightarrow>
    ex_resolved (ex_targets start es) pc (ex_search start es pc lo hi)"
proof (induction "hi - lo" arbitrary: lo hi rule: less_induct)
  case less
  show ?case
  proof (cases "lo < hi")
    case False
    then have "pc \<notin> fst ` set (ex_targets start es)" using less.prems(2) by (force simp: ex_targets_def)
    then show ?thesis using False by (simp add: ex_resolved_def ex_search.simps)
  next
    case True
    define mid where "mid = lo + (hi - lo) div 2"
    have mid: "lo \<le> mid" "mid < hi" "mid < length es" using True less.prems(1) by (auto simp: mid_def)
    have mono: "i \<le> j \<Longrightarrow> j < length es \<Longrightarrow> ex_insn_addr start es i \<le> ex_insn_addr start es j" for i j
      using o by (cases "i = j") (auto simp: in_order_def)
    have unf: "ex_search start es pc lo hi =
        (if ex_insn_addr start es mid = pc then ex_fixup_addr start es mid
         else if ex_insn_addr start es mid < pc then ex_search start es pc (mid + 1) hi else ex_search start es pc lo mid)"
      using True by (subst ex_search.simps) (simp add: Let_def mid_def)
    consider "ex_insn_addr start es mid = pc" | "ex_insn_addr start es mid < pc" | "pc < ex_insn_addr start es mid" by (metis less_linear)
    then show ?thesis
    proof cases
      case 1
      then have "(pc, ex_fixup_addr start es mid, data (es ! mid)) \<in> set (ex_targets start es)"
        using mid(3) ex_targets_nth [of mid es start] by (metis length_ex_targets nth_mem)
      then show ?thesis unfolding unf using 1 by (force simp: ex_resolved_def)
    next
      case 2
      have "ex_resolved (ex_targets start es) pc (ex_search start es pc (mid + 1) hi)"
      proof (rule less.hyps)
        fix i
        assume i: "i < length es" "ex_insn_addr start es i = pc"
        then have "\<not> i \<le> mid" using mono [of i mid] mid(3) 2 by auto
        then show "mid + 1 \<le> i \<and> i < hi" using less.prems(2) [OF i] by auto
      qed (use mid less.prems in auto)
      moreover have "ex_insn_addr start es mid \<noteq> pc" using 2 by auto
      ultimately show ?thesis unfolding unf using 2 by simp
    next
      case 3
      have "ex_resolved (ex_targets start es) pc (ex_search start es pc lo mid)"
      proof (rule less.hyps)
        fix i
        assume i: "i < length es" "ex_insn_addr start es i = pc"
        then have "\<not> mid \<le> i" using mono [of mid i] 3 by auto
        then show "lo \<le> i \<and> i < mid" using less.prems(2) [OF i] by auto
      qed (use mid less.prems in auto)
      moreover have "ex_insn_addr start es mid \<noteq> pc" "\<not> ex_insn_addr start es mid < pc" using 3 by auto
      ultimately show ?thesis unfolding unf by simp
    qed
  qed
qed

subsection \<open>The property\<close>

text \<open>
  CX: After the sort at boot the handler of a fault at \<open>pc\<close> goes on at the address that an entry of the table as
  linked gives for \<open>pc\<close>, and gets 0 exactly for addresses without an entry. The table may be in any order; what is
  needed is that the kernel image lies within the reach of 32-bit distances, so that moving an entry
  loses no bits.
\<close>

theorem extable_resolves:
  assumes "ex_window start es"
  shows "ex_resolved (ex_targets start es) pc (extable_lookup start (extable_sort start es) pc)"
proof -
  note S = extable_sort_sorts [OF assms]
  have "ex_resolved (ex_targets start (extable_sort start es)) pc (extable_lookup start (extable_sort start es) pc)"
    unfolding extable_lookup_def by (rule ex_search_correct) (use S in simp_all)
  then show ?thesis unfolding ex_resolved_def mset_eq_setD [OF S(2)] .
qed

definition two_entries :: "ex_entry list" where
  "two_entries = [\<lparr>insn = 0x500, fixup = 0x900, data = 0\<rparr>, \<lparr>insn = - 0x200, fixup = 0x1000, data = 0\<rparr>]"

theorem extable_resolves_witness:
  "ex_window 0x100000 two_entries \<and>
   ex_resolved (ex_targets 0x100000 two_entries) 0xFFE0C (extable_lookup 0x100000 (extable_sort 0x100000 two_entries) 0xFFE0C)"
proof -
  have "ex_window 0x100000 two_entries"
    by (simp add: ex_window_def two_entries_def ex_targets_def ex_insn_addr_def ex_fixup_addr_def ex_slot_def in_reach_def)
  then show ?thesis using extable_resolves by blast
qed

end
