(* ===== verification/Spec2Isabelle.thy ===== *)
theory Spec2Isabelle
  imports Prelude Mm_Props Mmap_Props Timer_Wheel Cred Page_Cache Eventfd Page_Table_Props Sysv_Msg Sysv_Sem Sysv_Shm Fd_Heap_Props Extable
begin

text \<open>
  A verification of the CosmoRT kernel, a monolithic kernel in C with the Linux system call interface.
  The theories model the parts of it that compute on data structures of their own, from physical memory
  up to the system calls that use it, as functions on explicit states. All paths are relative to
  \<^verbatim>\<open>src/\<close>.

  \<^bold>\<open>Conventions.\<close> A C structure is a record with the field names of the code, an enumeration a datatype. An
  intrusive linked list is the list of its elements in link order. A kernel pointer is an address, a null
  pointer \<open>None\<close> (or 0 where the code compares with 0). Integers whose wrap-around matters are machine
  words or carry their \<open>mod 2 ^ 64\<close>; others are natural numbers or integers. A call that can fail returns
  a value of type \<open>errno + 'a\<close>; undefined behaviour (an access out of bounds, the use of a freed object) is
  \<open>None\<close>, so a theorem that a result is \<open>Some\<close> says it does not occur. A section under a lock is one step.
  Code that is called through a pointer or belongs to a part that is not modelled is an argument.

  \<^bold>\<open>Memory.\<close>
  \<^item> \<open>Prelude\<close>: machine integers, error numbers, physical memory and the generic lemmas.
  \<^item> \<open>Memops\<close> (\<^verbatim>\<open>src/kernel/mm/memops.c\<close>): the fill and copy routines with their word loops, equal to
    filling and copying byte by byte.
  \<^item> \<open>Bitmap\<close>, \<open>Buddy\<close>, \<open>Buddy_Inv\<close>, \<open>Buddy_Boot\<close>, \<open>Buddy_Api\<close> (\<^verbatim>\<open>src/kernel/mm/page_alloc.c\<close>): the
    free lists, the bitmap and the reference counts are the record \<open>buddy\<close>. The invariant counts for every
    frame the free blocks that contain it; allocation and release are set operations on the free frames,
    booting establishes the invariant, and the locale \<open>page_source\<close> is what clients may rely on: a frame
    that is held is not handed out again and keeps its contents.
  \<^item> \<open>Slab\<close>, \<open>Steady_Pool\<close> (\<^verbatim>\<open>src/kernel/mm/slab.c\<close>): object pools over any page source, as an implementation
    of the locale \<open>object_pool\<close>; every sequence of calls is a legal history of an abstract pool.
  \<^item> \<open>Page_Blocks\<close>: the locale \<open>block_source\<close> for clients that own blocks of pages.
  \<^item> \<open>Page_Cache\<close> (\<^verbatim>\<open>src/kernel/mm/page_cache.c\<close>): the hash table as a map from file pages to frames, with the
    references it holds, also when two loaders race.
  \<^item> \<open>Extable\<close> (\<^verbatim>\<open>src/kernel/mm/extable.c\<close>): the sort of the exception table, whose entries hold distances
    from their own place, and the binary search in it.
  \<^item> \<open>Mm_Props\<close>: the properties of the byte routines and the two allocators.

  \<^bold>\<open>Address spaces.\<close>
  \<^item> \<open>Vma\<close>, \<open>Vma_Gap\<close>, \<open>Vma_Props\<close> (\<^verbatim>\<open>src/kernel/mm/vma.c\<close>): the AVL tree of areas. The operations keep
    order, balance and disjointness, and the two gap searches, which use an explicit stack of 64 entries,
    return the highest and the lowest gap.
  \<^item> \<open>Mmap\<close>, \<open>Mmap_Props\<close> (\<^verbatim>\<open>src/kernel/sys/sys_mem.c\<close>): the system calls on areas, against the view of an address
    space as a partial map from addresses to attributes.
  \<^item> \<open>Page_Table\<close>, \<open>Page_Table_Inv\<close>, \<open>Page_Table_Props\<close> (\<^verbatim>\<open>src/kernel/proc/process.c\<close>,
    \<^verbatim>\<open>src/kernel/sys/sys_mem.c\<close>, \<^verbatim>\<open>src/kernel/mm/gup.c\<close>): the four-level tables in memory. They stay a tree of
    distinct tables, and a change of a mapping is seen at its own addresses only.
  \<^item> \<open>Uaccess\<close> (\<^verbatim>\<open>src/arch/x86_64/cpu/uaccess.c\<close>): copies between kernel and user memory that stop at a fault.

  \<^bold>\<open>Processes and communication.\<close>
  \<^item> \<open>Cred\<close> (\<^verbatim>\<open>src/kernel/sys/sys_id.c\<close> and others): identities, groups and capabilities; a process
    without a root identity cannot gain one by any sequence of calls.
  \<^item> \<open>Fd_Table\<close>, \<open>Fd_Table_Props\<close>, \<open>Fd_Heap\<close>, \<open>Fd_Heap_Props\<close> (\<^verbatim>\<open>include/kernel/event/fd.h\<close>,
    \<^verbatim>\<open>src/kernel/proc/process.c\<close>, \<^verbatim>\<open>src/kernel/proc/process_fork.c\<close>): the two-level descriptor table with its
    bitmap refines a map from numbers to objects, and leaving a shared table or forking copies that map.
  \<^item> \<open>Timer_Wheel\<close> (\<^verbatim>\<open>src/kernel/core/timer_wheel.c\<close>): when timers fire.
  \<^item> \<open>Eventfd\<close> (\<^verbatim>\<open>src/kernel/event/eventfd.c\<close>): event counters conserve what is written to them.
  \<^item> \<open>Sysv\<close>, \<open>Sysv_Msg\<close>, \<open>Sysv_Sem\<close>, \<open>Sysv_Shm\<close> (\<^verbatim>\<open>src/kernel/ipc/sysv_ipc.c\<close>): message queues, semaphores and shared
    memory. Queues account for their messages and blocks, semaphore calls are atomic, and attaching a
    segment maps exactly its pages; the last joins the area tree, the page tables and the page allocator.

  \<^bold>\<open>Interfaces.\<close> \<open>bit_array\<close> is provided by the word array of \<open>Bitmap\<close>; \<open>page_source\<close>, \<open>table_source\<close>,
  \<open>block_source\<close> and \<open>paged_cache\<close> by the page allocator; \<open>object_pool\<close> and \<open>steady_pool\<close> by the slab. Each is
  interpreted on these definitions, and the properties rest on the interpretations.

  \<^bold>\<open>Bounds and fuel.\<close> The loops of \<^verbatim>\<open>munmap\<close>, \<^verbatim>\<open>mprotect\<close>, \<^verbatim>\<open>mlock\<close> and fixed \<^verbatim>\<open>mmap\<close> search the tree again after each
  change and carry fuel. For \<^verbatim>\<open>munmap\<close> one unit more than the number of overlapping areas is proved to be
  enough, for \<^verbatim>\<open>mlock\<close> and \<^verbatim>\<open>munlock\<close> one more than the number of areas. A blocking read or write of an event counter is
  given the list of what happens in its turns; a list that runs out is a caller that still sleeps. All
  other loops are structural or have a termination proof. The gap searches are proved for trees of
  fewer than \<open>2 ^ 32 - 1\<close> areas, for which the stack of the code is deep enough; descriptor limits are at
  most the ceiling of \<open>2 ^ 20\<close> that the code enforces.

  \<^bold>\<open>Behaviour that differs from the intent.\<close> Some theorems state what the code does where it departs from
  its comments or from the interface it implements: changing the protection of a range over several areas
  skips the lowest, a fixed mapping can leave an overlap, a writable protection forgets a copy-on-write
  mark, unmapping a huge page without execute permission keeps its memory, a detach can lead to pages that
  are freed while mapped, segments above 2 MB cannot be created, timers can fire early, and the 16-bit
  reference count of a page wraps.

  \<^bold>\<open>Not modelled.\<close> The scheduler, wait queues, RCU and the start of other processors need a concurrent
  model. Boot code, interrupts and drivers act on hardware. The file systems, the network stack, sockets,
  terminals, polling, futexes, signals, process creation and exec, and the system calls that only wrap them
  depend on those parts; where a modelled component calls them they are arguments. Of the address-space
  calls, file mappings, \<^verbatim>\<open>brk\<close>, \<^verbatim>\<open>mremap\<close>, \<^verbatim>\<open>madvise\<close> and lazy population are left out, as are flushes of the translation
  buffer and diagnostics on the serial port.
\<close>

end
